(* ===== verification/Prelude.thy ===== *)
theory Prelude
  imports Main "HOL-Library.Word" "HOL-Library.Char_ord" "HOL-Library.List_Lexorder"
begin

text \<open>
  Shared vocabulary of the development: the three-valued results and the exceptions of the
  C++ code, \<open>std::string\<close> and \<open>std::map\<close> operations, decimal texts and the stream
  conversions behind \<open>boost::lexical_cast\<close>. Nothing here is specific to one component.

  A \<open>std::string\<close> is a list of characters (bytes). A \<open>std::map\<close> is an association
  list kept in ascending key order, because the code iterates over its maps and the order
  of the iteration is visible (in the bytes of a reply, in the order of updates).
\<close>

named_theorems map_laws \<open>lookup and key laws of the ordered maps\<close>
named_theorems char_class \<open>the character classes of the request grammar\<close>
named_theorems eff_simps \<open>unfolding of sequenced effects\<close>
named_theorems keeps_intros \<open>operations that keep a property of the state\<close>

section \<open>Results\<close>

text \<open>\<open>boost::tribool\<close>, the answer of the request parser.\<close>

datatype tribool = TTrue | TFalse | Indeterminate

text \<open>
  What the code throws. The first four are the classes the request dispatcher tells apart;
  every other \<open>std::exception\<close> falls in its last handler. \<open>Abort\<close> is not an exception:
  it stands for the end of the process (a failed assertion of \<open>boost::shared_ptr\<close> on a null
  pointer), which no handler catches.
\<close>

datatype exn =
    Ews_not_found string
  | Sqlite_not_found string
  | Ews_forbidden string
  | Ews_error string
  | Database_error string
  | Bad_lexical_cast
  | Runtime_error string
  | File_error string
  | Out_of_range string
  | Abort

text \<open>An operation on a state that returns or throws; what it did to the state stays done.\<close>

type_synonym ('s, 'a) eff = "'s \<Rightarrow> (exn + 'a) \<times> 's"

definition ret :: "'a \<Rightarrow> ('s, 'a) eff" where
  "ret x = (\<lambda>s. (Inr x, s))"

definition throw :: "exn \<Rightarrow> ('s, 'a) eff" where
  "throw e = (\<lambda>s. (Inl e, s))"

definition bindE :: "('s, 'a) eff \<Rightarrow> ('a \<Rightarrow> ('s, 'b) eff) \<Rightarrow> ('s, 'b) eff" where
  "bindE m k = (\<lambda>s. case m s of (Inl e, s') \<Rightarrow> (Inl e, s') | (Inr x, s') \<Rightarrow> k x s')"

definition getS :: "('s \<Rightarrow> 'a) \<Rightarrow> ('s, 'a) eff" where
  "getS f = (\<lambda>s. (Inr (f s), s))"

definition modS :: "('s \<Rightarrow> 's) \<Rightarrow> ('s, unit) eff" where
  "modS f = (\<lambda>s. (Inr (), f s))"

fun forE :: "'a list \<Rightarrow> ('a \<Rightarrow> ('s, unit) eff) \<Rightarrow> ('s, unit) eff" where
  "forE [] f = ret ()"
| "forE (x # xs) f = bindE (f x) (\<lambda>_. forE xs f)"

lemma ret_apply [simp, eff_simps]: "ret x s = (Inr x, s)"
  by (simp add: ret_def)

lemma throw_apply [simp, eff_simps]: "throw e s = (Inl e, s)"
  by (simp add: throw_def)

lemma getS_apply [simp, eff_simps]: "getS f s = (Inr (f s), s)"
  by (simp add: getS_def)

lemma modS_apply [simp, eff_simps]: "modS f s = (Inr (), f s)"
  by (simp add: modS_def)

lemma bindE_Inr [simp, eff_simps]: "m s = (Inr x, s') \<Longrightarrow> bindE m k s = k x s'"
  by (simp add: bindE_def)

lemma bindE_Inl [simp, eff_simps]: "m s = (Inl e, s') \<Longrightarrow> bindE m k s = (Inl e, s')"
  by (simp add: bindE_def)

lemma bindE_eq_Inr:
  "bindE m k s = (Inr y, t) \<longleftrightarrow> (\<exists>x s'. m s = (Inr x, s') \<and> k x s' = (Inr y, t))"
  by (auto simp: bindE_def split: prod.splits sum.splits)

lemma forE_ret: "(\<And>x s. f x s = (Inr (), g x s)) \<Longrightarrow> forE xs f s = (Inr (), fold g xs s)"
  by (induction xs arbitrary: s) simp_all

section \<open>Properties an operation keeps\<close>

text \<open>Whatever an operation returns or throws, a property of the state that held before holds after it.\<close>

definition keeps :: "('s \<Rightarrow> bool) \<Rightarrow> ('s, 'a) eff \<Rightarrow> bool" where
  "keeps I m = (\<forall>s r s'. I s \<longrightarrow> m s = (r, s') \<longrightarrow> I s')"

lemma keepsD: "keeps I m \<Longrightarrow> I s \<Longrightarrow> m s = (r, s') \<Longrightarrow> I s'"
  by (auto simp: keeps_def)

lemma keeps_simple [keeps_intros]: "keeps I (ret x)" "keeps I (throw e)" "keeps I (getS f)"
  by (simp_all add: keeps_def)

lemma keeps_bindE [keeps_intros]:
  assumes "keeps I m" "\<And>x. keeps I (k x)"
  shows "keeps I (bindE m k)"
proof -
  have "I s'" if "I s" "bindE m k s = (r, s')" for s r s'
  proof (cases "m s")
    case (Pair y t)
    with assms(1) that(1) have t: "I t" by (rule keepsD)
    show ?thesis
    proof (cases y)
      case (Inl e)
      with Pair that(2) t show ?thesis by simp
    next
      case (Inr x)
      with Pair that(2) have "k x t = (r, s')" by simp
      with assms(2) t show ?thesis by (rule keepsD)
    qed
  qed
  then show ?thesis unfolding keeps_def by blast
qed

lemma keeps_forE [keeps_intros]: "(\<And>x. keeps I (f x)) \<Longrightarrow> keeps I (forE xs f)"
  by (induction xs) (auto intro: keeps_intros)

lemma keeps_if [keeps_intros]: "(P \<Longrightarrow> keeps I m) \<Longrightarrow> (\<not> P \<Longrightarrow> keeps I n) \<Longrightarrow> keeps I (if P then m else n)"
  by simp

lemma keeps_option [keeps_intros]:
  "keeps I m \<Longrightarrow> (\<And>x. keeps I (k x)) \<Longrightarrow> keeps I (case z of None \<Rightarrow> m | Some x \<Rightarrow> k x)"
  by (cases z) simp_all

lemma keeps_list [keeps_intros]:
  "keeps I m \<Longrightarrow> (\<And>x xs. keeps I (k x xs)) \<Longrightarrow> keeps I (case z of [] \<Rightarrow> m | x # xs \<Rightarrow> k x xs)"
  by (cases z) simp_all

lemma keeps_pair [keeps_intros]: "(\<And>x y. keeps I (k x y)) \<Longrightarrow> keeps I (case z of (x, y) \<Rightarrow> k x y)"
  by (cases z) simp

text \<open>Operations that do not change the state.\<close>

definition reads :: "('s, 'a) eff \<Rightarrow> bool" where
  "reads m = (\<forall>s. snd (m s) = s)"

lemma reads_keeps: "reads m \<Longrightarrow> keeps I m"
  by (auto simp: reads_def keeps_def) (metis snd_conv)

lemma reads_bindE: "reads m \<Longrightarrow> (\<And>x. reads (k x)) \<Longrightarrow> reads (bindE m k)"
  by (auto simp: reads_def bindE_def split: prod.splits sum.splits) (metis snd_conv)+

lemma reads_simple: "reads (ret x)" "reads (throw e)" "reads (getS f)"
  by (simp_all add: reads_def)

section \<open>Characters and strings\<close>

text \<open>A \<open>char\<close> widened to \<open>int\<close> (it is signed on the platforms of this program).\<close>

definition char_int :: "char \<Rightarrow> int" where
  "char_int c = (let n = int (of_char c) in if n < 128 then n else n - 256)"

text \<open>\<open>static_cast<char>\<close> of an int keeps the low eight bits.\<close>

definition int_char :: "int \<Rightarrow> char" where
  "int_char i = char_of (nat (i mod 256))"

lemma int_char_char_int [simp]: "int_char (char_int c) = c"
proof -
  have "(of_char c :: nat) < 256" by (rule nat_of_char_less_256)
  then have "nat (char_int c mod 256) = of_char c"
    by (auto simp: char_int_def Let_def)
  then show ?thesis by (simp add: int_char_def)
qed

text \<open>\<open>boost::to_upper_copy\<close> in the classic locale changes the 26 letters only.\<close>

definition to_upper_char :: "char \<Rightarrow> char" where
  "to_upper_char c =
     (let n = (of_char c :: nat) in if 97 \<le> n \<and> n \<le> 122 then char_of (n - 32) else c)"

definition to_upper :: "string \<Rightarrow> string" where
  "to_upper s = map to_upper_char s"

lemma to_upper_char_idem [simp]: "to_upper_char (to_upper_char c) = to_upper_char c"
proof (cases "97 \<le> (of_char c :: nat) \<and> (of_char c :: nat) \<le> 122")
  case True
  then have "(of_char (to_upper_char c) :: nat) = of_char c - 32"
    by (simp add: to_upper_char_def Let_def less_imp_diff_less)
  with True show ?thesis by (auto simp add: to_upper_char_def [of "to_upper_char c"] Let_def)
next
  case False
  then show ?thesis by (auto simp add: to_upper_char_def Let_def)
qed

lemma to_upper_idem [simp]: "to_upper (to_upper s) = to_upper s"
  by (simp add: to_upper_def)

lemma to_upper_Nil [simp]: "to_upper [] = []"
  by (simp add: to_upper_def)

text \<open>\<open>boost::replace_all_copy\<close> with a one-character pattern.\<close>

definition replace_all :: "char \<Rightarrow> string \<Rightarrow> string \<Rightarrow> string" where
  "replace_all c r s = concat (map (\<lambda>x. if x = c then r else [x]) s)"

lemma replace_all_simps [simp]:
  "replace_all c r [] = []"
  "replace_all c r (x # s) = (if x = c then r else [x]) @ replace_all c r s"
  "replace_all c r (s @ t) = replace_all c r s @ replace_all c r t"
  by (simp_all add: replace_all_def)

text \<open>\<open>boost::ends_with\<close>, \<open>std::string::find\<close> of a pattern and the last position of a character.\<close>

definition ends_with :: "string \<Rightarrow> string \<Rightarrow> bool" where
  "ends_with s t = (length t \<le> length s \<and> drop (length s - length t) s = t)"

fun contains :: "string \<Rightarrow> string \<Rightarrow> bool" where
  "contains p [] = (p = [])"
| "contains p (x # s) = (take (length p) (x # s) = p \<or> contains p s)"

lemma contains_iff: "contains p s \<longleftrightarrow> (\<exists>u v. s = u @ p @ v)"
proof (induction s)
  case Nil
  then show ?case by auto
next
  case (Cons x s)
  have "take (length p) (x # s) = p \<longleftrightarrow> (\<exists>v. x # s = p @ v)"
    by (metis append_eq_conv_conj append_take_drop_id)
  moreover have "(\<exists>u v. x # s = u @ p @ v) \<longleftrightarrow>
      (\<exists>v. x # s = p @ v) \<or> (\<exists>u v. s = u @ p @ v)"
    by (metis append_Cons append_Nil list.exhaust list.inject)
  ultimately show ?case using Cons.IH by simp
qed

fun find_last_of :: "char \<Rightarrow> string \<Rightarrow> nat option" where
  "find_last_of c [] = None"
| "find_last_of c (x # s) =
     (case find_last_of c s of
        Some i \<Rightarrow> Some (Suc i)
      | None \<Rightarrow> (if x = c then Some 0 else None))"

lemma find_last_of_None: "find_last_of c s = None \<longleftrightarrow> c \<notin> set s"
  by (induction s) (auto split: option.splits)

lemma find_last_of_append:
  "c \<notin> set t \<Longrightarrow> find_last_of c (s @ c # t) = Some (length s)"
  by (induction s) (auto simp: find_last_of_None split: option.splits)

section \<open>Ordered maps\<close>

type_synonym ('k, 'v) smap = "('k \<times> 'v) list"

definition map_find :: "('k, 'v) smap \<Rightarrow> 'k \<Rightarrow> 'v option" where
  "map_find m k = map_of m k"

text \<open>\<open>m[k] = v\<close>\<close>

fun map_set :: "'k::linorder \<Rightarrow> 'v \<Rightarrow> ('k, 'v) smap \<Rightarrow> ('k, 'v) smap" where
  "map_set k v [] = [(k, v)]"
| "map_set k v ((a, b) # m) =
     (if k < a then (k, v) # (a, b) # m
      else if k = a then (k, v) # m
      else (a, b) # map_set k v m)"

text \<open>\<open>m.insert(std::make_pair(k, v))\<close> leaves an entry that is there unchanged.\<close>

definition map_insert :: "'k::linorder \<Rightarrow> 'v \<Rightarrow> ('k, 'v) smap \<Rightarrow> ('k, 'v) smap" where
  "map_insert k v m = (case map_find m k of None \<Rightarrow> map_set k v m | Some _ \<Rightarrow> m)"

definition map_ok :: "('k::linorder, 'v) smap \<Rightarrow> bool" where
  "map_ok m = sorted_wrt (<) (map fst m)"

definition map_keys :: "('k, 'v) smap \<Rightarrow> 'k set" where
  "map_keys m = fst ` set m"

lemma map_find_Nil [simp, map_laws]: "map_find [] k = None"
  by (simp add: map_find_def)

lemma map_find_set [simp, map_laws]:
  "map_find (map_set k v m) j = (if j = k then Some v else map_find m j)"
  by (induction k v m rule: map_set.induct) (auto simp: map_find_def)

lemma map_find_insert [simp, map_laws]:
  "map_find (map_insert k v m) j =
     (if j = k \<and> map_find m k = None then Some v else map_find m j)"
  by (auto simp: map_insert_def split: option.splits)

lemma map_keys_set [simp, map_laws]: "map_keys (map_set k v m) = insert k (map_keys m)"
  by (induction k v m rule: map_set.induct) (auto simp: map_keys_def)

lemma map_ok_Nil [simp, map_laws]: "map_ok []"
  by (simp add: map_ok_def)

lemma map_ok_set [simp, map_laws]: "map_ok m \<Longrightarrow> map_ok (map_set k v m)"
proof (induction k v m rule: map_set.induct)
  case (2 k v a b m)
  have "map_keys (map_set k v m) = insert k (map_keys m)" by simp
  with 2 show ?case by (auto simp: map_ok_def map_keys_def)
qed (simp add: map_ok_def)

lemma map_ok_insert [simp, map_laws]: "map_ok m \<Longrightarrow> map_ok (map_insert k v m)"
  by (auto simp: map_insert_def split: option.splits)

lemma map_ok_distinct: "map_ok m \<Longrightarrow> distinct (map fst m)"
  by (simp add: map_ok_def strict_sorted_iff)

lemma map_find_iff: "map_ok m \<Longrightarrow> map_find m k = Some v \<longleftrightarrow> (k, v) \<in> set m"
  by (simp add: map_find_def map_ok_distinct)

lemma map_find_keys: "map_find m k = None \<longleftrightarrow> k \<notin> map_keys m"
  by (simp add: map_find_def map_keys_def map_of_eq_None_iff)

lemma map_set_nonempty [simp]: "map_set k v m \<noteq> []"
  by (cases "(k, v, m)" rule: map_set.cases) auto

text \<open>The interface the request and the reply use of their header maps.\<close>

locale header_store =
  fixes find :: "'m \<Rightarrow> 'k \<Rightarrow> 'v option"
    and assign :: "'k \<Rightarrow> 'v \<Rightarrow> 'm \<Rightarrow> 'm"
    and insert_new :: "'k \<Rightarrow> 'v \<Rightarrow> 'm \<Rightarrow> 'm"
    and empty :: "'m"
  assumes find_empty: "find empty k = None"
    and find_assign: "find (assign k v m) j = (if j = k then Some v else find m j)"
    and find_insert_new:
      "find (insert_new k v m) j = (if j = k \<and> find m k = None then Some v else find m j)"
begin

lemma first_insert_wins: "find (insert_new k w (insert_new k v m)) j = find (insert_new k v m) j"
  by (auto simp: find_insert_new)

lemma last_assign_wins: "find (assign k w (assign k v m)) j = find (assign k w m) j"
  by (auto simp: find_assign)

lemma insert_after_assign: "find (insert_new k w (assign k v m)) k = Some v"
  by (simp add: find_insert_new find_assign)

lemma insert_keeps: "find m j = Some v \<Longrightarrow> find (insert_new k w m) j = Some v"
  by (auto simp: find_insert_new)

end

interpretation smap: header_store map_find map_set map_insert "[]"
  by unfold_locales auto

end
