(* ===== verification/Lexical.thy ===== *)
theory Lexical
  imports Prelude
begin

text \<open>
  Texts of numbers: \<open>boost::lexical_cast\<close> between strings and the integer types of the
  program, the decimal output of a C++ stream, and the hexadecimal extraction used by the
  percent decoder. \<open>lexical_cast\<close> reads with \<open>skipws\<close> off and wants the whole string to be
  consumed; \<open>None\<close> is its \<open>bad_lexical_cast\<close>.
\<close>

section \<open>Decimal digits\<close>

definition is_dec :: "char \<Rightarrow> bool" where
  "is_dec c = (48 \<le> (of_char c :: nat) \<and> (of_char c :: nat) \<le> 57)"

definition dec_digit :: "char \<Rightarrow> nat" where
  "dec_digit c = of_char c - 48"

definition dec_value :: "string \<Rightarrow> nat" where
  "dec_value s = foldl (\<lambda>n c. n * 10 + dec_digit c) 0 s"

fun show_nat :: "nat \<Rightarrow> string" where
  "show_nat n = (if n < 10 then [char_of (48 + n)] else show_nat (n div 10) @ [char_of (48 + n mod 10)])"

declare show_nat.simps [simp del]

definition show_int :: "int \<Rightarrow> string" where
  "show_int i = (if i < 0 then CHR ''-'' # show_nat (nat (- i)) else show_nat (nat i))"

lemma is_dec_digit: "d < 10 \<Longrightarrow> is_dec (char_of (48 + d)) \<and> dec_digit (char_of (48 + d)) = d"
  by (simp add: is_dec_def dec_digit_def)

lemma dec_value_snoc: "dec_value (s @ [c]) = dec_value s * 10 + dec_digit c"
  by (simp add: dec_value_def)

lemma show_nat_props: "show_nat n \<noteq> [] \<and> list_all is_dec (show_nat n) \<and> dec_value (show_nat n) = n"
proof (induction n rule: show_nat.induct)
  case (1 n)
  show ?case
  proof (cases "n < 10")
    case True
    then show ?thesis
      using is_dec_digit [of n] by (simp add: show_nat.simps [of n] dec_value_def)
  next
    case False
    with "1.IH" is_dec_digit [of "n mod 10"] show ?thesis
      by (simp add: show_nat.simps [of n] dec_value_snoc)
  qed
qed

lemma show_nat_nonempty [simp]: "show_nat n \<noteq> []"
  using show_nat_props by blast

lemma show_nat_digits [simp]: "list_all is_dec (show_nat n)"
  using show_nat_props by blast

lemma dec_value_show_nat [simp]: "dec_value (show_nat n) = n"
  using show_nat_props by blast

lemma show_nat_inj: "show_nat m = show_nat n \<longleftrightarrow> m = n"
  by (metis dec_value_show_nat)

lemma is_dec_not_sign: "is_dec c \<Longrightarrow> c \<noteq> CHR ''-'' \<and> c \<noteq> CHR ''+''"
  by (auto simp: is_dec_def)

section \<open>lexical_cast to the integer types\<close>

text \<open>An optional sign and at least one digit, with nothing before or after.\<close>

definition scan_integer :: "string \<Rightarrow> (bool \<times> nat) option" where
  "scan_integer s =
     (let (neg, ds) = (case s of
            [] \<Rightarrow> (False, [])
          | c # t \<Rightarrow> if c = CHR ''-'' then (True, t)
                     else if c = CHR ''+'' then (False, t) else (False, s))
      in if ds \<noteq> [] \<and> list_all is_dec ds then Some (neg, dec_value ds) else None)"

text \<open>
  \<open>lexical_cast<unsigned int>\<close>: a magnitude of 32 bits; a minus sign negates it modulo
  \<open>2^32\<close>, as \<open>strtoul\<close> does.
\<close>

definition lexical_cast_uint :: "string \<Rightarrow> 32 word option" where
  "lexical_cast_uint s =
     (case scan_integer s of
        None \<Rightarrow> None
      | Some (neg, n) \<Rightarrow>
          if n < 2 ^ 32 then Some (if neg then - of_nat n else of_nat n) else None)"

definition lexical_cast_signed :: "nat \<Rightarrow> string \<Rightarrow> int option" where
  "lexical_cast_signed w s =
     (case scan_integer s of
        None \<Rightarrow> None
      | Some (neg, n) \<Rightarrow>
          let i = (if neg then - int n else int n)
          in if - (2 ^ (w - 1)) \<le> i \<and> i < 2 ^ (w - 1) then Some i else None)"

text \<open>\<open>lexical_cast<int>\<close> and \<open>lexical_cast<sqlite::id_t>\<close> (a \<open>long long\<close>).\<close>

definition lexical_cast_int :: "string \<Rightarrow> int option" where
  "lexical_cast_int = lexical_cast_signed 32"

definition lexical_cast_id :: "string \<Rightarrow> int option" where
  "lexical_cast_id = lexical_cast_signed 64"

lemma scan_integer_show_nat [simp]: "scan_integer (show_nat n) = Some (False, n)"
proof -
  obtain c t where s: "show_nat n = c # t"
    using show_nat_nonempty by (meson list.exhaust)
  have "list_all is_dec (c # t)" using show_nat_digits [of n] s by simp
  then have "is_dec c" by simp
  then show ?thesis
    using is_dec_not_sign [of c] dec_value_show_nat [of n] show_nat_digits [of n] s
    by (simp add: scan_integer_def)
qed

lemma lexical_cast_uint_show [simp]: "n < 2 ^ 32 \<Longrightarrow> lexical_cast_uint (show_nat n) = Some (of_nat n)"
  by (simp add: lexical_cast_uint_def)

lemma scan_integer_show_int: "scan_integer (show_int i) = Some (i < 0, nat \<bar>i\<bar>)"
  by (auto simp: show_int_def) (simp_all add: scan_integer_def Let_def)

lemma lexical_cast_signed_show:
  "- (2 ^ (w - 1)) \<le> i \<Longrightarrow> i < 2 ^ (w - 1) \<Longrightarrow> lexical_cast_signed w (show_int i) = Some i"
  by (auto simp: lexical_cast_signed_def scan_integer_show_int Let_def)

lemma lexical_cast_id_show:
  "- (2 ^ 63) \<le> i \<Longrightarrow> i < 2 ^ 63 \<Longrightarrow> lexical_cast_id (show_int i) = Some i"
  by (simp add: lexical_cast_id_def lexical_cast_signed_show)

lemma lexical_cast_signed_bounds:
  "lexical_cast_signed w s = Some i \<Longrightarrow> - (2 ^ (w - 1)) \<le> i \<and> i < 2 ^ (w - 1)"
  by (auto simp: lexical_cast_signed_def Let_def split: option.splits if_splits)

section \<open>Hexadecimal extraction from a stream\<close>

definition is_space :: "char \<Rightarrow> bool" where
  "is_space c = (let n = (of_char c :: nat) in (9 \<le> n \<and> n \<le> 13) \<or> n = 32)"

definition hex_digit :: "char \<Rightarrow> nat option" where
  "hex_digit c =
     (let n = (of_char c :: nat) in
      if 48 \<le> n \<and> n \<le> 57 then Some (n - 48)
      else if 97 \<le> n \<and> n \<le> 102 then Some (n - 87)
      else if 65 \<le> n \<and> n \<le> 70 then Some (n - 55)
      else None)"

definition hex_value :: "string \<Rightarrow> nat" where
  "hex_value s = foldl (\<lambda>n c. n * 16 + the (hex_digit c)) 0 s"

text \<open>
  \<open>is >> std::hex >> value\<close>: leading white space is skipped, then an optional sign, an
  optional \<open>0x\<close>, and as many hexadecimal digits as there are; no digit is a failure. (The
  decoder gives it two characters, so the value always fits an \<open>int\<close>.)
\<close>

definition scan_hex :: "string \<Rightarrow> int option" where
  "scan_hex s =
     (let s1 = dropWhile is_space s;
          (neg, s2) = (case s1 of
              [] \<Rightarrow> (False, [])
            | c # t \<Rightarrow> if c = CHR ''-'' then (True, t)
                       else if c = CHR ''+'' then (False, t) else (False, s1));
          s3 = (case s2 of
              z # x # t \<Rightarrow> if z = CHR ''0'' \<and> (x = CHR ''x'' \<or> x = CHR ''X'') then t else s2
            | _ \<Rightarrow> s2);
          ds = takeWhile (\<lambda>c. hex_digit c \<noteq> None) s3
      in if ds = [] then None
         else Some (if neg then - int (hex_value ds) else int (hex_value ds)))"

definition hex_char :: "nat \<Rightarrow> char" where
  "hex_char d = (if d < 10 then char_of (48 + d) else char_of (55 + d))"

definition hex_char_lower :: "nat \<Rightarrow> char" where
  "hex_char_lower d = (if d < 10 then char_of (48 + d) else char_of (87 + d))"

lemma hex_digit_hex_char: "d < 16 \<Longrightarrow> hex_digit (hex_char d) = Some d"
  by (simp add: hex_digit_def hex_char_def Let_def)

lemma hex_digit_hex_char_lower: "d < 16 \<Longrightarrow> hex_digit (hex_char_lower d) = Some d"
  by (simp add: hex_digit_def hex_char_lower_def Let_def)

lemma hex_digit_plain:
  assumes "hex_digit c = Some d"
  shows "\<not> is_space c" "c \<noteq> CHR ''-''" "c \<noteq> CHR ''+''" "c \<noteq> CHR ''x''" "c \<noteq> CHR ''X''" "d < 16"
  using assms by (auto simp: hex_digit_def is_space_def Let_def split: if_splits)

lemma scan_hex_two:
  assumes "hex_digit a = Some m" "hex_digit b = Some n"
  shows "scan_hex [a, b] = Some (int (m * 16 + n))"
  using assms hex_digit_plain [OF assms(1)] hex_digit_plain [OF assms(2)]
  by (simp add: scan_hex_def Let_def hex_value_def)

end
