(* ===== verification/Url.thy ===== *)
theory Url
  imports Lexical
begin

text \<open>
  Percent decoding, the form-element expression and the splitting of a path
  (\<open>libs/ews/request_parser.cpp\<close>, the functions outside the character automaton).

  \<open>parse_form_elements\<close> runs a Perl regular expression over its text. The matcher below is
  the ordinary backtracking one for sequences of character classes; the function is defined
  with it, and \<open>form_pairs_eq\<close> relates it to a scanner that reads the text once.
\<close>

section \<open>Percent decoding\<close>

fun decode_str :: "string \<Rightarrow> string" where
  "decode_str [] = []"
| "decode_str (c # s) =
     (if c = CHR ''%'' then
        (case s of
           a # b # t \<Rightarrow>
             (case scan_hex [a, b] of
                Some v \<Rightarrow> int_char v # decode_str t
              | None \<Rightarrow> decode_str t)
         | _ \<Rightarrow> [])
      else c # decode_str s)"

lemma decode_str_plain [simp]: "c \<noteq> CHR ''%'' \<Longrightarrow> decode_str (c # s) = c # decode_str s"
  by simp

lemma decode_str_escape:
  "decode_str (CHR ''%'' # a # b # t) =
     (case scan_hex [a, b] of Some v \<Rightarrow> [int_char v] | None \<Rightarrow> []) @ decode_str t"
  by (simp split: option.split)

declare decode_str.simps(2) [simp del]

lemma decode_str_no_percent: "CHR ''%'' \<notin> set s \<Longrightarrow> decode_str s = s"
  by (induction s) auto

lemma decode_str_append_plain:
  "CHR ''%'' \<notin> set s \<Longrightarrow> decode_str (s @ t) = s @ decode_str t"
  by (induction s) auto

lemma length_decode_str: "length (decode_str s) \<le> length s"
proof (induction s rule: decode_str.induct)
  case (2 c s)
  show ?case
  proof (cases "c = CHR ''%''")
    case False
    with 2 show ?thesis by simp
  next
    case True
    show ?thesis
    proof (cases s rule: remdups_adj.cases)
      case (3 a b t)
      then have "length (decode_str t) \<le> length t"
        using 2 True by (cases "scan_hex [a, b]") auto
      then show ?thesis
        using True 3 by (simp add: decode_str_escape split: option.split)
    qed (use True in \<open>simp_all add: decode_str.simps(2)\<close>)
  qed
qed simp

text \<open>
  The encoding that browsers produce: a character outside a safe set becomes \<open>%XX\<close>, with
  digits of either case.
\<close>

definition percent_encode :: "bool \<Rightarrow> char \<Rightarrow> string" where
  "percent_encode lower c =
     (let n = (of_char c :: nat); h = (if lower then hex_char_lower else hex_char)
      in [CHR ''%'', h (n div 16), h (n mod 16)])"

definition url_encode :: "(char \<Rightarrow> bool) \<Rightarrow> bool \<Rightarrow> string \<Rightarrow> string" where
  "url_encode safe lower s =
     concat (map (\<lambda>c. if safe c then [c] else percent_encode lower c) s)"

lemma url_encode_simps [simp]:
  "url_encode safe lower [] = []"
  "url_encode safe lower (c # s) =
     (if safe c then [c] else percent_encode lower c) @ url_encode safe lower s"
  by (simp_all add: url_encode_def)

lemma decode_percent_encode: "decode_str (percent_encode lower c @ t) = c # decode_str t"
proof -
  let ?n = "of_char c :: nat"
  have n: "?n < 256" by simp
  then have d: "?n div 16 < 16" by (simp add: less_mult_imp_div_less)
  define h where "h = (if lower then hex_char_lower else hex_char)"
  have "hex_digit (h (?n div 16)) = Some (?n div 16)"
    using d by (simp add: h_def hex_digit_hex_char hex_digit_hex_char_lower)
  moreover have "hex_digit (h (?n mod 16)) = Some (?n mod 16)"
    by (simp add: h_def hex_digit_hex_char hex_digit_hex_char_lower)
  ultimately have "scan_hex [h (?n div 16), h (?n mod 16)] = Some (int ?n)"
    by (simp add: scan_hex_two)
  moreover have "int_char (int ?n) = c"
    using n by (simp add: int_char_def nat_mod_distrib)
  ultimately show ?thesis
    by (simp add: percent_encode_def Let_def decode_str_escape h_def)
qed

lemma decode_url_encode_append:
  "\<not> safe CHR ''%'' \<Longrightarrow> decode_str (url_encode safe lower s @ t) = s @ decode_str t"
proof (induction s)
  case (Cons a s)
  then show ?case by (cases "a = CHR ''%''") (simp_all add: decode_percent_encode)
qed simp

text \<open>The characters an encoded text can contain: the safe ones, \<open>%\<close> and digits and letters.\<close>

definition is_hex_out :: "char \<Rightarrow> bool" where
  "is_hex_out c = (hex_digit c \<noteq> None)"

lemma hex_char_out: "d < 16 \<Longrightarrow> is_hex_out (hex_char d) \<and> is_hex_out (hex_char_lower d)"
  by (simp add: is_hex_out_def hex_digit_hex_char hex_digit_hex_char_lower)

lemma set_percent_encode:
  "x \<in> set (percent_encode lower c) \<Longrightarrow> x = CHR ''%'' \<or> is_hex_out x"
proof -
  have "(of_char c :: nat) div 16 < 16" by (simp add: less_mult_imp_div_less)
  then show "x \<in> set (percent_encode lower c) \<Longrightarrow> x = CHR ''%'' \<or> is_hex_out x"
    by (auto simp: percent_encode_def Let_def hex_char_out)
qed

lemma set_url_encode:
  "x \<in> set (url_encode safe lower s) \<Longrightarrow> safe x \<or> x = CHR ''%'' \<or> is_hex_out x"
  by (induction s) (auto dest: set_percent_encode split: if_splits)

section \<open>Regular expressions: sequences of character classes\<close>

datatype re_item =
    One "char \<Rightarrow> bool"
  | Maybe "char \<Rightarrow> bool"
  | Many "char \<Rightarrow> bool"

text \<open>
  A match at the start of the text, greedy with backtracking: the text each item took, and
  the rest.
\<close>

fun re_match :: "re_item list \<Rightarrow> string \<Rightarrow> (string list \<times> string) option" where
  "re_match [] s = Some ([], s)"
| "re_match (One p # rs) [] = None"
| "re_match (One p # rs) (c # s) =
     (if p c then map_option (\<lambda>(m, r). ([c] # m, r)) (re_match rs s) else None)"
| "re_match (Maybe p # rs) [] = map_option (\<lambda>(m, r). ([] # m, r)) (re_match rs [])"
| "re_match (Maybe p # rs) (c # s) =
     (case (if p c then re_match rs s else None) of
        Some (m, r) \<Rightarrow> Some ([c] # m, r)
      | None \<Rightarrow> map_option (\<lambda>(m, r). ([] # m, r)) (re_match rs (c # s)))"
| "re_match (Many p # rs) [] = map_option (\<lambda>(m, r). ([] # m, r)) (re_match rs [])"
| "re_match (Many p # rs) (c # s) =
     (case (if p c then re_match (Many p # rs) s else None) of
        Some (m, r) \<Rightarrow> Some ((c # hd m) # tl m, r)
      | None \<Rightarrow> map_option (\<lambda>(m, r). ([] # m, r)) (re_match rs (c # s)))"

text \<open>The leftmost match, and the successive matches of \<open>boost::sregex_iterator\<close>.\<close>

fun re_search :: "re_item list \<Rightarrow> string \<Rightarrow> (string list \<times> string) option" where
  "re_search rs [] = re_match rs []"
| "re_search rs (c # s) =
     (case re_match rs (c # s) of Some x \<Rightarrow> Some x | None \<Rightarrow> re_search rs s)"

function re_all :: "re_item list \<Rightarrow> string \<Rightarrow> string list list" where
  "re_all rs s =
     (case re_search rs s of
        None \<Rightarrow> []
      | Some (m, r) \<Rightarrow> m # (if length r < length s then re_all rs r else []))"
  by pat_completeness auto
termination
  by (relation "measure (\<lambda>(rs, s). length s)") auto

declare re_all.simps [simp del]

section \<open>Form elements\<close>

text \<open>\<open>[?]?([^?=]*)=([^&]*)&?\<close>\<close>

definition form_regex :: "re_item list" where
  "form_regex =
     [Maybe (\<lambda>c. c = CHR ''?''), Many (\<lambda>c. c \<noteq> CHR ''?'' \<and> c \<noteq> CHR ''=''),
      One (\<lambda>c. c = CHR ''=''), Many (\<lambda>c. c \<noteq> CHR ''&''), Maybe (\<lambda>c. c = CHR ''&'')]"

type_synonym varibles = "(string, string list) smap"

definition push_varible :: "string \<Rightarrow> string \<Rightarrow> varibles \<Rightarrow> varibles" where
  "push_varible name value m =
     map_set name ((case map_find m name of None \<Rightarrow> [] | Some vs \<Rightarrow> vs) @ [value]) m"

definition form_pairs :: "string \<Rightarrow> (string \<times> string) list" where
  "form_pairs s = map (\<lambda>m. (m ! 1, m ! 3)) (re_all form_regex s)"

definition parse_form_elements :: "varibles \<Rightarrow> string \<Rightarrow> varibles" where
  "parse_form_elements m s =
     fold (\<lambda>(n, v) acc. push_varible (decode_str n) (decode_str v) acc) (form_pairs s) m"

text \<open>The same pairs by one left-to-right scan.\<close>

fun next_pair :: "string \<Rightarrow> string \<Rightarrow> (string \<times> string \<times> string) option" where
  "next_pair name [] = None"
| "next_pair name (c # s) =
     (if c = CHR ''='' then
        Some (name, takeWhile (\<lambda>c. c \<noteq> CHR ''&'') s, drop 1 (dropWhile (\<lambda>c. c \<noteq> CHR ''&'') s))
      else if c = CHR ''?'' then next_pair [] s
      else next_pair (name @ [c]) s)"

lemma next_pair_shorter: "next_pair name s = Some (n, v, r) \<Longrightarrow> length r < length s"
proof (induction name s rule: next_pair.induct)
  case (2 name c s)
  have "length (dropWhile (\<lambda>c. c \<noteq> CHR ''&'') s) \<le> length s" by (rule length_dropWhile_le)
  with 2 show ?case by (auto split: if_splits)
qed simp

function scan_pairs :: "string \<Rightarrow> (string \<times> string) list" where
  "scan_pairs s =
     (case next_pair [] s of
        None \<Rightarrow> []
      | Some (n, v, r) \<Rightarrow> (n, v) # scan_pairs r)"
  by pat_completeness auto
termination
  by (relation "measure length") (auto dest: next_pair_shorter)

declare scan_pairs.simps [simp del]

subsection \<open>The expression and the scanner agree\<close>

abbreviation (input) "value_part s \<equiv> takeWhile (\<lambda>c. c \<noteq> CHR ''&'') s"
abbreviation (input) "after_value s \<equiv> drop 1 (dropWhile (\<lambda>c. c \<noteq> CHR ''&'') s)"

lemma match_amp:
  "re_match [Maybe (\<lambda>c. c = CHR ''&'')] s =
     (case s of
        c # t \<Rightarrow> if c = CHR ''&'' then Some ([[c]], t) else Some ([[]], s)
      | [] \<Rightarrow> Some ([[]], []))"
  by (cases s) auto

lemma match_value:
  "\<exists>a. re_match [Many (\<lambda>c. c \<noteq> CHR ''&''), Maybe (\<lambda>c. c = CHR ''&'')] s =
     Some ([value_part s, a], after_value s)"
  by (induction s) (auto simp: match_amp)

definition name_match :: "string \<Rightarrow> (string list \<times> string) option" where
  "name_match s = re_match (tl form_regex) s"

lemma re_match_form:
  "re_match form_regex s =
     (case s of
        [] \<Rightarrow> None
      | c # t \<Rightarrow> map_option (\<lambda>(m, r). ((if c = CHR ''?'' then [c] else []) # m, r))
                   (name_match (if c = CHR ''?'' then t else s)))"
  by (cases s) (auto simp: form_regex_def name_match_def split: option.split)

lemma name_match_Nil [simp]: "name_match [] = None"
  by (simp add: name_match_def form_regex_def)

lemma name_match_Cons:
  "name_match (c # s) =
     (if c = CHR ''='' then
        map_option (\<lambda>(m, r). ([] # [c] # m, r))
          (re_match [Many (\<lambda>c. c \<noteq> CHR ''&''), Maybe (\<lambda>c. c = CHR ''&'')] s)
      else if c = CHR ''?'' then None
      else map_option (\<lambda>(m, r). ((c # hd m) # tl m, r)) (name_match s))"
proof -
  obtain a where "re_match [Many (\<lambda>c. c \<noteq> CHR ''&''), Maybe (\<lambda>c. c = CHR ''&'')] s =
      Some ([value_part s, a], after_value s)"
    using match_value by blast
  then show ?thesis by (auto simp: name_match_def form_regex_def split: option.split)
qed

lemma next_pair_name_match:
  "next_pair name s =
     (case name_match s of
        Some (m, r) \<Rightarrow> Some (name @ m ! 0, m ! 2, r)
      | None \<Rightarrow>
          (case dropWhile (\<lambda>c. c \<noteq> CHR ''?'' \<and> c \<noteq> CHR ''='') s of
             c # t \<Rightarrow> next_pair [] t
           | [] \<Rightarrow> None))"
proof (induction s arbitrary: name)
  case (Cons c s)
  obtain a where v: "re_match [Many (\<lambda>c. c \<noteq> CHR ''&''), Maybe (\<lambda>c. c = CHR ''&'')] s =
      Some ([value_part s, a], after_value s)"
    using match_value by blast
  consider "c = CHR ''=''" | "c = CHR ''?''" | "c \<noteq> CHR ''=''" "c \<noteq> CHR ''?''" by blast
  then show ?case
  proof cases
    case 1
    with v show ?thesis by (simp add: name_match_Cons)
  next
    case 2
    then show ?thesis by (simp add: name_match_Cons)
  next
    case 3
    show ?thesis
    proof (cases "name_match s")
      case None
      with 3 Cons.IH [of "name @ [c]"] show ?thesis by (simp add: name_match_Cons)
    next
      case (Some x)
      obtain m r where x: "x = (m, r)" by fastforce
      have "tl m \<noteq> [] \<and> tl (tl m) \<noteq> [] \<and> m \<noteq> []" if "name_match t = Some (m, r)" for t
        using that
      proof (induction t arbitrary: m r)
        case (Cons d t)
        obtain b where "re_match [Many (\<lambda>c. c \<noteq> CHR ''&''), Maybe (\<lambda>c. c = CHR ''&'')] t =
            Some ([value_part t, b], after_value t)"
          using match_value by blast
        with Cons show ?case
          by (auto simp: name_match_Cons split: if_splits)
      qed simp
      with Some x have "\<exists>p q u w. m = p # q # u # w" by (metis list.exhaust_sel)
      with 3 Cons.IH [of "name @ [c]"] Some x show ?thesis
        by (auto simp: name_match_Cons)
    qed
  qed
qed simp

lemma re_search_form:
  "map_option (\<lambda>(m, r). (m ! 1, m ! 3, r)) (re_search form_regex s) = next_pair [] s"
proof (induction s)
  case Nil
  show ?case by (simp add: re_match_form)
next
  case (Cons c s)
  show ?case
  proof (cases "re_match form_regex (c # s)")
    case (Some x)
    then show ?thesis
      using next_pair_name_match [of "[]" "if c = CHR ''?'' then s else c # s"]
      by (auto simp: re_match_form split: if_splits)
  next
    case None
    then have nm: "name_match (if c = CHR ''?'' then s else c # s) = None"
      by (simp add: re_match_form)
    have "c \<noteq> CHR ''=''"
    proof
      assume "c = CHR ''=''"
      with nm match_value [of s] show False by (auto simp: name_match_Cons)
    qed
    moreover have "next_pair [c] s = next_pair [] s" if "c \<noteq> CHR ''?''"
    proof -
      from that nm \<open>c \<noteq> CHR ''=''\<close> have "name_match s = None"
        by (simp add: name_match_Cons)
      then show ?thesis by (simp add: next_pair_name_match)
    qed
    ultimately show ?thesis using None Cons.IH by simp
  qed
qed

lemma form_pairs_scan: "form_pairs s = scan_pairs s"
proof (induction s rule: scan_pairs.induct)
  case (1 s)
  show ?case
  proof (cases "re_search form_regex s")
    case None
    then have "next_pair [] s = None" using re_search_form [of s] by simp
    with None show ?thesis by (simp add: form_pairs_def re_all.simps [of _ s] scan_pairs.simps [of s])
  next
    case (Some x)
    obtain m r where x: "x = (m, r)" by fastforce
    then have np: "next_pair [] s = Some (m ! 1, m ! 3, r)" using re_search_form [of s] Some by simp
    then have "length r < length s" by (rule next_pair_shorter)
    moreover have "form_pairs r = scan_pairs r" using "1.IH" [OF np] by simp
    ultimately show ?thesis
      using Some x np by (simp add: form_pairs_def re_all.simps [of _ s] scan_pairs.simps [of s])
  qed
qed

section \<open>Query strings\<close>

text \<open>
  The text a client sends for a list of named values: both sides percent-encoded, joined
  with \<open>=\<close> and \<open>&\<close>. The safe characters are any that are not special to the form syntax.
\<close>

definition form_safe :: "(char \<Rightarrow> bool) \<Rightarrow> bool" where
  "form_safe safe = (\<not> safe CHR ''%'' \<and> \<not> safe CHR ''='' \<and> \<not> safe CHR ''?'' \<and> \<not> safe CHR ''&'')"

fun query_text :: "(char \<Rightarrow> bool) \<Rightarrow> bool \<Rightarrow> (string \<times> string) list \<Rightarrow> string" where
  "query_text safe lower [] = []"
| "query_text safe lower [(n, v)] = url_encode safe lower n @ CHR ''='' # url_encode safe lower v"
| "query_text safe lower ((n, v) # ps) =
     url_encode safe lower n @ CHR ''='' # url_encode safe lower v @ CHR ''&'' # query_text safe lower ps"

lemma url_encode_clean:
  assumes "form_safe safe"
  shows "CHR ''='' \<notin> set (url_encode safe lower s)"
    and "CHR ''?'' \<notin> set (url_encode safe lower s)"
    and "CHR ''&'' \<notin> set (url_encode safe lower s)"
proof -
  have no: "\<not> is_hex_out (CHR ''='')" "\<not> is_hex_out (CHR ''?'')" "\<not> is_hex_out (CHR ''&'')"
    by (simp_all add: is_hex_out_def hex_digit_def)
  show "CHR ''='' \<notin> set (url_encode safe lower s)" "CHR ''?'' \<notin> set (url_encode safe lower s)"
    "CHR ''&'' \<notin> set (url_encode safe lower s)"
    using assms no by (auto simp: form_safe_def dest: set_url_encode)
qed

lemma decode_url_encode: "form_safe safe \<Longrightarrow> decode_str (url_encode safe lower s) = s"
  using decode_url_encode_append [of safe lower s "[]"] by (simp add: form_safe_def)

lemma next_pair_skip:
  "CHR ''='' \<notin> set p \<Longrightarrow> CHR ''?'' \<notin> set p \<Longrightarrow> next_pair name (p @ s) = next_pair (name @ p) s"
  by (induction p arbitrary: name) auto

lemma takeWhile_dropWhile_value:
  "CHR ''&'' \<notin> set v \<Longrightarrow> value_part v = v \<and> after_value v = []"
  "CHR ''&'' \<notin> set v \<Longrightarrow> value_part (v @ CHR ''&'' # r) = v \<and> after_value (v @ CHR ''&'' # r) = r"
  by (induction v) auto

lemma next_pair_pair:
  assumes "CHR ''='' \<notin> set n" "CHR ''?'' \<notin> set n"
  shows "next_pair [] (n @ CHR ''='' # s) = Some (n, value_part s, after_value s)"
  using assms by (simp add: next_pair_skip)

lemma scan_pairs_Nil [simp]: "scan_pairs [] = []"
  by (simp add: scan_pairs.simps)

lemma scan_pairs_pair:
  assumes "CHR ''='' \<notin> set n" "CHR ''?'' \<notin> set n"
  shows "scan_pairs (n @ CHR ''='' # s) = (n, value_part s) # scan_pairs (after_value s)"
  by (subst scan_pairs.simps) (simp add: next_pair_pair [OF assms])

lemma scan_pairs_query:
  "form_safe safe \<Longrightarrow> scan_pairs (query_text safe lower ps) =
    map (\<lambda>(n, v). (url_encode safe lower n, url_encode safe lower v)) ps"
proof (induction safe lower ps rule: query_text.induct)
  case (2 safe lower n v)
  then show ?case
    using takeWhile_dropWhile_value(1) [OF url_encode_clean(3) [OF "2.prems"], of lower v]
    by (simp add: scan_pairs_pair url_encode_clean)
next
  case (3 safe lower n v p ps)
  then show ?case
    using takeWhile_dropWhile_value(2) [OF url_encode_clean(3) [OF "3.prems"], of lower v]
    by (simp add: scan_pairs_pair url_encode_clean)
qed simp

text \<open>A path in front of the query does not add a pair of its own.\<close>

lemma scan_pairs_path:
  assumes "CHR ''='' \<notin> set path" "CHR ''?'' \<notin> set path"
  shows "scan_pairs (path @ CHR ''?'' # s) = scan_pairs s"
proof -
  have "next_pair [] (path @ CHR ''?'' # s) = next_pair [] s"
    using assms by (simp add: next_pair_skip)
  then show ?thesis by (subst scan_pairs.simps, subst scan_pairs.simps) simp
qed

lemma parse_form_elements_query:
  assumes "form_safe safe" "CHR ''='' \<notin> set path" "CHR ''?'' \<notin> set path"
  shows "parse_form_elements m (path @ CHR ''?'' # query_text safe lower ps) =
    fold (\<lambda>(n, v). push_varible n v) ps m"
proof -
  have "fold (\<lambda>(n, v) acc. push_varible (decode_str n) (decode_str v) acc)
      (map (\<lambda>(n, v). (url_encode safe lower n, url_encode safe lower v)) ps) m =
    fold (\<lambda>(n, v). push_varible n v) ps m"
    by (induction ps arbitrary: m) (auto simp: decode_url_encode [OF assms(1)])
  then show ?thesis
    using assms by (simp add: parse_form_elements_def form_pairs_scan scan_pairs_path scan_pairs_query)
qed

lemma map_find_push:
  "map_find (push_varible n v m) k =
     (if k = n then Some ((case map_find m n of None \<Rightarrow> [] | Some vs \<Rightarrow> vs) @ [v]) else map_find m k)"
  by (simp add: push_varible_def)

text \<open>What the map of variables holds after a list of pairs: for each name its values, in order.\<close>

lemma map_find_fold_push:
  "map_find (fold (\<lambda>(n, v). push_varible n v) ps m) k =
     (let vs = map snd (filter (\<lambda>p. fst p = k) ps) in
      if vs = [] then map_find m k
      else Some ((case map_find m k of None \<Rightarrow> [] | Some us \<Rightarrow> us) @ vs))"
  by (induction ps arbitrary: m) (auto simp: map_find_push Let_def split: option.splits)

section \<open>Splitting a path\<close>

lemma drop_slashes_shorter:
  "dropWhile (\<lambda>c. c \<noteq> CHR ''/'') s \<noteq> [] \<Longrightarrow>
   length (dropWhile (\<lambda>c. c = CHR ''/'') (dropWhile (\<lambda>c. c \<noteq> CHR ''/'') s)) < length s"
proof (induction s)
  case (Cons c s)
  then show ?case
    by (cases "c = CHR ''/''") (auto simp: less_Suc_eq_le length_dropWhile_le)
qed simp

text \<open>\<open>boost::split(elements, url, is_any_of("/"), token_compress_on)\<close>\<close>

function split_slash :: "string \<Rightarrow> string list" where
  "split_slash s =
     (let tok = takeWhile (\<lambda>c. c \<noteq> CHR ''/'') s; rest = dropWhile (\<lambda>c. c \<noteq> CHR ''/'') s
      in if rest = [] then [tok] else tok # split_slash (dropWhile (\<lambda>c. c = CHR ''/'') rest))"
  by pat_completeness auto
termination
  by (relation "measure length") (simp_all add: drop_slashes_shorter)

declare split_slash.simps [simp del]

lemma split_slash_last: "CHR ''/'' \<notin> set s \<Longrightarrow> split_slash s = [s]"
  by (subst split_slash.simps) (auto simp: Let_def takeWhile_eq_all_conv dropWhile_eq_Nil_conv)

lemma split_slash_Cons:
  assumes "CHR ''/'' \<notin> set tok" "n > 0" "t = [] \<or> hd t \<noteq> CHR ''/''"
  shows "split_slash (tok @ replicate n (CHR ''/'') @ t) = tok # split_slash t"
proof -
  obtain k where n: "n = Suc k" using assms(2) by (cases n) auto
  have "takeWhile (\<lambda>c. c \<noteq> CHR ''/'') (tok @ replicate n (CHR ''/'') @ t) = tok \<and>
    dropWhile (\<lambda>c. c \<noteq> CHR ''/'') (tok @ replicate n (CHR ''/'') @ t) = replicate n (CHR ''/'') @ t"
    using assms(1) n by (induction tok) auto
  moreover have "dropWhile (\<lambda>c. c = CHR ''/'') (replicate n (CHR ''/'') @ t) = t"
    using assms(3) by (cases t) (auto simp: dropWhile_append)
  ultimately show ?thesis
    using assms(2) by (subst split_slash.simps) (simp add: Let_def)
qed

text \<open>No element of the result holds a slash, and joining a list of names gives it back.\<close>

lemma split_slash_no_slash: "x \<in> set (split_slash s) \<Longrightarrow> CHR ''/'' \<notin> set x"
proof (induction s rule: split_slash.induct)
  case (1 s)
  have tok: "CHR ''/'' \<notin> set (takeWhile (\<lambda>c. c \<noteq> CHR ''/'') s)"
    using set_takeWhileD by fastforce
  from "1.prems" have "x = takeWhile (\<lambda>c. c \<noteq> CHR ''/'') s \<or>
      (dropWhile (\<lambda>c. c \<noteq> CHR ''/'') s \<noteq> [] \<and>
       x \<in> set (split_slash (dropWhile (\<lambda>c. c = CHR ''/'') (dropWhile (\<lambda>c. c \<noteq> CHR ''/'') s))))"
    by (subst (asm) split_slash.simps) (auto simp: Let_def split: if_splits)
  with tok "1.IH" show ?case by auto
qed

fun join_slash :: "string list \<Rightarrow> string" where
  "join_slash [] = []"
| "join_slash [x] = x"
| "join_slash (x # xs) = x @ CHR ''/'' # join_slash xs"

lemma split_join_slash:
  "xs \<noteq> [] \<Longrightarrow> (\<forall>x \<in> set xs. CHR ''/'' \<notin> set x) \<Longrightarrow> (\<forall>x \<in> set (butlast (tl xs)). x \<noteq> []) \<Longrightarrow>
   split_slash (join_slash xs) = xs"
proof (induction xs rule: join_slash.induct)
  case (2 x)
  then show ?case by (simp add: split_slash_last)
next
  case (3 x y ys)
  have y: "ys = [] \<or> y \<noteq> []" using "3.prems"(3) by (cases ys) simp_all
  have hd: "join_slash (y # ys) = [] \<or> hd (join_slash (y # ys)) \<noteq> CHR ''/''"
  proof (cases y)
    case Nil
    with y show ?thesis by simp
  next
    case (Cons c u)
    with "3.prems"(2) have "c \<noteq> CHR ''/''" by auto
    with Cons show ?thesis by (cases ys) simp_all
  qed
  have "\<forall>x \<in> set (butlast (tl (y # ys))). x \<noteq> []"
    using "3.prems"(3) by (cases ys) simp_all
  with "3.prems"(2) have "split_slash (join_slash (y # ys)) = y # ys"
    by (intro "3.IH") simp_all
  then show ?case
    using split_slash_Cons [of x 1 "join_slash (y # ys)"] "3.prems" hd by simp
qed simp

end
