(* ===== verification/Sql_Text.thy ===== *)
theory Sql_Text
  imports Lexical
begin

text \<open>
  The SQL text the program composes (\<open>libs/sqlite\<close> and the table descriptions of
  \<open>libs/spinny\<close>): quoting, the comma helper, the field list of a table, the values of an
  insert and the assignments of an update, and the statements \<open>connection::save\<close>,
  \<open>load_many\<close>, \<open>load_where\<close> and \<open>load_all\<close> put together from them.
\<close>

section \<open>Quoting\<close>

definition q :: "string \<Rightarrow> bool \<Rightarrow> string" where
  "q val enclose =
     (if enclose then CHR 0x27 # replace_all (CHR 0x27) [CHR 0x27, CHR 0x27] val @ [CHR 0x27]
      else replace_all (CHR 0x27) [CHR 0x27, CHR 0x27] val)"

text \<open>
  How SQL reads a string literal: after the opening quote, two quotes stand for one and a
  single quote ends it. The result is the value and the text after the literal.
\<close>

fun sql_literal_tail :: "string \<Rightarrow> (string \<times> string) option" where
  "sql_literal_tail [] = None"
| "sql_literal_tail (c # s) =
     (if c = CHR 0x27 then
        (case s of
           d # t \<Rightarrow> if d = CHR 0x27
                    then map_option (\<lambda>(v, r). (CHR 0x27 # v, r)) (sql_literal_tail t)
                    else Some ([], s)
         | [] \<Rightarrow> Some ([], []))
      else map_option (\<lambda>(v, r). (c # v, r)) (sql_literal_tail s))"

fun sql_literal :: "string \<Rightarrow> (string \<times> string) option" where
  "sql_literal (c # s) = (if c = CHR 0x27 then sql_literal_tail s else None)"
| "sql_literal [] = None"

lemma sql_literal_tail_quoted:
  "rest = [] \<or> hd rest \<noteq> CHR 0x27 \<Longrightarrow>
   sql_literal_tail (replace_all (CHR 0x27) [CHR 0x27, CHR 0x27] v @ CHR 0x27 # rest) = Some (v, rest)"
  by (induction v) (auto split: list.split)

section \<open>The comma helper\<close>

text \<open>\<open>times_called_\<close> is an int.\<close>

record commas = times_called :: "32 word"

definition commas_init :: commas where
  "commas_init = \<lparr>times_called = 0\<rparr>"

definition commas_get :: "commas \<Rightarrow> char \<times> commas" where
  "commas_get c =
     (if times_called c \<noteq> 0 then CHR '','' else CHR '' '', c\<lparr>times_called := times_called c + 1\<rparr>)"

definition commas_reset :: "commas \<Rightarrow> commas" where
  "commas_reset c = c\<lparr>times_called := 0\<rparr>"

text \<open>\<open>str << comma << item\<close> for every item of a list.\<close>

fun with_commas :: "commas \<Rightarrow> string list \<Rightarrow> string" where
  "with_commas c [] = []"
| "with_commas c (x # xs) = (let (ch, c') = commas_get c in ch # x @ with_commas c' xs)"

fun sep_by :: "string \<Rightarrow> string list \<Rightarrow> string" where
  "sep_by sep [] = []"
| "sep_by sep [x] = x"
| "sep_by sep (x # xs) = x @ sep @ sep_by sep xs"

lemma with_commas_later:
  "unat (times_called c) \<noteq> 0 \<Longrightarrow> unat (times_called c) + length xs < 2 ^ 32 \<Longrightarrow>
   with_commas c xs = concat (map (\<lambda>x. CHR '','' # x) xs)"
proof (induction xs arbitrary: c)
  case (Cons x xs)
  have u: "unat (times_called c + 1) = unat (times_called c) + 1"
    using Cons.prems(2) by (simp add: unat_word_ariths)
  have "times_called c \<noteq> 0" using Cons.prems(1) by auto
  moreover have "with_commas (c\<lparr>times_called := times_called c + 1\<rparr>) xs =
      concat (map (\<lambda>x. CHR '','' # x) xs)"
    by (rule Cons.IH) (use u Cons.prems in auto)
  ultimately show ?case by (simp add: commas_get_def)
qed simp

lemma sep_by_Cons: "sep_by sep (x # xs) = x @ concat (map (\<lambda>y. sep @ y) xs)"
  by (induction xs arbitrary: x) simp_all

lemma with_commas_init:
  assumes "xs \<noteq> []" "length xs < 2 ^ 32"
  shows "with_commas commas_init xs = CHR '' '' # sep_by '','' xs"
proof -
  obtain x ys where xs: "xs = x # ys" using assms(1) by (cases xs) auto
  have "with_commas \<lparr>times_called = 1\<rparr> ys = concat (map (\<lambda>x. CHR '','' # x) ys)"
    by (rule with_commas_later) (use assms(2) xs in simp_all)
  then show ?thesis
    by (simp add: xs commas_init_def commas_get_def sep_by_Cons)
qed

section \<open>Table descriptions\<close>

record description =
  table_name :: string
  num_fields :: nat
  field_names :: "string list"
  field_types :: "string list"

definition song_desc :: description where
  "song_desc = \<lparr>table_name = ''songs'', num_fields = 9,
     field_names = [''dir_id'', ''artist_id'', ''album_id'', ''file_name'', ''title'', ''track'',
               ''length'', ''bitrate'', ''year''],
     field_types = [''integer'', ''integer'', ''integer'', ''string'', ''string'', ''integer'',
                    ''integer'', ''integer'', ''integer'']\<rparr>"

definition album_desc :: description where
  "album_desc = \<lparr>table_name = ''albums'', num_fields = 1, field_names = [''name''],
     field_types = [''string'']\<rparr>"

definition artist_desc :: description where
  "artist_desc = \<lparr>table_name = ''artists'', num_fields = 1, field_names = [''name''],
     field_types = [''string'']\<rparr>"

definition md_desc :: description where
  "md_desc = \<lparr>table_name = ''music_dirs'', num_fields = 2, field_names = [''parent_id'', ''name''],
     field_types = [''int'', ''string'']\<rparr>"

definition pl_song_desc :: description where
  "pl_song_desc = \<lparr>table_name = ''playlist_songs'', num_fields = 3,
     field_names = [''present_order'', ''song_id'', ''playlist_id''],
     field_types = [''int'', ''int'', ''int'']\<rparr>"

definition pl_desc :: description where
  "pl_desc = \<lparr>table_name = ''playlists'', num_fields = 4,
     field_names = [''name'', ''description'', ''order_by'', ''present_order''],
     field_types = [''string'', ''string'', ''string'', ''int'']\<rparr>"

definition user_desc :: description where
  "user_desc = \<lparr>table_name = ''users'', num_fields = 5,
     field_names = [''login'', ''password'', ''ticket'', ''last_visit'', ''role''],
     field_types = [''string'', ''string'', ''string'', ''string'', ''int'']\<rparr>"

definition settings_desc :: description where
  "settings_desc = \<lparr>table_name = ''settings'', num_fields = 2, field_names = [''name'', ''value''],
     field_types = [''string'', ''string'']\<rparr>"

definition all_descs :: "description list" where
  "all_descs = [song_desc, album_desc, artist_desc, md_desc, pl_song_desc, pl_desc, user_desc,
                settings_desc]"

text \<open>\<open>table::description::insert_fields\<close> walks the fields by index up to \<open>num_fields\<close>.\<close>

definition insert_fields :: "description \<Rightarrow> string" where
  "insert_fields d = with_commas commas_init (map (\<lambda>i. field_names d ! i) [0..<num_fields d])"

definition desc_ok :: "description \<Rightarrow> bool" where
  "desc_ok d = (num_fields d = length (field_names d) \<and> num_fields d = length (field_types d) \<and>
                0 < num_fields d \<and> num_fields d < 2 ^ 32 \<and> distinct (field_names d))"

lemma all_descs_ok: "d \<in> set all_descs \<Longrightarrow> desc_ok d"
  by (auto simp: all_descs_def desc_ok_def song_desc_def album_desc_def artist_desc_def md_desc_def
      pl_song_desc_def pl_desc_def user_desc_def settings_desc_def)

lemma insert_fields_eq: "desc_ok d \<Longrightarrow> insert_fields d = CHR '' '' # sep_by '','' (field_names d)"
proof -
  assume d: "desc_ok d"
  then have "field_names d \<noteq> []" "length (field_names d) < 2 ^ 32" "num_fields d = length (field_names d)"
    by (auto simp: desc_ok_def)
  then show ?thesis by (simp add: insert_fields_def map_nth with_commas_init del: upt_Suc)
qed

text \<open>
  The statement \<open>check_and_create_tables\<close> runs for a table that is not there yet.
\<close>

definition create_table_sql :: "description \<Rightarrow> string" where
  "create_table_sql d =
     ''create table '' @ table_name d @ ''('' @
     concat (map (\<lambda>i. (if i > 0 then '', '' else []) @ field_names d ! i @ '' '' @ field_types d ! i)
               [0..<num_fields d]) @
     '')''"

definition table_exists_sql :: "description \<Rightarrow> string" where
  "table_exists_sql d =
     ''SELECT 1 FROM sqlite_master WHERE type='' @ [CHR 0x27] @ ''table'' @ [CHR 0x27] @ '' and name='' @
     [CHR 0x27] @ table_name d @ [CHR 0x27]"

lemma create_table_columns:
  assumes "desc_ok d"
  shows "create_table_sql d =
    ''create table '' @ table_name d @ ''('' @
    sep_by '', '' (map (\<lambda>(f, t). f @ '' '' @ t) (zip (field_names d) (field_types d))) @ '')''"
proof -
  let ?item = "\<lambda>i. field_names d ! i @ '' '' @ field_types d ! i"
  have len: "length (field_names d) = num_fields d" "length (field_types d) = num_fields d" "0 < num_fields d"
    using assms by (auto simp: desc_ok_def)
  have items: "map (\<lambda>(f, t). f @ '' '' @ t) (zip (field_names d) (field_types d)) = map ?item [0..<num_fields d]"
    by (rule nth_equalityI) (simp_all add: len)
  obtain n where n: "num_fields d = Suc n" using len(3) by (cases "num_fields d") auto
  have "concat (map (\<lambda>i. (if i > 0 then '', '' else []) @ ?item i) [0..<num_fields d]) =
      ?item 0 @ concat (map (\<lambda>i. '', '' @ ?item i) [1..<Suc n])"
    unfolding n upt_conv_Cons [OF zero_less_Suc]
    by (auto intro!: arg_cong [where f = concat] map_cong)
  moreover have "sep_by '', '' (map ?item [0..<num_fields d]) =
      ?item 0 @ concat (map (\<lambda>i. '', '' @ ?item i) [1..<Suc n])"
    unfolding n upt_conv_Cons [OF zero_less_Suc] by (simp add: sep_by_Cons comp_def)
  ultimately show ?thesis
    by (simp only: create_table_sql_def items)
qed

section \<open>Values, assignments and the statements built from them\<close>

text \<open>
  The objects of the program, as far as their own row goes. \<open>db_id\<close> is 0 for an object that
  was never saved.
\<close>

record table_obj = db_id :: int

record song_obj = table_obj +
  dir_id :: int
  artist_id :: int
  album_id :: int
  file_name :: string
  title :: string
  track :: int
  song_length :: int
  bitrate :: int
  year :: int

record named_obj = table_obj +
  obj_name :: string

record music_dir_obj = table_obj +
  parent_id :: int
  dir_name :: string

record playlist_obj = table_obj +
  pl_name :: string
  pl_description :: string
  order_by :: string
  pl_present_order :: int

record user_obj = table_obj +
  login :: string
  password :: string
  ticket :: string
  last_visit :: int
  role :: int

definition needs_saved :: "'a table_obj_scheme \<Rightarrow> bool" where
  "needs_saved t = (db_id t = 0)"

definition song_insert_values :: "song_obj \<Rightarrow> string" where
  "song_insert_values s =
     show_int (dir_id s) @ '','' @ show_int (artist_id s) @ '','' @ show_int (album_id s) @ '','' @
     q (file_name s) True @ '','' @ q (title s) True @ '','' @ show_int (track s) @ '','' @
     show_int (song_length s) @ '','' @ show_int (bitrate s) @ '','' @ show_int (year s)"

definition song_update_values :: "song_obj \<Rightarrow> string" where
  "song_update_values s =
     ''dir_id='' @ show_int (dir_id s) @
     ''artist_id='' @ show_int (artist_id s) @
     ''album_id='' @ show_int (album_id s) @
     '',file_name='' @ q (file_name s) True @
     '',title='' @ q (title s) True @
     '',track='' @ show_int (track s) @
     '',length'' @ show_int (song_length s) @
     '',bitrate='' @ show_int (bitrate s) @
     '',year='' @ show_int (year s)"

definition album_insert_values :: "named_obj \<Rightarrow> string" where
  "album_insert_values a = q (obj_name a) True"

definition album_update_values :: "named_obj \<Rightarrow> string" where
  "album_update_values a = ''name='' @ q (obj_name a) True"

definition artist_insert_values :: "named_obj \<Rightarrow> string" where
  "artist_insert_values a = q (obj_name a) True"

definition artist_update_values :: "named_obj \<Rightarrow> string" where
  "artist_update_values a = ''name='' @ q (obj_name a) True"

definition music_dir_insert_values :: "music_dir_obj \<Rightarrow> string" where
  "music_dir_insert_values m = show_int (parent_id m) @ '','' @ q (dir_name m) True"

definition music_dir_update_values :: "music_dir_obj \<Rightarrow> string" where
  "music_dir_update_values m =
     ''parent_id='' @ show_int (parent_id m) @ '',name='' @ q (dir_name m) True"

definition playlist_insert_values :: "playlist_obj \<Rightarrow> string" where
  "playlist_insert_values p =
     q (pl_name p) True @ '','' @ q (pl_description p) True @ '','' @ q (order_by p) True @ '','' @
     show_int (pl_present_order p)"

definition playlist_update_values :: "playlist_obj \<Rightarrow> string" where
  "playlist_update_values p =
     ''name='' @ q (pl_name p) True @ '',description='' @ q (pl_description p) True @
     '',order_by='' @ q (order_by p) True @ '',present_order='' @ show_int (pl_present_order p)"

text \<open>
  The ISO text of a time point is the function \<open>iso_text\<close> (Boost's \<open>to_iso_string\<close>).
\<close>

definition user_insert_values :: "(int \<Rightarrow> string) \<Rightarrow> user_obj \<Rightarrow> string" where
  "user_insert_values iso_text u =
     q (login u) True @ '','' @ q (password u) True @ '','' @ q (ticket u) True @ '','' @
     q (iso_text (last_visit u)) True @ '','' @ show_int (role u)"

definition user_update_values :: "(int \<Rightarrow> string) \<Rightarrow> user_obj \<Rightarrow> string" where
  "user_update_values iso_text u =
     ''login='' @ q (login u) True @ '',password='' @ q (password u) True @
     '',ticket='' @ q (ticket u) True @ '',last_visit='' @ q (iso_text (last_visit u)) True @
     '',role='' @ show_int (role u)"

definition save_sql :: "description \<Rightarrow> string \<Rightarrow> string \<Rightarrow> int \<Rightarrow> string" where
  "save_sql d ins upd i =
     (if i = 0 then
        ''insert into '' @ table_name d @ ''('' @ insert_fields d @ '') values ('' @ ins @ '')''
      else
        ''update '' @ table_name d @ '' set '' @ upd @ '' where rowid='' @ show_int i)"

text \<open>A value in a \<open>where\<close>: the overloads of \<open>q\<close> quote strings and leave integers alone.\<close>

datatype sql_value = SqlText string | SqlInt int

fun q_value :: "sql_value \<Rightarrow> string" where
  "q_value (SqlText s) = q s True"
| "q_value (SqlInt i) = show_int i"

definition select_from :: "description \<Rightarrow> string" where
  "select_from d = ''select '' @ insert_fields d @ '',rowid from '' @ table_name d"

definition order_clause :: "string \<Rightarrow> string" where
  "order_clause sort_by = (if sort_by \<noteq> [] then '' order by '' @ sort_by else [])"

definition load_many_sql :: "description \<Rightarrow> string \<Rightarrow> sql_value \<Rightarrow> string \<Rightarrow> int \<Rightarrow> string" where
  "load_many_sql d fld v sort_by limit =
     select_from d @
     (if fld \<noteq> [] then '' where '' @ fld @ ''='' @ q_value v else []) @
     order_clause sort_by @
     (if limit \<noteq> 0 then '' limit '' @ show_int limit else [])"

definition load_where_sql :: "description \<Rightarrow> string \<Rightarrow> string \<Rightarrow> string" where
  "load_where_sql d cond sort_by = select_from d @ '' where '' @ cond @ order_clause sort_by"

definition load_all_sql :: "description \<Rightarrow> string \<Rightarrow> string" where
  "load_all_sql d sort_by = select_from d @ order_clause sort_by"

definition count_sql :: "description \<Rightarrow> string" where
  "count_sql d = ''select count(*) from '' @ table_name d"

definition destroy_sql :: "description \<Rightarrow> int \<Rightarrow> string" where
  "destroy_sql d i = ''delete from '' @ table_name d @ '' where rowid='' @ show_int i"

section \<open>Reading the composed text back\<close>

text \<open>
  A list of assignments \<open>field=value\<close> as SQL reads it: a name, an equals sign and a literal
  (a quoted text or an integer), separated by commas. \<open>None\<close> is a syntax error. The
  number of fields bounds the recursion.
\<close>

definition is_name_char :: "char \<Rightarrow> bool" where
  "is_name_char c =
     (let n = (of_char c :: nat) in (97 \<le> n \<and> n \<le> 122) \<or> n = 95 \<or> (48 \<le> n \<and> n \<le> 57))"

definition sql_value_text :: "string \<Rightarrow> (sql_value \<times> string) option" where
  "sql_value_text s =
     (case s of
        [] \<Rightarrow> None
      | c # t \<Rightarrow>
          if c = CHR 0x27 then map_option (\<lambda>(v, r). (SqlText v, r)) (sql_literal s)
          else
            (let neg = (c = CHR ''-''); u = (if neg then t else s);
                 ds = takeWhile is_dec u; r = dropWhile is_dec u
             in if ds = [] then None
                else Some (SqlInt (if neg then - int (dec_value ds) else int (dec_value ds)), r)))"

fun sql_assignments :: "nat \<Rightarrow> string \<Rightarrow> (string \<times> sql_value) list option" where
  "sql_assignments 0 s = None"
| "sql_assignments (Suc n) s =
     (let name = takeWhile is_name_char s in
      case dropWhile is_name_char s of
        e # s1 \<Rightarrow>
          if e \<noteq> CHR ''='' \<or> name = [] then None
          else (case sql_value_text s1 of
                  None \<Rightarrow> None
                | Some (v, []) \<Rightarrow> Some [(name, v)]
                | Some (v, c # s2) \<Rightarrow>
                    if c = CHR '','' then map_option (\<lambda>as. (name, v) # as) (sql_assignments n s2)
                    else None)
      | [] \<Rightarrow> None)"

lemma sql_value_quoted:
  "rest = [] \<or> hd rest \<noteq> CHR 0x27 \<Longrightarrow> sql_value_text (q v True @ rest) = Some (SqlText v, rest)"
  by (simp add: sql_value_text_def q_def sql_literal_tail_quoted)

lemma takeWhile_dec:
  assumes "list_all is_dec ds" "rest = [] \<or> \<not> is_dec (hd rest)"
  shows "takeWhile is_dec (ds @ rest) = ds" "dropWhile is_dec (ds @ rest) = rest"
  using assms by (induction ds; cases rest; simp)+

lemma sql_value_int:
  assumes "rest = [] \<or> \<not> is_dec (hd rest)"
  shows "sql_value_text (show_int i @ rest) = Some (SqlInt i, rest)"
proof -
  have shape: "\<exists>c t. show_nat n = c # t \<and> is_dec c" for n
    using show_nat_digits [of n] show_nat_nonempty [of n] by (cases "show_nat n") auto
  have tw: "takeWhile is_dec (show_nat n @ rest) = show_nat n"
    "dropWhile is_dec (show_nat n @ rest) = rest" for n
    using takeWhile_dec [OF show_nat_digits assms] by auto
  show ?thesis
  proof (cases "i < 0")
    case True
    then show ?thesis by (simp add: sql_value_text_def show_int_def Let_def tw)
  next
    case False
    obtain c t where ct: "show_nat (nat i) = c # t" "is_dec c" using shape by blast
    have "c \<noteq> CHR 0x27" "c \<noteq> CHR ''-''" using ct(2) by (auto simp: is_dec_def)
    moreover have "takeWhile is_dec (c # t @ rest) = c # t" "dropWhile is_dec (c # t @ rest) = rest"
      using tw [of "nat i"] ct(1) by simp_all
    moreover have "dec_value (c # t) = nat i" using dec_value_show_nat [of "nat i"] ct(1) by simp
    ultimately show ?thesis
      using False ct by (simp add: sql_value_text_def show_int_def Let_def)
  qed
qed

definition field_name :: "string \<Rightarrow> bool" where
  "field_name f = (f \<noteq> [] \<and> list_all is_name_char f)"

lemma name_split:
  assumes "field_name f"
  shows "takeWhile is_name_char (f @ CHR ''='' # s) = f"
    "dropWhile is_name_char (f @ CHR ''='' # s) = CHR ''='' # s"
proof -
  have "\<not> is_name_char (CHR ''='')" by (simp add: is_name_char_def)
  moreover have "\<forall>c \<in> set f. is_name_char c"
    using assms by (simp add: field_name_def list_all_iff)
  ultimately show "takeWhile is_name_char (f @ CHR ''='' # s) = f"
    "dropWhile is_name_char (f @ CHR ''='' # s) = CHR ''='' # s"
    by (simp_all add: takeWhile_append2 dropWhile_append2)
qed

lemma sql_assignments_last:
  "field_name f \<Longrightarrow> sql_value_text s = Some (v, []) \<Longrightarrow>
   sql_assignments (Suc n) (f @ CHR ''='' # s) = Some [(f, v)]"
  using name_split [of f s] by (simp add: field_name_def)

lemma sql_assignments_more:
  "field_name f \<Longrightarrow> sql_value_text s = Some (v, CHR '','' # t) \<Longrightarrow>
   sql_assignments (Suc n) (f @ CHR ''='' # s) =
   map_option (\<lambda>as. (f, v) # as) (sql_assignments n t)"
  using name_split [of f s] by (simp add: field_name_def)

lemma sql_assignments_junk:
  "field_name f \<Longrightarrow> sql_value_text s = Some (v, c # t) \<Longrightarrow> c \<noteq> CHR '','' \<Longrightarrow>
   sql_assignments n (f @ CHR ''='' # s) = None"
  using name_split [of f s] by (cases n) (simp_all add: field_name_def)

text \<open>The text of a list of assignments, and its reading.\<close>

fun assignment_text :: "(string \<times> sql_value) list \<Rightarrow> string" where
  "assignment_text [] = []"
| "assignment_text [(f, v)] = f @ CHR ''='' # q_value v"
| "assignment_text ((f, v) # as) = f @ CHR ''='' # q_value v @ CHR '','' # assignment_text as"

lemma sql_value_text_q_value:
  "rest = [] \<or> hd rest = CHR '','' \<Longrightarrow> sql_value_text (q_value v @ rest) = Some (v, rest)"
  using sql_value_quoted [of rest] sql_value_int [of rest]
  by (cases v) (auto simp: is_dec_def)

lemma sql_assignments_text:
  "as \<noteq> [] \<Longrightarrow> (\<forall>(f, v) \<in> set as. field_name f) \<Longrightarrow> length as \<le> n \<Longrightarrow>
   sql_assignments n (assignment_text as) = Some as"
proof (induction as arbitrary: n rule: assignment_text.induct)
  case (2 f v)
  then obtain k where "n = Suc k" by (cases n) auto
  with 2 show ?case
    using sql_value_text_q_value [of "[]" v] by (simp add: sql_assignments_last del: sql_assignments.simps)
next
  case (3 f v a as)
  then obtain k where n: "n = Suc k" by (cases n) auto
  have "sql_assignments k (assignment_text (a # as)) = Some (a # as)"
    by (rule "3.IH") (use "3.prems" n in auto)
  moreover have "sql_value_text (q_value v @ CHR '','' # assignment_text (a # as)) =
      Some (v, CHR '','' # assignment_text (a # as))"
    by (rule sql_value_text_q_value) simp
  ultimately show ?case
    using "3.prems" n by (simp add: sql_assignments_more del: sql_assignments.simps)
qed simp

section \<open>Properties\<close>



lemma user_update_text:
  "user_update_values t u = assignment_text
     [(''login'', SqlText (login u)), (''password'', SqlText (password u)),
      (''ticket'', SqlText (ticket u)), (''last_visit'', SqlText (t (last_visit u))),
      (''role'', SqlInt (role u))]"
  by (simp add: user_update_values_def)

lemma playlist_update_text:
  "playlist_update_values p = assignment_text
     [(''name'', SqlText (pl_name p)), (''description'', SqlText (pl_description p)),
      (''order_by'', SqlText (order_by p)), (''present_order'', SqlInt (pl_present_order p))]"
  by (simp add: playlist_update_values_def)

lemma music_dir_update_text:
  "music_dir_update_values m = assignment_text
     [(''parent_id'', SqlInt (parent_id m)), (''name'', SqlText (dir_name m))]"
  by (simp add: music_dir_update_values_def)

lemma named_update_text:
  "album_update_values a = assignment_text [(''name'', SqlText (obj_name a))]"
  "artist_update_values a = assignment_text [(''name'', SqlText (obj_name a))]"
  by (simp_all add: album_update_values_def artist_update_values_def)

lemma field_names_ok: "d \<in> set all_descs \<Longrightarrow> f \<in> set (field_names d) \<Longrightarrow> field_name f"
  by (auto simp: all_descs_def field_name_def is_name_char_def song_desc_def album_desc_def
      artist_desc_def md_desc_def pl_song_desc_def pl_desc_def user_desc_def settings_desc_def)

lemma assignments_of_desc:
  assumes "d \<in> set all_descs" "map fst as = field_names d"
  shows "sql_assignments (num_fields d) (assignment_text as) = Some as"
proof (rule sql_assignments_text)
  have d: "desc_ok d" using assms(1) by (rule all_descs_ok)
  have len: "length as = length (field_names d)" using assms(2) by (metis length_map)
  show "as \<noteq> []" using len d by (auto simp: desc_ok_def)
  show "length as \<le> num_fields d" using len d by (simp add: desc_ok_def)
  have "fst x \<in> set (field_names d)" if "x \<in> set as" for x
    using that assms(2) by (metis image_eqI list.set_map)
  then show "\<forall>(f, v) \<in> set as. field_name f"
    using field_names_ok [OF assms(1)] by fastforce
qed

text \<open>
  The assignments an update writes for a user, a playlist, a music directory, an album
  and an artist read back, for every content of the strings, as one assignment per column of
  the table's description, in its order, with the object's values.
\<close>

theorem update_values_roundtrip:
  "sql_assignments (num_fields user_desc) (user_update_values t u) =
     Some [(''login'', SqlText (login u)), (''password'', SqlText (password u)),
           (''ticket'', SqlText (ticket u)), (''last_visit'', SqlText (t (last_visit u))),
           (''role'', SqlInt (role u))] \<and>
   sql_assignments (num_fields pl_desc) (playlist_update_values p) =
     Some [(''name'', SqlText (pl_name p)), (''description'', SqlText (pl_description p)),
           (''order_by'', SqlText (order_by p)), (''present_order'', SqlInt (pl_present_order p))] \<and>
   sql_assignments (num_fields md_desc) (music_dir_update_values m) =
     Some [(''parent_id'', SqlInt (parent_id m)), (''name'', SqlText (dir_name m))] \<and>
   sql_assignments (num_fields album_desc) (album_update_values a) =
     Some [(''name'', SqlText (obj_name a))] \<and>
   sql_assignments (num_fields artist_desc) (artist_update_values a) =
     Some [(''name'', SqlText (obj_name a))]"
  unfolding user_update_text playlist_update_text music_dir_update_text named_update_text
  by (intro conjI assignments_of_desc)
     (simp_all add: all_descs_def user_desc_def pl_desc_def md_desc_def album_desc_def artist_desc_def)

text \<open>
  The assignments \<open>Song::table_update_values\<close> writes are never valid: whatever the song,
  there is no comma between the directory and the artist, so SQL rejects the update.
\<close>

theorem song_update_is_rejected:
  "sql_assignments n (song_update_values s) = None"
proof -
  let ?tail = "''rtist_id='' @ show_int (artist_id s) @ ''album_id='' @ show_int (album_id s) @
     '',file_name='' @ q (file_name s) True @ '',title='' @ q (title s) True @
     '',track='' @ show_int (track s) @ '',length'' @ show_int (song_length s) @
     '',bitrate='' @ show_int (bitrate s) @ '',year='' @ show_int (year s)"
  have shape: "song_update_values s = ''dir_id'' @ CHR ''='' # show_int (dir_id s) @ CHR ''a'' # ?tail"
    by (simp add: song_update_values_def)
  have "field_name ''dir_id''"
    by (rule field_names_ok [of song_desc]) (simp_all add: all_descs_def song_desc_def)
  moreover have "sql_value_text (show_int (dir_id s) @ CHR ''a'' # ?tail) =
      Some (SqlInt (dir_id s), CHR ''a'' # ?tail)"
    by (rule sql_value_int) (simp add: is_dec_def)
  ultimately show ?thesis
    unfolding shape by (rule sql_assignments_junk) simp
qed

text \<open>
  For every table of the program the created table has one column per described field,
  with its type, in order; the field list of a \<open>select\<close> or an \<open>insert\<close> is the same list.
\<close>

theorem created_columns_match_field_list:
  "list_all (\<lambda>d.
     create_table_sql d = ''create table '' @ table_name d @ ''('' @
       sep_by '', '' (map (\<lambda>(f, t). f @ '' '' @ t) (zip (field_names d) (field_types d))) @ '')'' \<and>
     insert_fields d = '' '' @ sep_by '','' (field_names d) \<and>
     length (field_names d) = length (field_types d)) all_descs"
proof -
  have "desc_ok d" if "d \<in> set all_descs" for d using that by (rule all_descs_ok)
  moreover have "length (field_names d) = length (field_types d)" if "desc_ok d" for d
    using that by (simp add: desc_ok_def)
  ultimately show ?thesis
    by (auto simp: list_all_iff create_table_columns insert_fields_eq)
qed

end
