(* ===== verification/Store.thy ===== *)
theory Store
  imports Sql_Text
begin

text \<open>
  The SQL connection (\<open>libs/sqlite/connection.cpp\<close>, \<open>libs/sqlite/command.cpp\<close>): the command
  buffer that statements are streamed into, how a statement is compiled from it, and the retry
  policy for a busy database. The rows themselves are in \<open>Tables\<close> and \<open>World\<close>.
\<close>

section \<open>The connection and its command buffer\<close>

record sqlite_connection =
  db_open :: bool
  cmd :: string

text \<open>
  \<open>prepares\<close> tells which texts the engine compiles. \<open>command(connection*)\<close> compiles the
  buffer and clears it on both paths; \<open>command(connection*, string)\<close> never touches it.
\<close>

definition stream_cmd :: "string \<Rightarrow> sqlite_connection \<Rightarrow> sqlite_connection" where
  "stream_cmd s c = c\<lparr>cmd := cmd c @ s\<rparr>"

definition clear_cmd :: "sqlite_connection \<Rightarrow> sqlite_connection" where
  "clear_cmd c = c\<lparr>cmd := []\<rparr>"

definition validate_db :: "(sqlite_connection, unit) eff" where
  "validate_db c = (if db_open c then (Inr (), c) else (Inl (Database_error ''database is not open''), c))"

definition command_from_buffer :: "(string \<Rightarrow> bool) \<Rightarrow> (sqlite_connection, string) eff" where
  "command_from_buffer prepares c =
     (if prepares (cmd c) then (Inr (cmd c), clear_cmd c)
      else (Inl (Database_error (cmd c)), clear_cmd c))"

definition command_from_text :: "(string \<Rightarrow> bool) \<Rightarrow> string \<Rightarrow> (sqlite_connection, string) eff" where
  "command_from_text prepares s c = (if prepares s then (Inr s, c) else (Inl (Database_error s), c))"

definition exec_buffer :: "(string \<Rightarrow> bool) \<Rightarrow> (sqlite_connection, string) eff" where
  "exec_buffer prepares = bindE validate_db (\<lambda>_. command_from_buffer prepares)"

definition exec_text :: "(string \<Rightarrow> bool) \<Rightarrow> string \<Rightarrow> (sqlite_connection, string) eff" where
  "exec_text prepares s = bindE validate_db (\<lambda>_. command_from_text prepares s)"

definition load_stored_cmd :: "(string \<Rightarrow> bool) \<Rightarrow> (sqlite_connection, string) eff" where
  "load_stored_cmd prepares =
     bindE (\<lambda>c. command_from_text prepares (cmd c) c)
       (\<lambda>s. bindE (modS clear_cmd) (\<lambda>_. ret s))"

text \<open>
  A streamed statement run by \<open>exec\<close> leaves the command buffer empty whether it compiles
  or not, so the next statement starts from nothing; a statement run by \<open>load_stored\<close> that
  does not compile stays in the buffer, and the next one is compiled glued to it.
\<close>

theorem command_buffer_after_statement:
  "db_open c \<Longrightarrow> cmd (snd (exec_buffer prepares (stream_cmd s c))) = [] \<and>
   (prepares (cmd c @ s) \<longrightarrow> cmd (snd (load_stored_cmd prepares (stream_cmd s c))) = []) \<and>
   (\<not> prepares (cmd c @ s) \<longrightarrow>
     fst (exec_buffer prepares (stream_cmd t (snd (load_stored_cmd prepares (stream_cmd s c))))) =
       (if prepares (cmd c @ s @ t) then Inr (cmd c @ s @ t) else Inl (Database_error (cmd c @ s @ t))))"
  by (simp add: exec_buffer_def validate_db_def command_from_buffer_def clear_cmd_def stream_cmd_def
      load_stored_cmd_def command_from_text_def bindE_def)

theorem command_buffer_after_statement_witness:
  "cmd (snd (exec_buffer (\<lambda>s. s = ''ok'') (stream_cmd ''no'' \<lparr>db_open = True, cmd = []\<rparr>))) = []"
  using command_buffer_after_statement [of "\<lparr>db_open = True, cmd = []\<rparr>" "\<lambda>s. s = ''ok''" "''no''"] by simp

section \<open>Waiting for a locked database\<close>

text \<open>
  SQLite calls the busy handler with the number of earlier calls; the answer is whether to
  try again, and the handler has slept that many seconds before.
\<close>

definition busy_handler :: "nat \<Rightarrow> bool \<times> nat" where
  "busy_handler num_waiting = (if num_waiting > 3 then (False, 0) else (True, num_waiting))"

text \<open>
  The engine's loop around it: \<open>locked k\<close> says whether attempt \<open>k\<close> finds the lock taken. The
  result is whether the lock was obtained, the attempts made and the seconds slept.
\<close>

function busy_loop :: "(nat \<Rightarrow> bool) \<Rightarrow> nat \<Rightarrow> nat \<Rightarrow> bool \<times> nat \<times> nat" where
  "busy_loop locked n slept =
     (if \<not> locked n then (True, n, slept)
      else if fst (busy_handler n) then busy_loop locked (Suc n) (slept + snd (busy_handler n))
      else (False, n, slept))"
  by pat_completeness auto
termination
  by (relation "measure (\<lambda>(locked, n, slept). 4 - n)") (auto simp: busy_handler_def split: if_splits)

declare busy_loop.simps [simp del]

lemma busy_loop_general:
  "n \<le> 4 \<Longrightarrow> (\<exists>k. n \<le> k \<and> k \<le> 4 \<and> (\<forall>i. n \<le> i \<and> i < k \<longrightarrow> locked i) \<and>
     (locked k \<longrightarrow> k = 4) \<and> busy_loop locked n s = (\<not> locked k, k, s + (\<Sum>i = n..<k. i)))"
proof (induction locked n s rule: busy_loop.induct)
  case (1 locked n slept)
  show ?case
  proof (cases "locked n \<and> n < 4")
    case False
    then show ?thesis
      using "1.prems" by (intro exI [of _ n]) (auto simp: busy_loop.simps [of locked n] busy_handler_def)
  next
    case True
    then have h: "busy_handler n = (True, n)" by (simp add: busy_handler_def)
    obtain k where k: "Suc n \<le> k" "k \<le> 4" "\<forall>i. Suc n \<le> i \<and> i < k \<longrightarrow> locked i" "locked k \<longrightarrow> k = 4"
      "busy_loop locked (Suc n) (slept + n) = (\<not> locked k, k, slept + n + (\<Sum>i = Suc n..<k. i))"
      using "1.IH" True h by auto
    have "busy_loop locked n slept = (\<not> locked k, k, slept + (\<Sum>i = n..<k. i))"
      using k(1,5) True h by (simp add: busy_loop.simps [of locked n] sum.atLeast_Suc_lessThan)
    moreover have "\<forall>i. n \<le> i \<and> i < k \<longrightarrow> locked i"
      using k(3) True by (metis Suc_leI le_neq_implies_less)
    ultimately show ?thesis using k by (intro exI [of _ k]) auto
  qed
qed

text \<open>
  A thread waits for a locked database at most six seconds. The loop stops at the first
  attempt that finds the lock free, and gives up after the fifth that does not.
\<close>

theorem busy_wait_bounded:
  "\<exists>k. k \<le> 4 \<and> busy_loop locked 0 0 = (\<not> locked k, k, \<Sum>{..<k}) \<and> \<Sum>{..<k} \<le> 6 \<and>
       (\<forall>i<k. locked i) \<and> (locked k \<longrightarrow> k = 4)"
proof -
  obtain k where k: "k \<le> 4" "\<forall>i. 0 \<le> i \<and> i < k \<longrightarrow> locked i" "locked k \<longrightarrow> k = 4"
    "busy_loop locked 0 0 = (\<not> locked k, k, 0 + (\<Sum>i = 0..<k. i))"
    using busy_loop_general [of 0 locked 0] by auto
  have "\<Sum>{..<k} \<le> \<Sum>{..<4}" using k(1) by (intro sum_mono2) auto
  also have "\<Sum>{..<4} = (6::nat)" by code_simp
  finally show ?thesis using k by (auto simp: atLeast0LessThan)
qed

theorem busy_wait_bounded_witness:
  "\<exists>k. k \<le> 4 \<and> fst (snd (busy_loop (\<lambda>_. True) 0 0)) = k"
  using busy_wait_bounded [of "\<lambda>_. True"] by auto

end
