(* ===== verification/Tables.thy ===== *)
theory Tables
  imports Store
begin

text \<open>
  Tables of stored objects (\<open>libs/sqlite/sqlite.hpp\<close>, \<open>libs/sqlite/table_obj.cpp\<close>). A table is the
  list of its objects in rowid order; the rowid is the object's \<open>db_id\<close>. SQLite is outside the
  program: its rows, rowid choice (one more than the largest) and results in rowid order are its
  documented behaviour. \<open>save\<close>, \<open>destroy\<close> and \<open>load_one\<close> work on such a table.
\<close>

section \<open>Rows\<close>

type_synonym 'a rows = "'a table_obj_scheme list"

definition next_rowid :: "'a rows \<Rightarrow> int" where
  "next_rowid t = fold max (map db_id t) 0 + 1"

definition row_insert :: "'a table_obj_scheme \<Rightarrow> 'a rows \<Rightarrow> 'a rows" where
  "row_insert r t = t @ [r\<lparr>db_id := next_rowid t\<rparr>]"

definition row_update :: "('a table_obj_scheme \<Rightarrow> bool) \<Rightarrow>
    ('a table_obj_scheme \<Rightarrow> 'a table_obj_scheme) \<Rightarrow> 'a rows \<Rightarrow> 'a rows" where
  "row_update P f t = map (\<lambda>r. if P r then f r else r) t"

definition row_delete :: "('a table_obj_scheme \<Rightarrow> bool) \<Rightarrow> 'a rows \<Rightarrow> 'a rows" where
  "row_delete P t = filter (\<lambda>r. \<not> P r) t"

definition row_find :: "('a table_obj_scheme \<Rightarrow> bool) \<Rightarrow> 'a rows \<Rightarrow> 'a table_obj_scheme option" where
  "row_find P t = find P t"

definition rows_ok :: "'a rows \<Rightarrow> bool" where
  "rows_ok t = (sorted_wrt (<) (map db_id t) \<and> (\<forall>r \<in> set t. 0 < db_id r))"

lemma fold_max_ge: "x \<le> fold max xs x \<and> (\<forall>y \<in> set xs. y \<le> fold max xs (x::int))"
proof (induction xs arbitrary: x)
  case (Cons a xs)
  have "max a x \<le> fold max xs (max a x)" "\<forall>y \<in> set xs. y \<le> fold max xs (max a x)"
    using Cons [of "max a x"] by auto
  then show ?case by auto
qed simp

lemma next_rowid_gt: "r \<in> set t \<Longrightarrow> db_id r < next_rowid t"
  using fold_max_ge [of 0 "map db_id t"] by (auto simp: next_rowid_def)

lemma next_rowid_pos [simp]: "0 < next_rowid t"
  using fold_max_ge [of 0 "map db_id t"] by (simp add: next_rowid_def)

lemma next_rowid_nonzero [simp]: "next_rowid t \<noteq> 0"
  using next_rowid_pos [of t] by linarith

lemma rows_ok_Nil [simp]: "rows_ok []"
  by (simp add: rows_ok_def)

lemma rows_ok_insert [simp]: "rows_ok t \<Longrightarrow> rows_ok (row_insert r t)"
  by (auto simp: rows_ok_def row_insert_def sorted_wrt_append next_rowid_gt)

lemma rows_ok_update: "rows_ok t \<Longrightarrow> (\<And>r. P r \<Longrightarrow> db_id (f r) = db_id r) \<Longrightarrow> rows_ok (row_update P f t)"
proof -
  assume ok: "rows_ok t" and same: "\<And>r. P r \<Longrightarrow> db_id (f r) = db_id r"
  have ids: "map db_id (row_update P f t) = map db_id t"
    by (simp add: row_update_def same)
  have "0 < db_id r" if "r \<in> set (row_update P f t)" for r
  proof -
    have "db_id r \<in> set (map db_id t)" using that ids by (metis image_eqI list.set_map)
    with ok show ?thesis by (auto simp: rows_ok_def)
  qed
  with ok ids show ?thesis by (simp add: rows_ok_def)
qed

lemma rows_ok_delete [simp]: "rows_ok t \<Longrightarrow> rows_ok (row_delete P t)"
  by (auto simp: rows_ok_def row_delete_def sorted_wrt_map sorted_wrt_filter)

lemma rows_ok_distinct: "rows_ok t \<Longrightarrow> distinct (map db_id t)"
  by (simp add: rows_ok_def strict_sorted_iff)

lemma row_find_id:
  assumes "rows_ok t" "r \<in> set t"
  shows "row_find (\<lambda>x. db_id x = db_id r) t = Some r"
  using rows_ok_distinct [OF assms(1)] assms(2)
  by (induction t) (auto simp: row_find_def)

lemma row_find_SomeD: "row_find P t = Some r \<Longrightarrow> r \<in> set t \<and> P r"
  by (induction t) (auto simp: row_find_def split: if_splits)

lemma row_find_None: "row_find P t = None \<longleftrightarrow> (\<forall>r \<in> set t. \<not> P r)"
  by (auto simp: row_find_def find_None_iff)

lemma set_row_insert [simp]: "set (row_insert r t) = insert (r\<lparr>db_id := next_rowid t\<rparr>) (set t)"
  by (auto simp: row_insert_def)

text \<open>
  The contract of a store of rows: what a look-up by rowid returns after each operation. The
  components below rely on these laws only.
\<close>

locale row_store =
  fixes lookup :: "'t \<Rightarrow> int \<Rightarrow> 'r option"
    and add :: "'r \<Rightarrow> 't \<Rightarrow> 't"
    and fresh :: "'t \<Rightarrow> int"
    and put :: "int \<Rightarrow> 'r \<Rightarrow> 't \<Rightarrow> 't"
    and del :: "int \<Rightarrow> 't \<Rightarrow> 't"
    and with_id :: "int \<Rightarrow> 'r \<Rightarrow> 'r"
    and valid :: "'t \<Rightarrow> bool"
  assumes lookup_fresh: "valid t \<Longrightarrow> lookup t (fresh t) = None"
    and lookup_add: "valid t \<Longrightarrow>
      lookup (add r t) i = (if i = fresh t then Some (with_id (fresh t) r) else lookup t i)"
    and lookup_put: "valid t \<Longrightarrow>
      lookup (put j r t) i = (if i = j \<and> lookup t j \<noteq> None then Some (with_id j r) else lookup t i)"
    and lookup_del: "valid t \<Longrightarrow> lookup (del j t) i = (if i = j then None else lookup t i)"
    and valid_add: "valid t \<Longrightarrow> valid (add r t)"
    and valid_put: "valid t \<Longrightarrow> valid (put j r t)"
    and valid_del: "valid t \<Longrightarrow> valid (del j t)"
begin

lemma add_then_lookup: "valid t \<Longrightarrow> lookup (add r t) (fresh t) = Some (with_id (fresh t) r)"
  by (simp add: lookup_add)

lemma add_keeps: "valid t \<Longrightarrow> lookup t i = Some x \<Longrightarrow> lookup (add r t) i = Some x"
  using lookup_fresh [of t] by (auto simp: lookup_add)

lemma put_then_lookup: "valid t \<Longrightarrow> lookup t j \<noteq> None \<Longrightarrow> lookup (put j r t) j = Some (with_id j r)"
  by (simp add: lookup_put)

lemma put_other: "valid t \<Longrightarrow> i \<noteq> j \<Longrightarrow> lookup (put j r t) i = lookup t i"
  by (simp add: lookup_put)

lemma add_then_del: "valid t \<Longrightarrow> lookup (del (fresh t) (add r t)) i = lookup t i"
  by (simp add: lookup_del lookup_add valid_add lookup_fresh)

end

definition row_lookup :: "'a rows \<Rightarrow> int \<Rightarrow> 'a table_obj_scheme option" where
  "row_lookup t i = row_find (\<lambda>r. db_id r = i) t"

definition row_put :: "int \<Rightarrow> 'a table_obj_scheme \<Rightarrow> 'a rows \<Rightarrow> 'a rows" where
  "row_put i r t = row_update (\<lambda>x. db_id x = i) (\<lambda>_. r\<lparr>db_id := i\<rparr>) t"

definition row_del :: "int \<Rightarrow> 'a rows \<Rightarrow> 'a rows" where
  "row_del i t = row_delete (\<lambda>x. db_id x = i) t"

lemma row_lookup_fresh: "row_lookup t (next_rowid t) = None"
  by (auto simp: row_lookup_def row_find_None dest: next_rowid_gt)

lemma find_snoc:
  "find P (xs @ [x]) = (case find P xs of Some y \<Rightarrow> Some y | None \<Rightarrow> if P x then Some x else None)"
  by (induction xs) auto

lemma row_lookup_insert:
  "row_lookup (row_insert r t) i =
     (if i = next_rowid t then Some (r\<lparr>db_id := next_rowid t\<rparr>) else row_lookup t i)"
  using row_lookup_fresh [of t]
  by (auto simp: row_lookup_def row_find_def row_insert_def find_snoc split: option.split)

lemma row_lookup_put:
  "row_lookup (row_put j r t) i =
     (if i = j \<and> row_lookup t j \<noteq> None then Some (r\<lparr>db_id := j\<rparr>) else row_lookup t i)"
  by (induction t) (auto simp: row_lookup_def row_find_def row_put_def row_update_def)

lemma row_lookup_del: "row_lookup (row_del j t) i = (if i = j then None else row_lookup t i)"
  by (induction t) (auto simp: row_lookup_def row_find_def row_del_def row_delete_def)

lemma rows_ok_put [simp]: "rows_ok t \<Longrightarrow> rows_ok (row_put i r t)"
  unfolding row_put_def by (rule rows_ok_update) simp_all

lemma rows_ok_del [simp]: "rows_ok t \<Longrightarrow> rows_ok (row_del i t)"
  by (simp add: row_del_def)

interpretation rows: row_store row_lookup row_insert next_rowid row_put row_del
    "\<lambda>i r. r\<lparr>db_id := i\<rparr>" rows_ok
  by unfold_locales (simp_all add: row_lookup_fresh row_lookup_insert row_lookup_put row_lookup_del)

lemma row_lookup_in: "rows_ok t \<Longrightarrow> r \<in> set t \<Longrightarrow> row_lookup t (db_id r) = Some r"
  by (simp add: row_lookup_def row_find_id)

lemma row_lookup_SomeD: "row_lookup t i = Some r \<Longrightarrow> r \<in> set t \<and> db_id r = i"
  by (auto simp: row_lookup_def dest: row_find_SomeD)

section \<open>Saving, loading and destroying one object\<close>

text \<open>
  \<open>connection::save\<close>: an insert that gives the object its rowid, or an update of the row
  with the object's rowid. \<open>norm\<close> is what the engine does to the text columns. The result is
  the object (its \<open>_id\<close> is mutable) and the table.
\<close>

definition save_obj :: "('a table_obj_scheme \<Rightarrow> 'a table_obj_scheme) \<Rightarrow> 'a table_obj_scheme \<Rightarrow>
    'a rows \<Rightarrow> 'a table_obj_scheme \<times> 'a rows" where
  "save_obj norm r t =
     (if db_id r = 0 then (r\<lparr>db_id := next_rowid t\<rparr>, row_insert (norm r) t)
      else (r, row_put (db_id r) (norm r) t))"

definition save_if_needed :: "('a table_obj_scheme \<Rightarrow> 'a table_obj_scheme) \<Rightarrow> 'a table_obj_scheme \<Rightarrow>
    'a rows \<Rightarrow> 'a table_obj_scheme \<times> 'a rows" where
  "save_if_needed norm r t = (if needs_saved r then save_obj norm r t else (r, t))"

definition destroy_obj :: "'a table_obj_scheme \<Rightarrow> 'a rows \<Rightarrow> 'a table_obj_scheme \<times> 'a rows" where
  "destroy_obj r t = (if db_id r = 0 then (r, t) else (r\<lparr>db_id := 0\<rparr>, row_del (db_id r) t))"

text \<open>\<open>connection::load_one\<close>: the first row, or \<open>not_found\<close>. The statement is cleared before the message is built.\<close>

definition load_one :: "('a table_obj_scheme \<Rightarrow> bool) \<Rightarrow> 'a rows \<Rightarrow> exn + 'a table_obj_scheme" where
  "load_one P t = (case row_find P t of None \<Rightarrow> Inl (Sqlite_not_found '' failed'') | Some r \<Rightarrow> Inr r)"

definition load_id :: "int \<Rightarrow> 'a rows \<Rightarrow> exn + 'a table_obj_scheme" where
  "load_id i t = load_one (\<lambda>r. db_id r = i) t"

definition same_row :: "'a table_obj_scheme \<Rightarrow> 'a table_obj_scheme \<Rightarrow> bool" where
  "same_row a b = (db_id a = db_id b)"

lemma load_id_lookup:
  "load_id i t = (case row_lookup t i of None \<Rightarrow> Inl (Sqlite_not_found '' failed'') | Some r \<Rightarrow> Inr r)"
  by (simp add: load_id_def load_one_def row_lookup_def)



end
