(* ===== verification/World.thy ===== *)
theory World
  imports Tables "HOL-Library.Multiset"
begin

text \<open>
  The state the program shares: the rows of its tables and its environment, and how one SQL
  statement runs on it. Settings (\<open>libs/spinny/settings.hpp\<close>) are here as well.

  \<open>stale_cmd\<close> says that a statement that did not compile was left in the command buffer of
  the connection (see \<open>Store\<close>): the next streamed statement is compiled glued to it and
  fails too. A statement run by \<open>exec\<close> clears the buffer when it fails, one run by
  \<open>load_stored\<close> does not.

  \<open>order_songs\<close>, \<open>order_entries\<close> and \<open>order_all\<close> are the engine's answers to an \<open>order by\<close> text on
  the entries of a playlist joined with their songs, on the entries alone and on the songs:
  nothing when the text does not compile there.

  \<open>complete_order\<close> and \<open>complete_obj\<close> are the only \<open>CompletePlayList\<close> object: its own
  member and the \<open>PlayList\<close> it is.
\<close>

record pl_song_obj = table_obj +
  present_order :: int
  song_id :: int
  playlist_id :: int

record setting_obj = table_obj +
  set_name :: string
  set_value :: string

record world =
  songs :: "song_obj list"
  albums :: "named_obj list"
  artists :: "named_obj list"
  music_dirs :: "music_dir_obj list"
  playlists :: "playlist_obj list"
  playlist_songs :: "pl_song_obj list"
  users :: "user_obj list"
  settings :: "setting_obj list"
  catalog :: "string list"
  stale_cmd :: bool
  store_text :: "string \<Rightarrow> string"
  text_le :: "string \<Rightarrow> string \<Rightarrow> bool"
  clock :: int
  dice :: "nat \<Rightarrow> int"
  files :: "string \<Rightarrow> string option"
  order_songs :: "string \<Rightarrow> (pl_song_obj \<times> song_obj) list \<Rightarrow> (pl_song_obj \<times> song_obj) list option"
  order_entries :: "string \<Rightarrow> pl_song_obj list \<Rightarrow> pl_song_obj list option"
  order_all :: "string \<Rightarrow> song_obj list \<Rightarrow> song_obj list option"
  complete_order :: string
  complete_obj :: playlist_obj

section \<open>Running one statement\<close>

definition sql_exec :: "(world, 'a) eff \<Rightarrow> (world, 'a) eff" where
  "sql_exec m w =
     (if stale_cmd w then (Inl (Database_error ''prepare''), w\<lparr>stale_cmd := False\<rparr>) else m w)"

definition sql_load :: "(world, 'a) eff \<Rightarrow> (world, 'a) eff" where
  "sql_load m w = (if stale_cmd w then (Inl (Database_error ''prepare''), w) else m w)"

text \<open>A statement \<open>load_stored\<close> cannot compile stays in the buffer.\<close>

definition sql_load_fails :: "(world, 'a) eff" where
  "sql_load_fails w = (Inl (Database_error ''prepare''), w\<lparr>stale_cmd := True\<rparr>)"

lemma sql_exec_ready [simp, eff_simps]: "\<not> stale_cmd w \<Longrightarrow> sql_exec m w = m w"
  by (simp add: sql_exec_def)

lemma sql_load_ready [simp, eff_simps]: "\<not> stale_cmd w \<Longrightarrow> sql_load m w = m w"
  by (simp add: sql_load_def)

definition load_row :: "(world \<Rightarrow> 'a rows) \<Rightarrow> (world \<Rightarrow> 'a table_obj_scheme \<Rightarrow> bool) \<Rightarrow>
    (world, 'a table_obj_scheme) eff" where
  "load_row tab P = sql_load (\<lambda>w. (load_one (P w) (tab w), w))"

definition load_rows :: "(world \<Rightarrow> 'a rows) \<Rightarrow> (world \<Rightarrow> 'a table_obj_scheme \<Rightarrow> bool) \<Rightarrow>
    (world, 'a table_obj_scheme list) eff" where
  "load_rows tab P = sql_load (\<lambda>w. (Inr (filter (P w) (tab w)), w))"

definition save_row :: "(world \<Rightarrow> 'a rows) \<Rightarrow> ('a rows \<Rightarrow> world \<Rightarrow> world) \<Rightarrow>
    (world \<Rightarrow> 'a table_obj_scheme \<Rightarrow> 'a table_obj_scheme) \<Rightarrow> 'a table_obj_scheme \<Rightarrow>
    (world, 'a table_obj_scheme) eff" where
  "save_row tab upd norm r =
     sql_exec (\<lambda>w. let (r', t) = save_obj (norm w) r (tab w) in (Inr r', upd t w))"

lemma load_row_simps:
  "\<not> stale_cmd w \<Longrightarrow> load_row tab P w = (load_one (P w) (tab w), w)"
  by (simp add: load_row_def)

lemma keeps_sql_exec: "(\<And>w. I w \<Longrightarrow> I (w\<lparr>stale_cmd := False\<rparr>)) \<Longrightarrow> (\<And>w. I w \<Longrightarrow> I (snd (m w))) \<Longrightarrow> keeps I (sql_exec m)"
  by (auto simp: keeps_def sql_exec_def split: if_splits) (metis snd_conv)

lemma keeps_save_row:
  "(\<And>w. I w \<Longrightarrow> I (w\<lparr>stale_cmd := False\<rparr>)) \<Longrightarrow>
   (\<And>w. I w \<Longrightarrow> I (upd (snd (save_obj (norm w) r (tab w))) w)) \<Longrightarrow> keeps I (save_row tab upd norm r)"
  unfolding save_row_def by (rule keeps_sql_exec) (auto simp: split_def Let_def)

text \<open>An \<open>order by\<close>: a stable insertion sort for the engine's order on the keys.\<close>

fun insort_le :: "('b \<Rightarrow> 'b \<Rightarrow> bool) \<Rightarrow> ('a \<Rightarrow> 'b) \<Rightarrow> 'a \<Rightarrow> 'a list \<Rightarrow> 'a list" where
  "insort_le le k x [] = [x]"
| "insort_le le k x (y # ys) = (if le (k x) (k y) then x # y # ys else y # insort_le le k x ys)"

definition sort_le :: "('b \<Rightarrow> 'b \<Rightarrow> bool) \<Rightarrow> ('a \<Rightarrow> 'b) \<Rightarrow> 'a list \<Rightarrow> 'a list" where
  "sort_le le k xs = foldr (insort_le le k) xs []"

lemma length_insort_le [simp]: "length (insort_le le k x xs) = Suc (length xs)"
  by (induction xs) auto

lemma set_insort_le [simp]: "set (insort_le le k x xs) = insert x (set xs)"
  by (induction xs) auto

lemma length_sort_le [simp]: "length (sort_le le k xs) = length xs"
  by (induction xs) (auto simp: sort_le_def)

lemma set_sort_le [simp]: "set (sort_le le k xs) = set xs"
  by (induction xs) (auto simp: sort_le_def)

lemma sort_le_ident: "sorted_wrt le (map k xs) \<Longrightarrow> sort_le le k xs = xs"
proof (induction xs)
  case (Cons x xs)
  then have "sort_le le k xs = xs" by simp
  with Cons.prems show ?case by (cases xs) (auto simp: sort_le_def)
qed (simp add: sort_le_def)

text \<open>\<open>limit first,count\<close>\<close>

definition sql_limit :: "int \<Rightarrow> int \<Rightarrow> 'a list \<Rightarrow> 'a list" where
  "sql_limit first cnt xs =
     (let rest = drop (nat first) xs in if cnt < 0 then rest else take (nat cnt) rest)"

section \<open>What the engine does to texts\<close>

text \<open>
  A column declared \<open>string\<close> has numeric affinity in SQLite: a text that has the form of a
  number is stored as the number and read back in the engine's own spelling. The documented
  part the lemmas use: a text without a digit is no number and is kept.
\<close>

definition keeps_words :: "world \<Rightarrow> bool" where
  "keeps_words w = (\<forall>s. list_all (\<lambda>c. \<not> is_dec c) s \<longrightarrow> store_text w s = s)"

text \<open>
  An engine with this behaviour, used to instantiate the parameter: integers in their shortest
  decimal form, everything else unchanged.
\<close>

definition integer_affinity :: "string \<Rightarrow> string" where
  "integer_affinity s =
     (case lexical_cast_id s of Some i \<Rightarrow> show_int i | None \<Rightarrow> s)"

lemma integer_affinity_words: "list_all (\<lambda>c. \<not> is_dec c) s \<Longrightarrow> integer_affinity s = s"
proof -
  assume no: "list_all (\<lambda>c. \<not> is_dec c) s"
  have "scan_integer s = None"
  proof (cases s)
    case (Cons c t)
    with no show ?thesis by (cases t) (auto simp: scan_integer_def Let_def)
  qed (simp add: scan_integer_def)
  then show ?thesis by (simp add: integer_affinity_def lexical_cast_id_def lexical_cast_signed_def)
qed

text \<open>What the lemmas use of the engine's sorting: the default order of a playlist compiles and sorts.\<close>

definition present_desc :: "(pl_song_obj \<times> 'b) list \<Rightarrow> bool" where
  "present_desc rs = sorted_wrt (\<lambda>a b. present_order (fst b) \<le> present_order (fst a)) rs"

definition sorts_by_present :: "world \<Rightarrow> bool" where
  "sorts_by_present w =
     ((\<forall>rs. \<exists>out. order_songs w ''present_order desc'' rs = Some out \<and> mset out = mset rs \<and> present_desc out) \<and>
      (\<forall>rs. \<exists>out. order_entries w ''present_order desc'' rs = Some out \<and> mset out = mset rs \<and>
         sorted_wrt (\<lambda>a b. present_order b \<le> present_order a) out))"

text \<open>An engine with this behaviour, which knows no other column than the title.\<close>

definition sample_order :: "('a \<Rightarrow> int) \<Rightarrow> string \<Rightarrow> 'a list \<Rightarrow> 'a list option" where
  "sample_order pos e rs =
     (if e = ''present_order desc'' then Some (sort_le (\<lambda>a b. b \<le> a) pos rs) else None)"

definition empty_world :: world where
  "empty_world = \<lparr>songs = [], albums = [], artists = [], music_dirs = [], playlists = [],
     playlist_songs = [], users = [], settings = [], catalog = [], stale_cmd = False,
     store_text = integer_affinity, text_le = (\<le>), clock = 0, dice = (\<lambda>_. 97),
     files = (\<lambda>_. None), order_songs = sample_order (\<lambda>r. present_order (fst r)),
     order_entries = sample_order present_order,
     order_all = (\<lambda>e ss. if e = ''songs.title'' then Some (sort_le (\<le>) title ss) else None),
     complete_order = [],
     complete_obj = \<lparr>db_id = 0, pl_name = [], pl_description = [], order_by = ''present_order desc'',
       pl_present_order = 0\<rparr>\<rparr>"

lemma mset_insort_le [simp]: "mset (insort_le le k x xs) = add_mset x (mset xs)"
  by (induction xs) auto

lemma mset_sort_le [simp]: "mset (sort_le le k xs) = mset xs"
  by (induction xs) (auto simp: sort_le_def)

lemma sorted_insort_le:
  assumes "\<And>x y. le x y \<or> le y x" "\<And>x y z. le x y \<Longrightarrow> le y z \<Longrightarrow> le x z"
  shows "sorted_wrt (\<lambda>a b. le (k a) (k b)) xs \<Longrightarrow> sorted_wrt (\<lambda>a b. le (k a) (k b)) (insort_le le k x xs)"
proof (induction xs)
  case (Cons y ys)
  show ?case
  proof (cases "le (k x) (k y)")
    case True
    with Cons.prems assms(2) show ?thesis by auto
  next
    case False
    then have "le (k y) (k x)" using assms(1) by blast
    with False Cons show ?thesis by auto
  qed
qed simp

lemma sorted_sort_le:
  assumes "\<And>x y. le x y \<or> le y x" "\<And>x y z. le x y \<Longrightarrow> le y z \<Longrightarrow> le x z"
  shows "sorted_wrt (\<lambda>a b. le (k a) (k b)) (sort_le le k xs)"
  using sorted_insort_le [where le = le and k = k, OF assms]
  by (induction xs) (auto simp: sort_le_def)

lemma sorted_sort_desc: "sorted_wrt (\<lambda>a b. k b \<le> k a) (sort_le (\<lambda>a b. b \<le> a) (k :: 'x \<Rightarrow> int) rs)"
  by (rule sorted_sort_le) auto

lemma empty_world_sorts: "sorts_by_present empty_world"
  by (simp add: sorts_by_present_def empty_world_def sample_order_def present_desc_def sorted_sort_desc)

lemma empty_world_keeps_words: "keeps_words empty_world"
  by (simp add: keeps_words_def empty_world_def integer_affinity_words)

section \<open>Settings\<close>

text \<open>\<open>Settings::set\<close> updates the rows of that name; \<open>Settings::get\<close> reads the first, or an empty text.\<close>

definition settings_set :: "string \<Rightarrow> string \<Rightarrow> (world, string) eff" where
  "settings_set name val =
     sql_exec (\<lambda>w. (Inr val, w\<lparr>settings :=
        row_update (\<lambda>r. set_name r = store_text w name) (\<lambda>r. r\<lparr>set_value := store_text w val\<rparr>)
          (settings w)\<rparr>))"

definition settings_get :: "string \<Rightarrow> (world, string) eff" where
  "settings_get name =
     sql_exec (\<lambda>w. (Inr (case row_find (\<lambda>r. set_name r = store_text w name) (settings w) of
        Some r \<Rightarrow> set_value r | None \<Rightarrow> []), w))"

lemma row_find_row_update:
  assumes "\<And>r. P (f r) = P r"
  shows "row_find P (row_update P f t) = map_option f (row_find P t)"
  using assms by (induction t) (auto simp: row_find_def row_update_def)

text \<open>
  A setting that has a row keeps what is set, and the other settings keep their values; a
  setting without a row is not stored, and reading it gives the empty text. (No code of the
  program ever inserts a row.)
\<close>

theorem settings_set_then_get:
  assumes "\<not> stale_cmd w" "settings_set n v w = (r, w')"
  shows "r = Inr v \<and>
    fst (settings_get n w') =
      Inr (if \<exists>x \<in> set (settings w). set_name x = store_text w n then store_text w v else []) \<and>
    (\<forall>m. store_text w m \<noteq> store_text w n \<longrightarrow> fst (settings_get m w') = fst (settings_get m w))"
proof -
  let ?P = "\<lambda>m r. set_name r = store_text w m"
  let ?f = "\<lambda>r. r\<lparr>set_value := store_text w v\<rparr>"
  have w': "w' = w\<lparr>settings := row_update (?P n) ?f (settings w)\<rparr>" and r: "r = Inr v"
    using assms by (simp_all add: settings_set_def)
  have same: "row_find (?P n) (row_update (?P n) ?f t) = map_option ?f (row_find (?P n) t)" for t
    by (rule row_find_row_update) simp
  have other: "row_find (?P m) (row_update (?P n) ?f t) = row_find (?P m) t"
    if "store_text w m \<noteq> store_text w n" for m t
    using that by (induction t) (auto simp: row_find_def row_update_def)
  have "row_find (?P n) (settings w) = None \<longleftrightarrow> \<not> (\<exists>x \<in> set (settings w). ?P n x)"
    by (auto simp: row_find_None)
  then show ?thesis
    using assms(1) r
    by (auto simp: w' settings_get_def same other row_find_None split: option.split dest: row_find_SomeD)
qed

theorem settings_set_then_get_witness:
  "fst (settings_get ''AllowGuests'' (snd (settings_set ''AllowGuests'' ''WithName'' empty_world))) = Inr []"
proof -
  have "\<not> stale_cmd empty_world" by (simp add: empty_world_def)
  from settings_set_then_get [OF this, of "''AllowGuests''" "''WithName''"]
  show ?thesis by (cases "settings_set ''AllowGuests'' ''WithName'' empty_world") (auto simp: empty_world_def)
qed

end
