(* ===== verification/User.thy ===== *)
theory User
  imports World
begin

text \<open>
  Users, roles, tickets and authentication (\<open>libs/spinny/user.cpp\<close>). A user object is a
  \<open>user_obj\<close>; the random letters of a ticket come from the world's dice, the time of a visit
  from its clock.
\<close>

section \<open>Roles\<close>

text \<open>
  The enumeration; a user holds its underlying integer, because roles are stored as integers
  and cast back unchecked.
\<close>

datatype Role = ReadOnlyRole | ModifyRole | AdminRole

fun role_int :: "Role \<Rightarrow> int" where
  "role_int ReadOnlyRole = 0"
| "role_int ModifyRole = 1"
| "role_int AdminRole = 2"

instantiation Role :: linorder
begin

definition less_eq_Role :: "Role \<Rightarrow> Role \<Rightarrow> bool" where
  "less_eq_Role a b = (role_int a \<le> role_int b)"

definition less_Role :: "Role \<Rightarrow> Role \<Rightarrow> bool" where
  "less_Role a b = (role_int a < role_int b)"

instance
proof
  fix x y z :: Role
  show "x < y \<longleftrightarrow> x \<le> y \<and> \<not> y \<le> x" by (auto simp: less_eq_Role_def less_Role_def)
  show "x \<le> x" by (simp add: less_eq_Role_def)
  show "x \<le> y \<Longrightarrow> y \<le> z \<Longrightarrow> x \<le> z" by (simp add: less_eq_Role_def)
  show "x \<le> y \<Longrightarrow> y \<le> x \<Longrightarrow> x = y" by (cases x; cases y) (simp_all add: less_eq_Role_def)
  show "x \<le> y \<or> y \<le> x" by (auto simp: less_eq_Role_def)
qed

end

definition has_at_least :: "user_obj \<Rightarrow> Role \<Rightarrow> bool" where
  "has_at_least u r = (role u \<ge> role_int r)"

definition is_admin :: "user_obj \<Rightarrow> bool" where
  "is_admin u = has_at_least u AdminRole"

definition has_modify_role :: "user_obj \<Rightarrow> bool" where
  "has_modify_role u = has_at_least u ModifyRole"

definition set_role :: "int \<Rightarrow> user_obj \<Rightarrow> user_obj" where
  "set_role r u = u\<lparr>role := r\<rparr>"

definition set_password :: "string \<Rightarrow> user_obj \<Rightarrow> user_obj" where
  "set_password p u = u\<lparr>password := p\<rparr>"

lemma has_at_least_antimono: "r \<le> s \<Longrightarrow> has_at_least u s \<Longrightarrow> has_at_least u r"
  by (auto simp: has_at_least_def less_eq_Role_def)

section \<open>Rows of users\<close>

text \<open>What the engine does to the text columns. The time text is no number (it has a letter).\<close>

definition norm_user :: "world \<Rightarrow> user_obj \<Rightarrow> user_obj" where
  "norm_user w u = u\<lparr>login := store_text w (login u), password := store_text w (password u),
                     ticket := store_text w (ticket u)\<rparr>"

definition user_save :: "user_obj \<Rightarrow> (world, user_obj) eff" where
  "user_save = save_row users (\<lambda>t w. w\<lparr>users := t\<rparr>) norm_user"

definition with_ticket :: "string \<Rightarrow> (world, user_obj) eff" where
  "with_ticket t = load_row users (\<lambda>w u. ticket u = store_text w t)"

definition with_login :: "string \<Rightarrow> (world, user_obj) eff" where
  "with_login l = load_row users (\<lambda>w u. login u = store_text w l)"

definition user_load :: "int \<Rightarrow> (world, user_obj) eff" where
  "user_load i = load_row users (\<lambda>w u. db_id u = i)"

definition user_count :: "(world, nat) eff" where
  "user_count w = (Inr (length (users w)), w)"

datatype user_sort = SortNone | SortLogin | SortLastVisit

definition user_order :: "world \<Rightarrow> user_sort \<Rightarrow> bool \<Rightarrow> user_obj list \<Rightarrow> user_obj list" where
  "user_order w srt desc us =
     (case srt of
        SortNone \<Rightarrow> us
      | SortLogin \<Rightarrow> sort_le (\<lambda>a b. if desc then text_le w b a else text_le w a b) login us
      | SortLastVisit \<Rightarrow> sort_le (\<lambda>a b. if desc then b \<le> a else a \<le> b) last_visit us)"

text \<open>The limit is only part of the statement when \<open>first\<close> is not zero.\<close>

definition user_list :: "int \<Rightarrow> int \<Rightarrow> user_sort \<Rightarrow> bool \<Rightarrow> (world, user_obj list) eff" where
  "user_list first cnt srt desc = sql_load (\<lambda>w.
     (let us = user_order w srt desc (users w)
      in (Inr (if first \<noteq> 0 then sql_limit first cnt us else us), w)))"

section \<open>Tickets and authentication\<close>

definition generate_new_ticket :: "(nat \<Rightarrow> int) \<Rightarrow> string" where
  "generate_new_ticket die = map (\<lambda>i. int_char (die i)) [0..<25]"

definition user_create :: "world \<Rightarrow> string \<Rightarrow> string \<Rightarrow> user_obj" where
  "user_create w l p =
     \<lparr>db_id = 0, login = l, password = p, ticket = generate_new_ticket (dice w),
      last_visit = clock w, role = role_int ReadOnlyRole\<rparr>"

definition update_access_time :: "user_obj \<Rightarrow> (world, user_obj) eff" where
  "update_access_time u = sql_exec (\<lambda>w.
     (Inr (u\<lparr>last_visit := clock w\<rparr>),
      w\<lparr>users := row_update (\<lambda>r. db_id r = db_id u) (\<lambda>r. r\<lparr>last_visit := clock w\<rparr>) (users w)\<rparr>))"

definition authen :: "user_obj \<Rightarrow> string \<Rightarrow> (world, bool \<times> user_obj) eff" where
  "authen u pass w =
     (if pass = password u then
        bindE (user_save (u\<lparr>ticket := generate_new_ticket (dice w)\<rparr>)) (\<lambda>u'. ret (True, u')) w
      else (Inr (False, u), w))"

text \<open>The dice of the world roll lower-case letters (\<open>distribution_type(97,122)\<close>).\<close>

definition fair_dice :: "world \<Rightarrow> bool" where
  "fair_dice w = (\<forall>i. 97 \<le> dice w i \<and> dice w i \<le> 122)"

definition is_lower :: "char \<Rightarrow> bool" where
  "is_lower c = (97 \<le> (of_char c :: nat) \<and> (of_char c :: nat) \<le> 122)"

lemma int_char_lower: "97 \<le> i \<Longrightarrow> i \<le> 122 \<Longrightarrow> is_lower (int_char i)"
  by (simp add: is_lower_def int_char_def nat_le_iff le_nat_iff)

lemma lower_not_digit: "is_lower c \<Longrightarrow> \<not> is_dec c"
  by (simp add: is_lower_def is_dec_def)

lemma ticket_lower: "fair_dice w \<Longrightarrow> list_all is_lower (generate_new_ticket (dice w))"
  by (auto simp: generate_new_ticket_def list_all_iff fair_dice_def int_char_lower)

lemma ticket_kept:
  assumes "keeps_words w" "fair_dice w"
  shows "store_text w (generate_new_ticket (dice w)) = generate_new_ticket (dice w)"
proof -
  have "list_all (\<lambda>c. \<not> is_dec c) (generate_new_ticket (dice w))"
    using ticket_lower [OF assms(2)] by (auto simp: list_all_iff lower_not_digit)
  with assms(1) show ?thesis by (simp add: keeps_words_def)
qed

lemma norm_user_simps [simp]:
  "db_id (norm_user w u) = db_id u" "role (norm_user w u) = role u"
  "last_visit (norm_user w u) = last_visit u"
  "login (norm_user w u) = store_text w (login u)"
  "password (norm_user w u) = store_text w (password u)"
  "ticket (norm_user w u) = store_text w (ticket u)"
  by (simp_all add: norm_user_def)

lemma user_save_ready:
  "\<not> stale_cmd w \<Longrightarrow> user_save u w =
     (Inr (fst (save_obj (norm_user w) u (users w))),
      w\<lparr>users := snd (save_obj (norm_user w) u (users w))\<rparr>)"
  by (simp add: user_save_def save_row_def split_def Let_def)

section \<open>What authentication does\<close>

lemma row_find_unique:
  assumes "row_lookup t i = Some r" "P r" "\<And>x. x \<in> set t \<Longrightarrow> P x \<Longrightarrow> db_id x = i" "rows_ok t"
  shows "row_find P t = Some r"
proof (cases "row_find P t")
  case None
  with assms(1,2) show ?thesis by (auto simp: row_find_None dest: row_lookup_SomeD)
next
  case (Some x)
  then have "x \<in> set t" "db_id x = i" using assms(3) by (auto dest: row_find_SomeD)
  with row_lookup_in [OF assms(4), of x] assms(1) Some show ?thesis by simp
qed

lemma authen_ticket:
  assumes "rows_ok (users w)" "\<not> stale_cmd w" "keeps_words w" "fair_dice w"
    and row: "row_lookup (users w) (db_id u) \<noteq> None" "db_id u \<noteq> 0"
    and fresh: "\<forall>x \<in> set (users w). ticket x = generate_new_ticket (dice w) \<longrightarrow> db_id x = db_id u"
    and call: "authen u pass w = (res, w')"
  shows "if pass = password u then
      (let t = generate_new_ticket (dice w); u' = u\<lparr>ticket := t\<rparr> in
        res = Inr (True, u') \<and> length t = 25 \<and> list_all is_lower t \<and>
        fst (with_ticket t w') = Inr (norm_user w u') \<and>
        (\<forall>i. i \<noteq> db_id u \<longrightarrow> row_lookup (users w') i = row_lookup (users w) i))
    else res = Inr (False, u) \<and> w' = w"
proof (cases "pass = password u")
  case False
  with call show ?thesis by (simp add: authen_def)
next
  case True
  let ?t = "generate_new_ticket (dice w)"
  let ?u = "u\<lparr>ticket := ?t\<rparr>"
  have kept: "store_text w ?t = ?t" by (rule ticket_kept [OF assms(3,4)])
  have saved: "user_save ?u w = (Inr ?u, w\<lparr>users := row_put (db_id u) (norm_user w ?u) (users w)\<rparr>)"
    using assms(2) row(2) by (simp add: user_save_ready save_obj_def)
  with call True have res: "res = Inr (True, ?u)"
    and w': "w' = w\<lparr>users := row_put (db_id u) (norm_user w ?u) (users w)\<rparr>"
    by (simp_all add: authen_def)
  have same: "(norm_user w ?u)\<lparr>db_id := db_id u\<rparr> = norm_user w ?u"
    by (simp add: norm_user_def)
  have look: "row_lookup (users w') (db_id u) = Some (norm_user w ?u)"
    using row(1) same by (simp add: w' row_lookup_put)
  have "row_find (\<lambda>x. ticket x = ?t) (users w') = Some (norm_user w ?u)"
  proof (rule row_find_unique [OF look])
    show "rows_ok (users w')" using assms(1) by (simp add: w')
    show "ticket (norm_user w ?u) = ?t" by (simp add: kept)
    fix x assume "x \<in> set (users w')" "ticket x = ?t"
    with fresh show "db_id x = db_id u"
      by (auto simp: w' row_put_def row_update_def split: if_splits)
  qed
  then have "fst (with_ticket ?t w') = Inr (norm_user w ?u)"
    using assms(2) kept by (simp add: with_ticket_def load_row_simps load_one_def w')
  then show ?thesis
    using True res ticket_lower [OF assms(4)]
    by (simp add: Let_def generate_new_ticket_def w' row_lookup_put)
qed

text \<open>
  C25: authentication succeeds for the stored password only, and then the user gets a fresh
  ticket of 25 lower-case letters under which the stored row is found from then on; the rows of
  the other users are unchanged. With any other password nothing changes. (The engine keeps
  words as they are, the dice roll letters, and no other user happens to hold the ticket.)
\<close>

theorem authen_issues_ticket:
  assumes "rows_ok (users w)" "\<not> stale_cmd w" "keeps_words w" "fair_dice w"
    and row: "row_lookup (users w) (db_id u) \<noteq> None" "db_id u \<noteq> 0"
    and fresh: "\<forall>x \<in> set (users w). ticket x = generate_new_ticket (dice w) \<longrightarrow> db_id x = db_id u"
    and call: "authen u pass w = (res, w')"
  shows "if pass = password u then
      (let t = generate_new_ticket (dice w); u' = u\<lparr>ticket := t\<rparr> in
        res = Inr (True, u') \<and> length t = 25 \<and> list_all is_lower t \<and>
        fst (with_ticket t w') = Inr (norm_user w u') \<and>
        (\<forall>i. i \<noteq> db_id u \<longrightarrow> row_lookup (users w') i = row_lookup (users w) i))
    else res = Inr (False, u) \<and> w' = w"
  using assms by (rule authen_ticket)

definition sample_user :: user_obj where
  "sample_user = \<lparr>db_id = 1, login = ''Admin'', password = ''secret'', ticket = ''none'',
     last_visit = 0, role = 2\<rparr>"

definition sample_world :: world where
  "sample_world = empty_world\<lparr>users := [sample_user]\<rparr>"

lemma sample_world_facts:
  "rows_ok (users sample_world)" "\<not> stale_cmd sample_world" "keeps_words sample_world"
  "fair_dice sample_world" "row_lookup (users sample_world) 1 = Some sample_user"
  "dice sample_world = (\<lambda>_. 97)"
  using empty_world_keeps_words
  by (simp_all add: sample_world_def sample_user_def empty_world_def rows_ok_def keeps_words_def
      fair_dice_def row_lookup_def row_find_def)

theorem authen_issues_ticket_witness:
  "\<exists>u w'. authen sample_user ''secret'' sample_world = (Inr (True, u), w') \<and> length (ticket u) = 25 \<and>
     db_id u = 1"
proof -
  have new: "\<forall>x \<in> set (users sample_world). ticket x = generate_new_ticket (dice sample_world) \<longrightarrow>
      db_id x = db_id sample_user"
    by (simp add: sample_world_def)
  obtain res w' where call: "authen sample_user ''secret'' sample_world = (res, w')"
    by (cases "authen sample_user ''secret'' sample_world")
  have "db_id sample_user = 1" "password sample_user = ''secret''" by (simp_all add: sample_user_def)
  with authen_issues_ticket [OF sample_world_facts(1-4) _ _ new call] sample_world_facts(5) call
  show ?thesis by (simp add: Let_def)
qed

text \<open>
  A new user whose password the engine does not keep as it is written (a text that reads as
  a number, with leading zeros for instance) is stored, is found by its login, and is then
  refused with the very password it was created with.
\<close>

theorem renumbered_password_is_refused:
  assumes "rows_ok (users w)" "\<not> stale_cmd w" "db_id u = 0"
    and free: "\<forall>x \<in> set (users w). login x \<noteq> store_text w (login u)"
    and changed: "store_text w (password u) \<noteq> password u"
    and saved: "user_save u w = (r, w')"
  shows "\<exists>u'. fst (with_login (login u) w') = Inr u' \<and> login u' = store_text w (login u) \<and>
    authen u' (password u) w' = (Inr (False, u'), w')"
proof -
  let ?n = "(norm_user w u)\<lparr>db_id := next_rowid (users w)\<rparr>"
  have w': "w' = w\<lparr>users := row_insert (norm_user w u) (users w)\<rparr>"
    using saved assms(2,3) by (simp add: user_save_ready save_obj_def)
  have "row_find (\<lambda>x. login x = store_text w (login u)) (users w') = Some ?n"
  proof (rule row_find_unique)
    show "row_lookup (users w') (next_rowid (users w)) = Some ?n"
      by (simp add: w' row_lookup_insert)
    show "rows_ok (users w')" using assms(1) by (simp add: w')
    fix x assume "x \<in> set (users w')" "login x = store_text w (login u)"
    with free show "db_id x = next_rowid (users w)" by (auto simp: w')
  qed simp
  then have "fst (with_login (login u) w') = Inr ?n"
    using assms(2) by (simp add: with_login_def load_row_simps load_one_def w')
  with changed show ?thesis by (simp add: authen_def)
qed

theorem renumbered_password_is_refused_witness:
  "\<exists>w' u'. user_save (user_create empty_world ''joe'' ''0123'') empty_world = (Inr u', w') \<and>
     (\<exists>v. fst (with_login ''joe'' w') = Inr v \<and> fst (authen v ''0123'' w') = Inr (False, v))"
proof -
  let ?u = "user_create empty_world ''joe'' ''0123''"
  have w: "rows_ok (users empty_world)" "\<not> stale_cmd empty_world" "db_id ?u = 0" "login ?u = ''joe''"
    "password ?u = ''0123''" "users empty_world = []" "store_text empty_world = integer_affinity"
    by (simp_all add: empty_world_def user_create_def)
  moreover have "integer_affinity ''0123'' \<noteq> ''0123''" by code_simp
  moreover obtain r w' where saved: "user_save ?u empty_world = (r, w')" by (cases "user_save ?u empty_world")
  moreover have "\<exists>x. r = Inr x" using saved w(2) by (auto simp: user_save_ready)
  ultimately show ?thesis
    using renumbered_password_is_refused [OF w(1,2,3) _ _ saved] by auto
qed

lemma set_user_order [simp]: "set (user_order w srt desc us) = set us"
  by (simp add: user_order_def split: user_sort.split)

lemma length_user_order [simp]: "length (user_order w srt desc us) = length us"
  by (simp add: user_order_def split: user_sort.split)

text \<open>
  A page of users that does not start at the first row has at most the number of rows asked
  for; the first page is not limited and holds every user, whatever the count.
\<close>

theorem user_list_pages:
  assumes "\<not> stale_cmd w" "0 \<le> first" "0 \<le> cnt" "user_list first cnt srt desc w = (Inr us, w')"
  shows "w' = w \<and> set us \<subseteq> set (users w) \<and>
    (if first = 0 then set us = set (users w) \<and> length us = length (users w)
     else length us = min (nat cnt) (length (users w) - nat first))"
proof -
  let ?o = "user_order w srt desc (users w)"
  have us: "us = (if first \<noteq> 0 then take (nat cnt) (drop (nat first) ?o) else ?o)" and "w' = w"
    using assms by (auto simp: user_list_def sql_limit_def Let_def)
  moreover have "set (take (nat cnt) (drop (nat first) ?o)) \<subseteq> set ?o"
    by (meson order_trans set_drop_subset set_take_subset)
  ultimately show ?thesis by (simp add: min.commute)
qed

theorem user_list_pages_witness:
  "fst (user_list 0 0 SortLogin False sample_world) = Inr [sample_user]"
proof -
  have "fst (user_list 0 0 SortLogin False sample_world) = Inr (user_order sample_world SortLogin False [sample_user])"
    by (simp add: user_list_def sample_world_def empty_world_def)
  moreover have "user_order sample_world SortLogin False [sample_user] = [sample_user]"
    by (simp add: user_order_def sort_le_def)
  ultimately obtain w' where u: "user_list 0 0 SortLogin False sample_world = (Inr [sample_user], w')"
    by (cases "user_list 0 0 SortLogin False sample_world") auto
  with user_list_pages [OF sample_world_facts(2) _ _ u] show ?thesis by simp
qed

text \<open>
  The roles form a chain: who has at least one role has every smaller one, an administrator
  may modify, and whether a stored role integer grants a role depends on its value only.
\<close>

theorem roles_are_a_chain:
  "(r \<le> s \<longrightarrow> has_at_least u s \<longrightarrow> has_at_least u r) \<and> (is_admin u \<longrightarrow> has_modify_role u) \<and>
   has_at_least (set_role (role_int r) u) s = (s \<le> r)"
  by (auto simp: is_admin_def has_modify_role_def has_at_least_def set_role_def less_eq_Role_def)

theorem roles_are_a_chain_witness: "has_at_least sample_user ModifyRole"
proof -
  have "ModifyRole \<le> AdminRole" by (simp add: less_eq_Role_def)
  moreover have "has_at_least sample_user AdminRole" by (simp add: has_at_least_def sample_user_def)
  ultimately show ?thesis using roles_are_a_chain [of ModifyRole AdminRole sample_user] by blast
qed

end
