(* ===== verification/Request.thy ===== *)
theory Request
  imports Url User
begin

text \<open>
  A request (\<open>libs/ews/request.hpp\<close>) and the character automaton that reads one
  (\<open>libs/ews/request_parser.cpp\<close>). Each case of the switch in \<open>consume\<close> is a definition of its
  own; \<open>parse\<close> is the loop of \<open>request_parser.hpp\<close> with the final decoding of the URL, the
  variables, the cookies and the ticket.
\<close>

section \<open>Requests\<close>

record request =
  current_header_name :: string
  current_header_value :: string
  req_user :: "user_obj option"
  headers :: "(string, string) smap"
  varibles :: varibles
  http_version_major :: "32 word"
  http_version_minor :: "32 word"
  req_method :: string
  uri :: string
  url :: string
  body :: string
  u1 :: string
  u2 :: string
  u3 :: string
  u4 :: string
  u5 :: string
  num_url_elements :: int
  content_length :: "32 word"

definition new_request :: request where
  "new_request = \<lparr>current_header_name = [], current_header_value = [], req_user = None,
     headers = [], varibles = [], http_version_major = 0, http_version_minor = 0,
     req_method = [], uri = [], url = [], body = [], u1 = [], u2 = [], u3 = [], u4 = [], u5 = [],
     num_url_elements = 0, content_length = 0\<rparr>"

definition clear_current_header :: "request \<Rightarrow> request" where
  "clear_current_header r = r\<lparr>current_header_name := [], current_header_value := []\<rparr>"

text \<open>\<open>get_header\<close> and \<open>single_value\<close> at the types the program uses them; \<open>None\<close> is a bad cast.\<close>

definition get_header_uint :: "request \<Rightarrow> string \<Rightarrow> 32 word option" where
  "get_header_uint r name =
     (case map_find (headers r) name of Some v \<Rightarrow> lexical_cast_uint v | None \<Rightarrow> Some 0)"

definition get_header :: "request \<Rightarrow> string \<Rightarrow> string" where
  "get_header r name = (case map_find (headers r) name of Some v \<Rightarrow> v | None \<Rightarrow> [])"

definition single_value_with :: "(string \<Rightarrow> 'a option) \<Rightarrow> 'a \<Rightarrow> request \<Rightarrow> string \<Rightarrow> 'a option" where
  "single_value_with cast dflt r name =
     (case map_find (varibles r) name of
        Some (v # vs) \<Rightarrow> cast v
      | _ \<Rightarrow> Some dflt)"

definition svalue :: "request \<Rightarrow> string \<Rightarrow> string" where
  "svalue r name =
     (case map_find (varibles r) name of
        Some (v # vs) \<Rightarrow> v
      | _ \<Rightarrow> [])"

section \<open>Character classes\<close>

definition is_char :: "char \<Rightarrow> bool" where
  "is_char c = (char_int c \<ge> 0 \<and> char_int c \<le> 127)"

definition is_ctl :: "char \<Rightarrow> bool" where
  "is_ctl c = ((char_int c \<ge> 0 \<and> char_int c \<le> 31) \<or> char_int c = 127)"

definition is_tspecial :: "char \<Rightarrow> bool" where
  "is_tspecial c = (c \<in> {CHR ''('', CHR '')'', CHR ''<'', CHR ''>'', CHR ''@'',
     CHR '','', CHR '';'', CHR '':'', CHR 0x5C, CHR 0x22,
     CHR ''/'', CHR ''['', CHR '']'', CHR ''?'', CHR ''='',
     CHR ''{'', CHR ''}'', CHR '' '', CHR 0x09})"

definition is_digit :: "char \<Rightarrow> bool" where
  "is_digit c = (char_int c \<ge> 48 \<and> char_int c \<le> 57)"

abbreviation bad_token_char :: "char \<Rightarrow> bool" where
  "bad_token_char c \<equiv> \<not> is_char c \<or> is_ctl c \<or> is_tspecial c"

text \<open>\<open>v * 10 + input - '0'\<close> in 32 bits.\<close>

definition push_digit :: "32 word \<Rightarrow> char \<Rightarrow> 32 word" where
  "push_digit v c = v * 10 + of_int (char_int c) - 48"

section \<open>The automaton\<close>

datatype pstate =
    MethodStart | Method | UriStart | Uri
  | HttpVersionH | HttpVersionT1 | HttpVersionT2 | HttpVersionP | HttpVersionSlash
  | HttpVersionMajorStart | HttpVersionMajor | HttpVersionMinorStart | HttpVersionMinor
  | ExpectingNewline1 | HeaderLineStart | HeaderLws | HeaderName | SpaceBeforeHeaderValue
  | HeaderValue | ExpectingNewline2 | ExpectingNewline3 | ReadingBody

type_synonym step_result = "(exn + tribool) \<times> pstate \<times> request"

abbreviation continue_at :: "pstate \<Rightarrow> request \<Rightarrow> step_result" where
  "continue_at st r \<equiv> (Inr Indeterminate, st, r)"

abbreviation reject :: "pstate \<Rightarrow> request \<Rightarrow> step_result" where
  "reject st r \<equiv> (Inr TFalse, st, r)"

definition consume_method_start :: "request \<Rightarrow> char \<Rightarrow> step_result" where
  "consume_method_start r c =
     (if bad_token_char c then reject MethodStart r
      else continue_at Method (r\<lparr>req_method := req_method r @ [c]\<rparr>))"

definition consume_method :: "request \<Rightarrow> char \<Rightarrow> step_result" where
  "consume_method r c =
     (if c = CHR '' '' then continue_at Uri r
      else if bad_token_char c then reject Method r
      else continue_at Method (r\<lparr>req_method := req_method r @ [c]\<rparr>))"

definition consume_uri_start :: "request \<Rightarrow> char \<Rightarrow> step_result" where
  "consume_uri_start r c =
     (if is_ctl c then reject UriStart r else continue_at Uri (r\<lparr>uri := uri r @ [c]\<rparr>))"

definition consume_uri :: "request \<Rightarrow> char \<Rightarrow> step_result" where
  "consume_uri r c =
     (if c = CHR '' '' then continue_at HttpVersionH r
      else if is_ctl c then reject Uri r
      else continue_at Uri (r\<lparr>uri := uri r @ [c]\<rparr>))"

definition consume_http_version_h :: "request \<Rightarrow> char \<Rightarrow> step_result" where
  "consume_http_version_h r c =
     (if c = CHR ''H'' then continue_at HttpVersionT1 r else reject HttpVersionH r)"

definition consume_http_version_t_1 :: "request \<Rightarrow> char \<Rightarrow> step_result" where
  "consume_http_version_t_1 r c =
     (if c = CHR ''T'' then continue_at HttpVersionT2 r else reject HttpVersionT1 r)"

definition consume_http_version_t_2 :: "request \<Rightarrow> char \<Rightarrow> step_result" where
  "consume_http_version_t_2 r c =
     (if c = CHR ''T'' then continue_at HttpVersionP r else reject HttpVersionT2 r)"

definition consume_http_version_p :: "request \<Rightarrow> char \<Rightarrow> step_result" where
  "consume_http_version_p r c =
     (if c = CHR ''P'' then continue_at HttpVersionSlash r else reject HttpVersionP r)"

definition consume_http_version_slash :: "request \<Rightarrow> char \<Rightarrow> step_result" where
  "consume_http_version_slash r c =
     (if c = CHR ''/'' then
        continue_at HttpVersionMajorStart (r\<lparr>http_version_major := 0, http_version_minor := 0\<rparr>)
      else reject HttpVersionSlash r)"

definition consume_http_version_major_start :: "request \<Rightarrow> char \<Rightarrow> step_result" where
  "consume_http_version_major_start r c =
     (if is_digit c then
        continue_at HttpVersionMajor (r\<lparr>http_version_major := push_digit (http_version_major r) c\<rparr>)
      else reject HttpVersionMajorStart r)"

definition consume_http_version_major :: "request \<Rightarrow> char \<Rightarrow> step_result" where
  "consume_http_version_major r c =
     (if c = CHR ''.'' then continue_at HttpVersionMinorStart r
      else if is_digit c then
        continue_at HttpVersionMajor (r\<lparr>http_version_major := push_digit (http_version_major r) c\<rparr>)
      else reject HttpVersionMajor r)"

definition consume_http_version_minor_start :: "request \<Rightarrow> char \<Rightarrow> step_result" where
  "consume_http_version_minor_start r c =
     (if is_digit c then
        continue_at HttpVersionMinor (r\<lparr>http_version_minor := push_digit (http_version_minor r) c\<rparr>)
      else reject HttpVersionMinorStart r)"

definition consume_http_version_minor :: "request \<Rightarrow> char \<Rightarrow> step_result" where
  "consume_http_version_minor r c =
     (if c = CHR 0x0D then continue_at ExpectingNewline1 r
      else if is_digit c then
        continue_at HttpVersionMinor (r\<lparr>http_version_minor := push_digit (http_version_minor r) c\<rparr>)
      else reject HttpVersionMinor r)"

definition consume_expecting_newline_1 :: "request \<Rightarrow> char \<Rightarrow> step_result" where
  "consume_expecting_newline_1 r c =
     (if c = CHR 0x0A then continue_at HeaderLineStart r else reject ExpectingNewline1 r)"

text \<open>The entry of the header that was read, as it is stored when the next line starts.\<close>

definition store_header :: "request \<Rightarrow> request" where
  "store_header r =
     r\<lparr>headers := map_set (to_upper (decode_str (current_header_name r)))
                         (decode_str (current_header_value r)) (headers r)\<rparr>"

definition consume_header_line_start :: "request \<Rightarrow> char \<Rightarrow> step_result" where
  "consume_header_line_start r c =
     (if c = CHR 0x0D then continue_at ExpectingNewline3 r
      else if headers r \<noteq> [] \<and> (c = CHR '' '' \<or> c = CHR 0x09) then continue_at HeaderLws r
      else if bad_token_char c then reject HeaderLineStart r
      else
        (let r' = (if current_header_name r \<noteq> [] then clear_current_header (store_header r) else r)
         in continue_at HeaderName (r'\<lparr>current_header_name := current_header_name r' @ [c]\<rparr>)))"

definition consume_header_lws :: "request \<Rightarrow> char \<Rightarrow> step_result" where
  "consume_header_lws r c =
     (if c = CHR 0x0D then continue_at ExpectingNewline2 r
      else if c = CHR '' '' \<or> c = CHR 0x09 then continue_at HeaderLws r
      else if is_ctl c then reject HeaderLws r
      else continue_at HeaderValue (r\<lparr>current_header_value := current_header_value r @ [c]\<rparr>))"

definition consume_header_name :: "request \<Rightarrow> char \<Rightarrow> step_result" where
  "consume_header_name r c =
     (if c = CHR '':'' then continue_at SpaceBeforeHeaderValue r
      else if bad_token_char c then reject HeaderName r
      else continue_at HeaderName (r\<lparr>current_header_name := current_header_name r @ [c]\<rparr>))"

definition consume_space_before_header_value :: "request \<Rightarrow> char \<Rightarrow> step_result" where
  "consume_space_before_header_value r c =
     (if c = CHR '' '' then continue_at HeaderValue r
      else continue_at HeaderValue (r\<lparr>current_header_value := current_header_value r @ [c]\<rparr>))"

definition consume_header_value :: "request \<Rightarrow> char \<Rightarrow> step_result" where
  "consume_header_value r c =
     (if c = CHR 0x0D then continue_at ExpectingNewline2 r
      else if is_ctl c then reject HeaderValue r
      else continue_at HeaderValue (r\<lparr>current_header_value := current_header_value r @ [c]\<rparr>))"

definition consume_expecting_newline_2 :: "request \<Rightarrow> char \<Rightarrow> step_result" where
  "consume_expecting_newline_2 r c =
     (if c = CHR 0x0A then continue_at HeaderLineStart r else reject ExpectingNewline2 r)"

definition consume_expecting_newline_3 :: "request \<Rightarrow> char \<Rightarrow> step_result" where
  "consume_expecting_newline_3 r c =
     (if c = CHR 0x0A then
        (let r1 = store_header r in
         case (if req_method r1 = ''POST'' then get_header_uint r1 ''CONTENT-LENGTH'' else Some 0) of
           None \<Rightarrow> (Inl Bad_lexical_cast, ExpectingNewline3, r1)
         | Some n \<Rightarrow>
             (let r2 = clear_current_header (r1\<lparr>content_length := n\<rparr>) in
              if n \<noteq> 0 then continue_at ReadingBody r2 else (Inr TTrue, ExpectingNewline3, r2)))
      else reject ExpectingNewline3 r)"

definition consume_reading_body :: "request \<Rightarrow> char \<Rightarrow> step_result" where
  "consume_reading_body r c =
     (let r' = r\<lparr>body := body r @ [c]\<rparr> in
      if unat (content_length r') = length (body r') then (Inr TTrue, ReadingBody, r')
      else continue_at ReadingBody r')"

fun consume :: "pstate \<Rightarrow> request \<Rightarrow> char \<Rightarrow> step_result" where
  "consume MethodStart r c = consume_method_start r c"
| "consume Method r c = consume_method r c"
| "consume UriStart r c = consume_uri_start r c"
| "consume Uri r c = consume_uri r c"
| "consume HttpVersionH r c = consume_http_version_h r c"
| "consume HttpVersionT1 r c = consume_http_version_t_1 r c"
| "consume HttpVersionT2 r c = consume_http_version_t_2 r c"
| "consume HttpVersionP r c = consume_http_version_p r c"
| "consume HttpVersionSlash r c = consume_http_version_slash r c"
| "consume HttpVersionMajorStart r c = consume_http_version_major_start r c"
| "consume HttpVersionMajor r c = consume_http_version_major r c"
| "consume HttpVersionMinorStart r c = consume_http_version_minor_start r c"
| "consume HttpVersionMinor r c = consume_http_version_minor r c"
| "consume ExpectingNewline1 r c = consume_expecting_newline_1 r c"
| "consume HeaderLineStart r c = consume_header_line_start r c"
| "consume HeaderLws r c = consume_header_lws r c"
| "consume HeaderName r c = consume_header_name r c"
| "consume SpaceBeforeHeaderValue r c = consume_space_before_header_value r c"
| "consume HeaderValue r c = consume_header_value r c"
| "consume ExpectingNewline2 r c = consume_expecting_newline_2 r c"
| "consume ExpectingNewline3 r c = consume_expecting_newline_3 r c"
| "consume ReadingBody r c = consume_reading_body r c"

lemmas consume_defs [simp] =
  consume_method_start_def consume_method_def consume_uri_start_def consume_uri_def
  consume_http_version_h_def consume_http_version_t_1_def consume_http_version_t_2_def
  consume_http_version_p_def consume_http_version_slash_def consume_http_version_major_start_def
  consume_http_version_major_def consume_http_version_minor_start_def
  consume_http_version_minor_def consume_expecting_newline_1_def consume_header_line_start_def
  consume_header_lws_def consume_header_name_def consume_space_before_header_value_def
  consume_header_value_def consume_expecting_newline_2_def consume_expecting_newline_3_def
  consume_reading_body_def

section \<open>Final decoding\<close>

text \<open>\<open>(char)elements.size() - 1\<close>, stored in a \<open>char\<close> and capped at five.\<close>

definition url_element_count :: "nat \<Rightarrow> int" where
  "url_element_count n =
     (let m = char_int (int_char (char_int (int_char (int n)) - 1)) in if m > 5 then 5 else m)"

text \<open>The switch with its fall-through.\<close>

definition set_url_elements :: "string list \<Rightarrow> request \<Rightarrow> request" where
  "set_url_elements es r =
     (let n = url_element_count (length es);
          at = (\<lambda>k old. if int k \<le> n then es ! k else old)
      in r\<lparr>num_url_elements := n, u5 := at 5 (u5 r), u4 := at 4 (u4 r), u3 := at 3 (u3 r),
           u2 := at 2 (u2 r), u1 := at 1 (u1 r)\<rparr>)"

definition decode_url :: "string \<Rightarrow> string" where
  "decode_url s = takeWhile (\<lambda>c. c \<noteq> CHR ''?'') (decode_str s)"

text \<open>The cookies are read as form elements; a ticket that no user has is ignored.\<close>

definition read_cookies :: "request \<Rightarrow> world \<Rightarrow> (exn + unit) \<times> request \<times> world" where
  "read_cookies r w =
     (let cookies = get_header r ''COOKIE'' in
      if cookies = [] then (Inr (), r, w)
      else
        (let r1 = r\<lparr>varibles := parse_form_elements (varibles r) cookies\<rparr>;
             ticket = svalue r1 ''Ticket''
         in if ticket = [] then (Inr (), r1, w)
            else (case with_ticket ticket w of
                    (Inr u, w') \<Rightarrow> (Inr (), r1\<lparr>req_user := Some u\<rparr>, w')
                  | (Inl (Sqlite_not_found m), w') \<Rightarrow> (Inr (), r1, w')
                  | (Inl e, w') \<Rightarrow> (Inl e, r1, w'))))"

definition perform_final_decode :: "request \<Rightarrow> world \<Rightarrow> (exn + bool) \<times> request \<times> world" where
  "perform_final_decode r w =
     (let r1 = r\<lparr>url := decode_url (uri r)\<rparr>;
          r2 = r1\<lparr>varibles := parse_form_elements (parse_form_elements (varibles r1) (uri r1)) (body r1)\<rparr>
      in case read_cookies r2 w of
           (Inl e, r3, w') \<Rightarrow> (Inl e, r3, w')
         | (Inr _, r3, w') \<Rightarrow> (Inr True, set_url_elements (split_slash (url r3)) r3, w'))"

section \<open>The loop\<close>

text \<open>The answer with the unread characters, the parser, the request and the world.\<close>

fun parse :: "string \<Rightarrow> pstate \<Rightarrow> request \<Rightarrow> world \<Rightarrow>
    (exn + tribool \<times> string) \<times> pstate \<times> request \<times> world" where
  "parse [] st r w = (Inr (Indeterminate, []), st, r, w)"
| "parse (c # cs) st r w =
     (case consume st r c of
        (Inl e, st', r') \<Rightarrow> (Inl e, st', r', w)
      | (Inr TTrue, st', r') \<Rightarrow>
          (case perform_final_decode r' w of
             (Inl e, r'', w') \<Rightarrow> (Inl e, st', r'', w')
           | (Inr _, r'', w') \<Rightarrow> (Inr (TTrue, cs), st', r'', w'))
      | (Inr TFalse, st', r') \<Rightarrow> (Inr (TFalse, cs), st', r', w)
      | (Inr Indeterminate, st', r') \<Rightarrow> parse cs st' r' w)"

text \<open>A buffer after another: what \<open>handle_read\<close> does while the answer is indeterminate.\<close>

fun parse_chunks :: "string list \<Rightarrow> pstate \<Rightarrow> request \<Rightarrow> world \<Rightarrow>
    (exn + tribool \<times> string) \<times> pstate \<times> request \<times> world" where
  "parse_chunks [] st r w = (Inr (Indeterminate, []), st, r, w)"
| "parse_chunks (b # bs) st r w =
     (case parse b st r w of
        (Inr (Indeterminate, _), st', r', w') \<Rightarrow> parse_chunks bs st' r' w'
      | (Inr (t, rest), st', r', w') \<Rightarrow> (Inr (t, rest @ concat bs), st', r', w')
      | (Inl e, st', r', w') \<Rightarrow> (Inl e, st', r', w'))"

end
