(* ===== verification/Request_Correct.thy ===== *)
theory Request_Correct
  imports Request
begin

text \<open>
  What the request parser guarantees: its answer does not depend on how the bytes are cut into
  buffers, an accepted request is well formed, and a request that is written out is read back.
\<close>

section \<open>Buffers\<close>

lemma parse_append:
  "parse (a @ b) st r w =
     (case parse a st r w of
        (Inr (Indeterminate, _), st', r', w') \<Rightarrow> parse b st' r' w'
      | (Inr (t, rest), st', r', w') \<Rightarrow> (Inr (t, rest @ b), st', r', w')
      | (Inl e, st', r', w') \<Rightarrow> (Inl e, st', r', w'))"
proof (induction a arbitrary: st r)
  case (Cons c a)
  then show ?case
    by (auto split: prod.splits sum.splits tribool.splits)
qed simp

text \<open>
  The buffers in which a request arrives do not matter: reading them one after the other
  gives the answer, the request, the world and the unread bytes that reading their
  concatenation gives.
\<close>

theorem parse_chunks_concat: "parse_chunks bs st r w = parse (concat bs) st r w"
proof (induction bs arbitrary: st r w)
  case (Cons b bs)
  then show ?case
    by (auto simp: parse_append split: prod.splits sum.splits tribool.splits)
qed simp

text \<open>The automaton alone: \<open>runs s st r st' r'\<close> says that it eats \<open>s\<close> without an answer.\<close>

fun runs :: "string \<Rightarrow> pstate \<Rightarrow> request \<Rightarrow> pstate \<Rightarrow> request \<Rightarrow> bool" where
  "runs [] st r st' r' = (st = st' \<and> r = r')"
| "runs (c # s) st r st' r' =
     (case consume st r c of
        (Inr Indeterminate, st1, r1) \<Rightarrow> runs s st1 r1 st' r'
      | _ \<Rightarrow> False)"

lemma runs_parse: "runs s st r st' r' \<Longrightarrow> parse (s @ t) st r w = parse t st' r' w"
  by (induction s arbitrary: st r) (auto split: prod.splits sum.splits tribool.splits)

lemma runs_append: "runs s st r st1 r1 \<Longrightarrow> runs t st1 r1 st2 r2 \<Longrightarrow> runs (s @ t) st r st2 r2"
  by (induction s arbitrary: st r) (auto split: prod.splits sum.splits tribool.splits)

lemma runs_step: "consume st r c = (Inr Indeterminate, st1, r1) \<Longrightarrow> runs t st1 r1 st2 r2 \<Longrightarrow> runs (c # t) st r st2 r2"
  by simp

section \<open>Accepted requests are well formed\<close>

abbreviation token :: "string \<Rightarrow> bool" where
  "token s \<equiv> list_all (\<lambda>c. \<not> bad_token_char c) s"

abbreviation visible :: "string \<Rightarrow> bool" where
  "visible s \<equiv> list_all (\<lambda>c. \<not> is_ctl c \<and> c \<noteq> CHR '' '') s"

definition headers_ok :: "(string, string) smap \<Rightarrow> bool" where
  "headers_ok m = (map_ok m \<and> (\<forall>k \<in> map_keys m. to_upper k = k))"

definition parser_ok :: "pstate \<Rightarrow> request \<Rightarrow> bool" where
  "parser_ok st r = (st \<noteq> UriStart \<and> token (req_method r) \<and> (st \<noteq> MethodStart \<longrightarrow> req_method r \<noteq> []) \<and>
     visible (uri r) \<and> headers_ok (headers r) \<and> req_user r = None \<and> varibles r = [] \<and>
     (if st = ReadingBody then length (body r) < unat (content_length r) \<and> req_method r = ''POST'' \<and>
        get_header_uint r ''CONTENT-LENGTH'' = Some (content_length r)
      else body r = []))"

definition request_ok :: "request \<Rightarrow> bool" where
  "request_ok r = (token (req_method r) \<and> req_method r \<noteq> [] \<and> visible (uri r) \<and> headers_ok (headers r) \<and>
     length (body r) = unat (content_length r) \<and>
     (if req_method r = ''POST'' then get_header_uint r ''CONTENT-LENGTH'' = Some (content_length r)
      else body r = []))"

lemma headers_ok_set [simp]: "headers_ok m \<Longrightarrow> headers_ok (map_set (to_upper n) v m)"
  by (auto simp: headers_ok_def)

lemma map_keys_Nil [simp]: "map_keys [] = {}"
  by (simp add: map_keys_def)

lemma parser_ok_new: "parser_ok MethodStart new_request"
  by (simp add: parser_ok_def new_request_def headers_ok_def)

lemma store_header_simps [simp]:
  "req_method (store_header r) = req_method r" "uri (store_header r) = uri r"
  "body (store_header r) = body r" "req_user (store_header r) = req_user r"
  "varibles (store_header r) = varibles r"
  "headers_ok (headers r) \<Longrightarrow> headers_ok (headers (store_header r))"
  by (simp_all add: store_header_def)

lemma clear_current_header_simps [simp]:
  "req_method (clear_current_header r) = req_method r" "uri (clear_current_header r) = uri r"
  "body (clear_current_header r) = body r" "req_user (clear_current_header r) = req_user r"
  "varibles (clear_current_header r) = varibles r" "headers (clear_current_header r) = headers r"
  "content_length (clear_current_header r) = content_length r"
  "get_header_uint (clear_current_header r) n = get_header_uint r n"
  by (simp_all add: clear_current_header_def get_header_uint_def)

lemma get_header_uint_update [simp]:
  "get_header_uint (r\<lparr>content_length := n\<rparr>) h = get_header_uint r h"
  "get_header_uint (r\<lparr>body := b\<rparr>) h = get_header_uint r h"
  by (simp_all add: get_header_uint_def)

lemma consume_newline_3_ok:
  assumes "parser_ok ExpectingNewline3 r" "consume_expecting_newline_3 r c = (res, st', r')"
  shows "(res = Inr Indeterminate \<longrightarrow> parser_ok st' r') \<and>
    (res = Inr TTrue \<longrightarrow> request_ok r' \<and> req_user r' = None \<and> varibles r' = [])"
  using assms
  by (auto simp: parser_ok_def request_ok_def Let_def unat_gt_0
        split: if_splits option.splits)

lemma consume_reading_body_ok:
  assumes "parser_ok ReadingBody r" "consume_reading_body r c = (res, st', r')"
  shows "(res = Inr Indeterminate \<longrightarrow> parser_ok st' r') \<and>
    (res = Inr TTrue \<longrightarrow> request_ok r' \<and> req_user r' = None \<and> varibles r' = [])"
proof (cases "unat (content_length r) = Suc (length (body r))")
  case True
  with assms show ?thesis by (auto simp: parser_ok_def request_ok_def Let_def)
next
  case False
  with assms show ?thesis by (auto simp: parser_ok_def request_ok_def Let_def)
qed

lemma consume_TTrue:
  "consume st r c = (Inr TTrue, st', r') \<Longrightarrow> st = ExpectingNewline3 \<or> st = ReadingBody"
  by (cases st) (auto simp: Let_def split: if_split_asm)

lemma consume_head_ok:
  assumes "parser_ok st r" "consume st r c = (Inr Indeterminate, st', r')"
    "st \<noteq> ExpectingNewline3" "st \<noteq> ReadingBody"
  shows "parser_ok st' r'"
  using assms by (cases st) (auto simp: parser_ok_def Let_def split: if_split_asm)

lemma consume_ok:
  assumes "parser_ok st r" "consume st r c = (res, st', r')"
  shows "(res = Inr Indeterminate \<longrightarrow> parser_ok st' r') \<and>
    (res = Inr TTrue \<longrightarrow> request_ok r' \<and> req_user r' = None \<and> varibles r' = [])"
proof -
  consider "st = ExpectingNewline3" | "st = ReadingBody"
    | "st \<noteq> ExpectingNewline3" "st \<noteq> ReadingBody" by blast
  then show ?thesis
  proof cases
    case 1
    show ?thesis
      by (rule consume_newline_3_ok) (use 1 assms in \<open>simp_all only: consume.simps\<close>)
  next
    case 2
    show ?thesis
      by (rule consume_reading_body_ok) (use 2 assms in \<open>simp_all only: consume.simps\<close>)
  next
    case 3
    with assms consume_head_ok consume_TTrue show ?thesis by blast
  qed
qed

lemma request_ok_update [simp]:
  "request_ok (r\<lparr>url := x\<rparr>) = request_ok r" "request_ok (r\<lparr>varibles := vs\<rparr>) = request_ok r"
  "request_ok (r\<lparr>req_user := u\<rparr>) = request_ok r"
  "request_ok (r\<lparr>num_url_elements := n, u5 := e5, u4 := e4, u3 := e3, u2 := e2, u1 := e1\<rparr>) = request_ok r"
  by (simp_all add: request_ok_def get_header_uint_def)

lemma set_url_elements_ok [simp]: "request_ok (set_url_elements es r) = request_ok r"
  by (simp add: set_url_elements_def Let_def)

lemma read_cookies_ok: "read_cookies r w = (res, r', w') \<Longrightarrow> request_ok r' = request_ok r"
  by (auto simp: read_cookies_def Let_def split: if_splits prod.splits sum.splits exn.splits)

lemma perform_final_decode_ok:
  assumes "perform_final_decode r w = (res, r', w')" "request_ok r"
  shows "request_ok r'"
proof -
  let ?r = "r\<lparr>url := decode_url (uri r),
    varibles := parse_form_elements (parse_form_elements (varibles r) (uri r)) (body r)\<rparr>"
  obtain res3 r3 w3 where c: "read_cookies ?r w = (res3, r3, w3)" by (cases "read_cookies ?r w")
  have "request_ok ?r = request_ok r" by (simp add: request_ok_def get_header_uint_def)
  with assms(2) read_cookies_ok [OF c] have "request_ok r3" by simp
  with assms(1) c show ?thesis
    by (auto simp: perform_final_decode_def split: sum.splits)
qed

lemma parse_ok:
  assumes "parser_ok st r" "parse s st r w = (Inr (TTrue, rest), st', r', w')"
  shows "request_ok r' \<and> (\<exists>used. s = used @ rest)"
  using assms
proof (induction s arbitrary: st r)
  case (Cons c s)
  obtain res st1 r1 where c: "consume st r c = (res, st1, r1)" by (cases "consume st r c")
  note ok = consume_ok [OF Cons.prems(1) c]
  show ?case
  proof (cases res)
    case (Inl e)
    with Cons.prems(2) c show ?thesis by simp
  next
    case (Inr t)
    show ?thesis
    proof (cases t)
      case TTrue
      obtain res2 r2 w2 where d: "perform_final_decode r1 w = (res2, r2, w2)"
        by (cases "perform_final_decode r1 w")
      have "request_ok r1" using ok Inr TTrue by blast
      then have "request_ok r2" by (rule perform_final_decode_ok [OF d])
      with Cons.prems(2) c Inr TTrue d show ?thesis by (auto split: sum.splits)
    next
      case Indeterminate
      have "parser_ok st1 r1" using ok Inr Indeterminate by blast
      moreover have "parse s st1 r1 w = (Inr (TTrue, rest), st', r', w')"
        using Cons.prems(2) c Inr Indeterminate by simp
      ultimately have "request_ok r' \<and> (\<exists>used. s = used @ rest)" by (rule Cons.IH)
      then show ?thesis by (metis append_Cons)
    qed (use Cons.prems(2) c Inr in simp)
  qed
qed simp

lemma parse_keeps_ok:
  "parser_ok st r \<Longrightarrow> parse s st r w = (Inr (Indeterminate, rest), st', r', w') \<Longrightarrow> parser_ok st' r'"
proof (induction s arbitrary: st r)
  case (Cons c s)
  obtain res st1 r1 where c: "consume st r c = (res, st1, r1)" by (cases "consume st r c")
  from consume_ok [OF Cons.prems(1) c] Cons.prems(2) c Cons.IH show ?case
    by (auto split: prod.splits sum.splits tribool.splits simp del: consume.simps)
qed simp

text \<open>
  C2: whatever bytes arrive, a request that is accepted has a method of token characters, a
  URI without control characters and blanks, header names in capitals (each stored once), and a
  body that has exactly the announced length (none at all unless the method is POST); the
  bytes after it are not read.
\<close>

theorem accepted_request_well_formed:
  assumes "parse s MethodStart new_request w = (Inr (TTrue, rest), st, r, w')"
  shows "request_ok r \<and> (\<exists>used. s = used @ rest)"
  by (rule parse_ok [OF parser_ok_new assms])

definition sample_get :: string where
  "sample_get = ''GET /a?b=c HTTP/1.0'' @ [CHR 0x0D, CHR 0x0A, CHR 0x0D, CHR 0x0A] @ ''x''"

theorem accepted_request_well_formed_witness:
  "request_ok (fst (snd (snd (parse sample_get MethodStart new_request empty_world))))"
proof -
  have "fst (parse sample_get MethodStart new_request empty_world) = Inr (TTrue, ''x'')"
    by code_simp
  then obtain st r w' where
    p: "parse sample_get MethodStart new_request empty_world = (Inr (TTrue, ''x''), st, r, w')"
    by (cases "parse sample_get MethodStart new_request empty_world") auto
  from accepted_request_well_formed [OF this] p show ?thesis by simp
qed

section \<open>Reading back what was written\<close>

definition crlf :: string where
  "crlf = [CHR 0x0D, CHR 0x0A]"

definition header_line :: "string \<times> string \<Rightarrow> string" where
  "header_line h = fst h @ '': '' @ snd h @ crlf"

definition header_ok :: "string \<times> string \<Rightarrow> bool" where
  "header_ok h = (fst h \<noteq> [] \<and> token (fst h) \<and> list_all (\<lambda>c. \<not> is_ctl c) (snd h))"

text \<open>The headers a list of lines is stored as: a later line replaces an earlier one of that name.\<close>

definition stored_headers :: "(string \<times> string) list \<Rightarrow> (string, string) smap" where
  "stored_headers hs =
     (if hs = [] then [([], [])]
      else fold (\<lambda>(n, v). map_set (to_upper (decode_str n)) (decode_str v)) hs [])"

definition render_request ::
    "string \<Rightarrow> string \<Rightarrow> string \<Rightarrow> string \<Rightarrow> (string \<times> string) list \<Rightarrow> string \<Rightarrow> string" where
  "render_request m u major minor hs b =
     m @ '' '' @ u @ '' HTTP/'' @ major @ ''.'' @ minor @ crlf @
     concat (map header_line hs) @ crlf @ b"

definition dec_word :: "string \<Rightarrow> 32 word" where
  "dec_word s = foldl push_digit 0 s"

lemma special_chars [char_class]:
  "is_tspecial (CHR '' '')" "is_tspecial (CHR 0x09)" "is_tspecial (CHR '':'')" "is_ctl (CHR 0x0D)"
  by (simp_all add: is_tspecial_def is_ctl_def char_int_def)

lemma token_char_facts:
  assumes "\<not> bad_token_char c"
  shows "c \<noteq> CHR '' ''" "c \<noteq> CHR 0x0D" "c \<noteq> CHR '':''" "c \<noteq> CHR 0x09"
  using assms special_chars by blast+

lemma not_ctl_facts: "\<not> is_ctl c \<Longrightarrow> c \<noteq> CHR 0x0D"
  using special_chars by blast

lemma runs_method:
  "token s \<Longrightarrow> runs s Method r Method (r\<lparr>req_method := req_method r @ s\<rparr>)"
proof (induction s arbitrary: r)
  case (Cons c s)
  then have c: "\<not> bad_token_char c" by simp
  with token_char_facts [OF c] Cons.IH [of "r\<lparr>req_method := req_method r @ [c]\<rparr>"] Cons.prems
  show ?case by simp
qed simp

lemma runs_uri: "visible s \<Longrightarrow> runs s Uri r Uri (r\<lparr>uri := uri r @ s\<rparr>)"
proof (induction s arbitrary: r)
  case (Cons c s)
  with Cons.IH [of "r\<lparr>uri := uri r @ [c]\<rparr>"] show ?case by simp
qed simp

lemma is_digit_facts: "is_digit c \<Longrightarrow> c \<noteq> CHR ''.'' \<and> c \<noteq> CHR 0x0D"
proof -
  have "\<not> is_digit (CHR ''.'')" "\<not> is_digit (CHR 0x0D)" by (simp_all add: is_digit_def char_int_def)
  then show "is_digit c \<Longrightarrow> c \<noteq> CHR ''.'' \<and> c \<noteq> CHR 0x0D" by blast
qed

lemma runs_major:
  "list_all is_digit s \<Longrightarrow>
   runs s HttpVersionMajor r HttpVersionMajor (r\<lparr>http_version_major := foldl push_digit (http_version_major r) s\<rparr>)"
proof (induction s arbitrary: r)
  case (Cons c s)
  with Cons.IH [of "r\<lparr>http_version_major := push_digit (http_version_major r) c\<rparr>"] is_digit_facts [of c]
  show ?case by simp
qed simp

lemma runs_minor:
  "list_all is_digit s \<Longrightarrow>
   runs s HttpVersionMinor r HttpVersionMinor (r\<lparr>http_version_minor := foldl push_digit (http_version_minor r) s\<rparr>)"
proof (induction s arbitrary: r)
  case (Cons c s)
  with Cons.IH [of "r\<lparr>http_version_minor := push_digit (http_version_minor r) c\<rparr>"] is_digit_facts [of c]
  show ?case by simp
qed simp

lemma runs_header_name:
  "token s \<Longrightarrow> runs s HeaderName r HeaderName (r\<lparr>current_header_name := current_header_name r @ s\<rparr>)"
proof (induction s arbitrary: r)
  case (Cons c s)
  then have c: "\<not> bad_token_char c" by simp
  with token_char_facts [OF c] Cons.IH [of "r\<lparr>current_header_name := current_header_name r @ [c]\<rparr>"] Cons.prems
  show ?case by simp
qed simp

lemma runs_header_value:
  "list_all (\<lambda>c. \<not> is_ctl c) s \<Longrightarrow>
   runs s HeaderValue r HeaderValue (r\<lparr>current_header_value := current_header_value r @ s\<rparr>)"
proof (induction s arbitrary: r)
  case (Cons c s)
  then have "c \<noteq> CHR 0x0D" by (intro not_ctl_facts) simp
  with Cons.IH [of "r\<lparr>current_header_value := current_header_value r @ [c]\<rparr>"] Cons.prems show ?case by simp
qed simp

text \<open>One header line: the entry that was pending is stored, the new one becomes pending.\<close>

definition flush_header :: "request \<Rightarrow> request" where
  "flush_header r = (if current_header_name r \<noteq> [] then clear_current_header (store_header r) else r)"

lemma runs_header_line:
  assumes "header_ok (n, v)" "current_header_value (flush_header r) = []" "current_header_name (flush_header r) = []"
  shows "runs (header_line (n, v)) HeaderLineStart r HeaderLineStart
    ((flush_header r)\<lparr>current_header_name := n, current_header_value := v\<rparr>)"
proof -
  obtain c t where n: "n = c # t" using assms(1) by (cases n) (auto simp: header_ok_def)
  with assms(1) have c: "\<not> bad_token_char c" and t: "token t" and v: "list_all (\<lambda>c. \<not> is_ctl c) v"
    by (auto simp: header_ok_def)
  let ?r1 = "(flush_header r)\<lparr>current_header_name := [c]\<rparr>"
  let ?r2 = "?r1\<lparr>current_header_name := c # t\<rparr>"
  have "consume HeaderLineStart r c = (Inr Indeterminate, HeaderName, ?r1)"
    using c token_char_facts [OF c] assms(3) by (auto simp: flush_header_def Let_def)
  moreover have "runs t HeaderName ?r1 HeaderName ?r2"
    using runs_header_name [OF t, of ?r1] by simp
  moreover have "runs '': '' HeaderName ?r2 HeaderValue ?r2"
    by simp
  moreover have "runs v HeaderValue ?r2 HeaderValue (?r2\<lparr>current_header_value := v\<rparr>)"
    using runs_header_value [OF v, of ?r2] assms(2) by simp
  moreover have "runs crlf HeaderValue (?r2\<lparr>current_header_value := v\<rparr>) HeaderLineStart (?r2\<lparr>current_header_value := v\<rparr>)"
    by (simp add: crlf_def)
  ultimately have "runs (c # (t @ ('': '' @ (v @ crlf)))) HeaderLineStart r HeaderLineStart (?r2\<lparr>current_header_value := v\<rparr>)"
    by (blast intro: runs_step runs_append)
  with n show ?thesis by (simp add: header_line_def)
qed

definition after_line :: "string \<times> string \<Rightarrow> request \<Rightarrow> request" where
  "after_line h r = (flush_header r)\<lparr>current_header_name := fst h, current_header_value := snd h\<rparr>"

definition pending_ok :: "request \<Rightarrow> bool" where
  "pending_ok r = (current_header_name r = [] \<longrightarrow> current_header_value r = [])"

lemma flush_header_clear [simp]:
  "pending_ok r \<Longrightarrow> current_header_name (flush_header r) = []"
  "pending_ok r \<Longrightarrow> current_header_value (flush_header r) = []"
  by (auto simp: flush_header_def pending_ok_def clear_current_header_def)

lemma after_line_pending: "header_ok h \<Longrightarrow> pending_ok (after_line h r)"
  by (simp add: pending_ok_def after_line_def header_ok_def)

lemma runs_header_lines:
  "\<forall>h \<in> set hs. header_ok h \<Longrightarrow> pending_ok r \<Longrightarrow>
   runs (concat (map header_line hs)) HeaderLineStart r HeaderLineStart (fold after_line hs r)"
proof (induction hs arbitrary: r)
  case (Cons h hs)
  obtain n v where h: "h = (n, v)" by fastforce
  have "runs (header_line h) HeaderLineStart r HeaderLineStart (after_line h r)"
    using runs_header_line [of n v r] Cons.prems h by (simp add: after_line_def)
  moreover have "runs (concat (map header_line hs)) HeaderLineStart (after_line h r) HeaderLineStart
      (fold after_line hs (after_line h r))"
    using Cons.IH [OF _ after_line_pending [of h r]] Cons.prems by simp
  ultimately show ?case by (simp add: runs_append)
qed simp

lemma flush_after_line:
  "header_ok h \<Longrightarrow> flush_header (after_line h r) =
     (flush_header r)\<lparr>current_header_name := [], current_header_value := [],
        headers := map_set (to_upper (decode_str (fst h))) (decode_str (snd h)) (headers (flush_header r))\<rparr>"
  by (simp add: after_line_def flush_header_def [of "r\<lparr>current_header_name := a, current_header_value := b\<rparr>" for r a b]
      header_ok_def store_header_def clear_current_header_def)

lemma clear_idle:
  "current_header_name r = [] \<Longrightarrow> current_header_value r = [] \<Longrightarrow>
   r\<lparr>current_header_name := [], current_header_value := []\<rparr> = (r :: request)"
  by (cases r) simp

lemma flush_after_lines:
  "\<forall>h \<in> set hs. header_ok h \<Longrightarrow> pending_ok r \<Longrightarrow> flush_header (fold after_line hs r) =
     (flush_header r)\<lparr>headers := fold (\<lambda>(n, v). map_set (to_upper (decode_str n)) (decode_str v)) hs
        (headers (flush_header r))\<rparr>"
proof (induction hs arbitrary: r)
  case (Cons h hs)
  have "(flush_header r)\<lparr>current_header_name := [], current_header_value := []\<rparr> = flush_header r"
    using Cons.prems(2) by (simp add: clear_idle)
  then show ?case
    using Cons.IH [OF _ after_line_pending [of h r]] Cons.prems
    by (simp add: flush_after_line split_def)
qed simp

text \<open>The request after the header part of a rendered request, before the last newline.\<close>

definition head_request ::
    "string \<Rightarrow> string \<Rightarrow> string \<Rightarrow> string \<Rightarrow> (string \<times> string) list \<Rightarrow> string \<Rightarrow> request" where
  "head_request m u major minor hs b =
     new_request\<lparr>req_method := m, uri := u, http_version_major := dec_word major,
       http_version_minor := dec_word minor, headers := stored_headers hs, body := b,
       content_length := of_nat (length b)\<rparr>"

definition line_ok :: "string \<Rightarrow> string \<Rightarrow> string \<Rightarrow> string \<Rightarrow> bool" where
  "line_ok m u major minor = (m \<noteq> [] \<and> token m \<and> visible u \<and>
     major \<noteq> [] \<and> list_all is_digit major \<and> minor \<noteq> [] \<and> list_all is_digit minor)"

lemma runs_request_line:
  assumes "line_ok m u major minor"
  shows "runs (m @ '' '' @ u @ '' HTTP/'' @ major @ ''.'' @ minor @ crlf) MethodStart new_request HeaderLineStart
    (new_request\<lparr>req_method := m, uri := u, http_version_major := dec_word major,
       http_version_minor := dec_word minor\<rparr>)"
proof -
  obtain c t a p d q where m: "m = c # t" and major: "major = a # p" and minor: "minor = d # q"
    using assms by (cases m; cases major; cases minor) (auto simp: line_ok_def)
  let ?r1 = "new_request\<lparr>req_method := m\<rparr>"
  let ?r2 = "?r1\<lparr>uri := u\<rparr>"
  let ?r3 = "?r2\<lparr>http_version_major := dec_word major\<rparr>"
  let ?r4 = "?r3\<lparr>http_version_minor := dec_word minor\<rparr>"
  have c: "\<not> bad_token_char c" and t: "token t" and u: "visible u"
    and digits: "is_digit a" "list_all is_digit p" "is_digit d" "list_all is_digit q"
    using assms m major minor by (auto simp: line_ok_def)
  have "consume MethodStart new_request c = (Inr Indeterminate, Method, new_request\<lparr>req_method := [c]\<rparr>)"
    using c by (simp add: new_request_def)
  moreover have "runs t Method (new_request\<lparr>req_method := [c]\<rparr>) Method ?r1"
    using runs_method [OF t, of "new_request\<lparr>req_method := [c]\<rparr>"] m by simp
  ultimately have 1: "runs m MethodStart new_request Method ?r1"
    unfolding m by (rule runs_step)
  have 2: "runs '' '' Method ?r1 Uri ?r1" by simp
  have 3: "runs u Uri ?r1 Uri ?r2" using runs_uri [OF u, of ?r1] by (simp add: new_request_def)
  have 4: "runs '' HTTP/'' Uri ?r2 HttpVersionMajorStart ?r2" by (simp add: new_request_def)
  have "consume HttpVersionMajorStart ?r2 a =
      (Inr Indeterminate, HttpVersionMajor, ?r2\<lparr>http_version_major := push_digit 0 a\<rparr>)"
    using digits by (simp add: new_request_def)
  moreover have "runs p HttpVersionMajor (?r2\<lparr>http_version_major := push_digit 0 a\<rparr>) HttpVersionMajor ?r3"
    using runs_major [OF digits(2), of "?r2\<lparr>http_version_major := push_digit 0 a\<rparr>"] major
    by (simp add: dec_word_def)
  ultimately have 5: "runs major HttpVersionMajorStart ?r2 HttpVersionMajor ?r3"
    unfolding major by (rule runs_step)
  have 6: "runs ''.'' HttpVersionMajor ?r3 HttpVersionMinorStart ?r3" by simp
  have "consume HttpVersionMinorStart ?r3 d =
      (Inr Indeterminate, HttpVersionMinor, ?r3\<lparr>http_version_minor := push_digit 0 d\<rparr>)"
    using digits by (simp add: new_request_def)
  moreover have "runs q HttpVersionMinor (?r3\<lparr>http_version_minor := push_digit 0 d\<rparr>) HttpVersionMinor ?r4"
    using runs_minor [OF digits(4), of "?r3\<lparr>http_version_minor := push_digit 0 d\<rparr>"] minor
    by (simp add: dec_word_def)
  ultimately have 7: "runs minor HttpVersionMinorStart ?r3 HttpVersionMinor ?r4"
    unfolding minor by (rule runs_step)
  have 8: "runs crlf HttpVersionMinor ?r4 HeaderLineStart ?r4" by (simp add: crlf_def)
  show ?thesis
    by (intro runs_append [OF 1] runs_append [OF 2] runs_append [OF 3] runs_append [OF 4]
        runs_append [OF 5] runs_append [OF 6] runs_append [OF 7] 8)
qed

lemma header_part_end:
  assumes "\<forall>h \<in> set hs. header_ok h" "pending_ok r" "headers r = []" "current_header_name r = []"
  shows "clear_current_header (store_header (fold after_line hs r)) = r\<lparr>headers := stored_headers hs\<rparr>"
proof -
  have cur: "current_header_value r = []" using assms(2,4) by (simp add: pending_ok_def)
  show ?thesis
  proof (cases hs rule: rev_cases)
    case Nil
    with assms cur show ?thesis
      by (cases r) (simp add: store_header_def clear_current_header_def stored_headers_def)
  next
    case (snoc ys h)
    then have "current_header_name (fold after_line hs r) \<noteq> []"
      using assms(1) by (simp add: after_line_def header_ok_def)
    then have "clear_current_header (store_header (fold after_line hs r)) = flush_header (fold after_line hs r)"
      by (simp add: flush_header_def)
    also have "\<dots> = (flush_header r)\<lparr>headers := stored_headers hs\<rparr>"
      using flush_after_lines [OF assms(1,2)] snoc assms(3,4)
      by (simp add: stored_headers_def flush_header_def)
    finally show ?thesis using assms(4) by (simp add: flush_header_def)
  qed
qed

lemma clear_content_length:
  "clear_current_header (r\<lparr>content_length := n\<rparr>) = (clear_current_header r)\<lparr>content_length := n\<rparr>"
  by (simp add: clear_current_header_def)

lemma newline_3_result:
  assumes "(if req_method r = ''POST'' then get_header_uint (store_header r) ''CONTENT-LENGTH'' else Some 0) = Some n"
    "clear_current_header (store_header r) = r'" "n = 0 \<longleftrightarrow> none"
  shows "consume ExpectingNewline3 r (CHR 0x0A) =
    (if none then (Inr TTrue, ExpectingNewline3, r'\<lparr>content_length := n\<rparr>)
     else (Inr Indeterminate, ReadingBody, r'\<lparr>content_length := n\<rparr>))"
  using assms by (auto simp: Let_def clear_content_length)

definition finish :: "pstate \<Rightarrow> request \<Rightarrow> string \<Rightarrow> world \<Rightarrow>
    (exn + tribool \<times> string) \<times> pstate \<times> request \<times> world" where
  "finish st r rest w =
     (case perform_final_decode r w of
        (Inl e, r', w') \<Rightarrow> (Inl e, st, r', w')
      | (Inr _, r', w') \<Rightarrow> (Inr (TTrue, rest), st, r', w'))"

lemma parse_body:
  "b \<noteq> [] \<Longrightarrow> unat (content_length r) = length (body r) + length b \<Longrightarrow>
   parse (b @ rest) ReadingBody r w = finish ReadingBody (r\<lparr>body := body r @ b\<rparr>) rest w"
proof (induction b arbitrary: r)
  case (Cons c b)
  show ?case
  proof (cases "b = []")
    case True
    with Cons.prems show ?thesis by (simp add: finish_def Let_def)
  next
    case False
    with Cons.prems have "length b > 0" by simp
    with Cons.prems(2) have "consume ReadingBody r c = (Inr Indeterminate, ReadingBody, r\<lparr>body := body r @ [c]\<rparr>)"
      by (simp add: Let_def)
    with Cons.IH [of "r\<lparr>body := body r @ [c]\<rparr>"] False Cons.prems show ?thesis by simp
  qed
qed simp

lemma parse_rendered:
  assumes "line_ok m u major minor" "\<forall>h \<in> set hs. header_ok h"
    and len: "length b < 2 ^ 32"
    and post: "m = ''POST'' \<Longrightarrow> map_find (stored_headers hs) ''CONTENT-LENGTH'' = Some (show_nat (length b))"
    and other: "m \<noteq> ''POST'' \<Longrightarrow> b = []"
  shows "parse (render_request m u major minor hs b @ rest) MethodStart new_request w =
    finish (if b = [] then ExpectingNewline3 else ReadingBody) (head_request m u major minor hs b) rest w"
proof -
  let ?r0 = "new_request\<lparr>req_method := m, uri := u, http_version_major := dec_word major,
      http_version_minor := dec_word minor\<rparr>"
  let ?r1 = "fold after_line hs ?r0"
  let ?r2 = "?r0\<lparr>headers := stored_headers hs, content_length := of_nat (length b)\<rparr>"
  have idle: "pending_ok ?r0" "headers ?r0 = []" "current_header_name ?r0 = []" "body ?r0 = []"
    by (simp_all add: pending_ok_def new_request_def)
  have "runs (concat (map header_line hs) @ [CHR 0x0D]) HeaderLineStart ?r0 ExpectingNewline3 ?r1"
    by (rule runs_append [OF runs_header_lines]) (simp_all add: assms(2) idle)
  with runs_request_line [OF assms(1)]
  have "runs ((m @ '' '' @ u @ '' HTTP/'' @ major @ ''.'' @ minor @ crlf) @
      concat (map header_line hs) @ [CHR 0x0D]) MethodStart new_request ExpectingNewline3 ?r1"
    by (rule runs_append)
  from runs_parse [OF this, of "CHR 0x0A # b @ rest" w]
  have "parse (render_request m u major minor hs b @ rest) MethodStart new_request w =
      parse (CHR 0x0A # b @ rest) ExpectingNewline3 ?r1 w"
    by (simp add: render_request_def crlf_def)
  moreover
  have cs: "clear_current_header (store_header ?r1) = ?r0\<lparr>headers := stored_headers hs\<rparr>"
    by (rule header_part_end) (simp_all add: assms(2) idle)
  have "get_header_uint (store_header ?r1) ''CONTENT-LENGTH'' =
      get_header_uint (clear_current_header (store_header ?r1)) ''CONTENT-LENGTH''" by simp
  with cs have cl: "get_header_uint (store_header ?r1) ''CONTENT-LENGTH'' =
      (case map_find (stored_headers hs) ''CONTENT-LENGTH'' of Some v \<Rightarrow> lexical_cast_uint v | None \<Rightarrow> Some 0)"
    by (simp add: get_header_uint_def)
  have "req_method ?r1 = req_method (clear_current_header (store_header ?r1))" by simp
  with cs have meth: "req_method ?r1 = m" by simp
  have len': "(if req_method ?r1 = ''POST'' then get_header_uint (store_header ?r1) ''CONTENT-LENGTH'' else Some 0) =
      Some (of_nat (length b))"
  proof (cases "m = ''POST''")
    case True
    from post [OF this] len have "get_header_uint (store_header ?r1) ''CONTENT-LENGTH'' = Some (of_nat (length b))"
      by (simp add: cl)
    with meth True show ?thesis by (simp only: refl if_True)
  next
    case False
    with meth other show ?thesis by (simp only: if_False) simp
  qed
  have zero: "(of_nat (length b) :: 32 word) = 0 \<longleftrightarrow> b = []"
    using len by (auto simp: word_of_nat_eq_0_iff dest: dvd_imp_le)
  have cons: "consume ExpectingNewline3 ?r1 (CHR 0x0A) =
      (if b = [] then (Inr TTrue, ExpectingNewline3, ?r2) else (Inr Indeterminate, ReadingBody, ?r2))"
    by (rule newline_3_result [OF len' cs zero])
  have head: "head_request m u major minor hs b = ?r2\<lparr>body := b\<rparr>"
    by (simp add: head_request_def)
  have "parse (CHR 0x0A # b @ rest) ExpectingNewline3 ?r1 w =
      finish (if b = [] then ExpectingNewline3 else ReadingBody) (head_request m u major minor hs b) rest w"
  proof (cases "b = []")
    case True
    then have "?r2\<lparr>body := b\<rparr> = ?r2" by (simp add: new_request_def)
    with True cons head show ?thesis
      by (simp add: parse.simps(2) finish_def del: consume.simps)
  next
    case False
    then have "parse (b @ rest) ReadingBody ?r2 w = finish ReadingBody (?r2\<lparr>body := b\<rparr>) rest w"
      using parse_body [of b ?r2 rest w] len idle(4) by (simp add: unat_of_nat take_bit_nat_eq_self)
    with False cons head show ?thesis by (simp del: consume.simps)
  qed
  ultimately show ?thesis by simp
qed

text \<open>
  C1: a request that is written out is read back. From the bytes of a request line, header
  lines and a body whose length the \<open>Content-Length\<close> of a POST announces (other methods have no
  body), the parser makes the request with this method, URI and version, these headers (name
  in capitals, both decoded, the last line of a name counting) and this body, decodes it and
  leaves the bytes that follow unread.
\<close>

theorem written_request_is_read:
  assumes "line_ok m u major minor" "\<forall>h \<in> set hs. header_ok h"
    and len: "length b < 2 ^ 32"
    and post: "m = ''POST'' \<Longrightarrow> map_find (stored_headers hs) ''CONTENT-LENGTH'' = Some (show_nat (length b))"
    and other: "m \<noteq> ''POST'' \<Longrightarrow> b = []"
  shows "parse (render_request m u major minor hs b @ rest) MethodStart new_request w =
    finish (if b = [] then ExpectingNewline3 else ReadingBody) (head_request m u major minor hs b) rest w"
  using assms by (rule parse_rendered)

theorem written_request_is_read_witness:
  "parse (render_request ''POST'' ''/login'' ''1'' ''0'' [(''Content-Length'', ''2'')] ''ok'' @ ''x'')
     MethodStart new_request empty_world =
   finish ReadingBody (head_request ''POST'' ''/login'' ''1'' ''0'' [(''Content-Length'', ''2'')] ''ok'') ''x''
     empty_world"
proof -
  have "line_ok ''POST'' ''/login'' ''1'' ''0''"
    by (simp add: line_ok_def is_char_def is_ctl_def is_tspecial_def is_digit_def char_int_def)
  moreover have "\<forall>h \<in> set [(''Content-Length'', ''2'')]. header_ok h"
    by (simp add: header_ok_def is_char_def is_ctl_def is_tspecial_def char_int_def)
  moreover have "map_find (stored_headers [(''Content-Length'', ''2'')]) ''CONTENT-LENGTH'' =
      Some (show_nat (length ''ok''))"
    by code_simp
  ultimately show ?thesis
    using written_request_is_read [of "''POST''" "''/login''" "''1''" "''0''" "[(''Content-Length'', ''2'')]" "''ok''" "''x''" empty_world]
    by simp
qed

section \<open>Header lines that are not read\<close>

lemma parse_bad_content_length:
  assumes "line_ok ''POST'' u major minor" "\<forall>h \<in> set hs. header_ok h"
    and bad: "map_find (stored_headers hs) ''CONTENT-LENGTH'' = Some v" "lexical_cast_uint v = None"
  shows "fst (parse (render_request ''POST'' u major minor hs b) MethodStart new_request w) =
    Inl Bad_lexical_cast"
proof -
  let ?r0 = "new_request\<lparr>req_method := ''POST'', uri := u, http_version_major := dec_word major,
      http_version_minor := dec_word minor\<rparr>"
  let ?r1 = "fold after_line hs ?r0"
  have idle: "pending_ok ?r0" "headers ?r0 = []" "current_header_name ?r0 = []"
    by (simp_all add: pending_ok_def new_request_def)
  have "runs (concat (map header_line hs) @ [CHR 0x0D]) HeaderLineStart ?r0 ExpectingNewline3 ?r1"
    by (rule runs_append [OF runs_header_lines]) (simp_all add: assms(2) idle)
  with runs_request_line [OF assms(1)]
  have "runs ((''POST'' @ '' '' @ u @ '' HTTP/'' @ major @ ''.'' @ minor @ crlf) @
      concat (map header_line hs) @ [CHR 0x0D]) MethodStart new_request ExpectingNewline3 ?r1"
    by (rule runs_append)
  from runs_parse [OF this, of "CHR 0x0A # b" w]
  have p: "parse (render_request ''POST'' u major minor hs b) MethodStart new_request w =
      parse (CHR 0x0A # b) ExpectingNewline3 ?r1 w"
    by (simp add: render_request_def crlf_def)
  have cs: "clear_current_header (store_header ?r1) = ?r0\<lparr>headers := stored_headers hs\<rparr>"
    by (rule header_part_end) (simp_all add: assms(2) idle)
  have "headers (store_header ?r1) = stored_headers hs" "req_method ?r1 = ''POST''"
    using arg_cong [OF cs, of headers] arg_cong [OF cs, of req_method] by simp_all
  with bad have "consume ExpectingNewline3 ?r1 (CHR 0x0A) =
      (Inl Bad_lexical_cast, ExpectingNewline3, store_header ?r1)"
    by (simp add: Let_def get_header_uint_def)
  then show ?thesis by (simp add: p del: consume.simps)
qed

text \<open>
  A \<open>POST\<close> whose \<open>Content-Length\<close> is no 32-bit number does not get the answer "bad request":
  at the end of its headers the conversion throws out of the parser.
\<close>

theorem bad_content_length_throws:
  assumes "line_ok ''POST'' u major minor" "\<forall>h \<in> set hs. header_ok h"
    and bad: "map_find (stored_headers hs) ''CONTENT-LENGTH'' = Some v" "lexical_cast_uint v = None"
  shows "fst (parse (render_request ''POST'' u major minor hs b) MethodStart new_request w) =
    Inl Bad_lexical_cast"
  by (rule parse_bad_content_length [OF assms])

theorem bad_content_length_throws_witness:
  "fst (parse (render_request ''POST'' ''/'' ''1'' ''1'' [(''Content-Length'', ''many'')] []) MethodStart
     new_request empty_world) = Inl Bad_lexical_cast"
proof -
  have "line_ok ''POST'' ''/'' ''1'' ''1''"
    by (simp add: line_ok_def is_char_def is_ctl_def is_tspecial_def is_digit_def char_int_def)
  moreover have "\<forall>h \<in> set [(''Content-Length'', ''many'')]. header_ok h"
    by (simp add: header_ok_def is_char_def is_ctl_def is_tspecial_def char_int_def)
  moreover have "map_find (stored_headers [(''Content-Length'', ''many'')]) ''CONTENT-LENGTH'' = Some ''many''"
    by code_simp
  moreover have "lexical_cast_uint ''many'' = None"
    by (simp add: lexical_cast_uint_def scan_integer_def is_dec_def)
  ultimately show ?thesis by (rule bad_content_length_throws)
qed

text \<open>
  A header line that starts with a blank or a tab continues the value of the line before
  it (the text is appended without the blank), but only once a header has been stored, and a
  header is stored when the next one starts: a continuation of the first header line makes the
  request malformed.
\<close>

theorem header_continuation:
  assumes "header_ok (n, v)" "pending_ok r" "c = CHR '' '' \<or> c = CHR 0x09"
    and x: "x \<noteq> []" "visible x" "hd x \<noteq> CHR 0x09"
  shows "parse (header_line (n, v) @ c # x @ s) HeaderLineStart r w =
    (if headers r = [] \<and> current_header_name r = [] then
       (Inr (TFalse, x @ s), HeaderLineStart, after_line (n, v) r, w)
     else parse s HeaderValue ((after_line (n, v) r)\<lparr>current_header_value := v @ x\<rparr>) w)"
proof -
  let ?r = "after_line (n, v) r"
  have "parse (header_line (n, v) @ c # x @ s) HeaderLineStart r w = parse (c # x @ s) HeaderLineStart ?r w"
    using runs_parse [OF runs_header_line [OF assms(1)]] assms(2) by (simp add: after_line_def)
  moreover have "headers ?r = [] \<longleftrightarrow> headers r = [] \<and> current_header_name r = []"
    by (simp add: after_line_def flush_header_def store_header_def clear_current_header_def)
  moreover have "consume HeaderLineStart ?r c =
      (if headers ?r = [] then reject HeaderLineStart ?r else continue_at HeaderLws ?r)"
    using assms(3) special_chars by auto
  moreover have "parse (x @ s) HeaderLws ?r w = parse s HeaderValue (?r\<lparr>current_header_value := v @ x\<rparr>) w"
  proof -
    obtain d y where xd: "x = d # y" using x(1) by (cases x) auto
    have d: "\<not> is_ctl d" "d \<noteq> CHR '' ''" "d \<noteq> CHR 0x09" using x xd by auto
    have y: "list_all (\<lambda>c. \<not> is_ctl c) y" using x xd by (auto simp: list_all_iff)
    have "runs y HeaderValue (?r\<lparr>current_header_value := v @ [d]\<rparr>) HeaderValue
        (?r\<lparr>current_header_value := v @ x\<rparr>)"
      using runs_header_value [OF y, of "?r\<lparr>current_header_value := v @ [d]\<rparr>"] xd by simp
    then have "runs x HeaderLws ?r HeaderValue (?r\<lparr>current_header_value := v @ x\<rparr>)"
      using d not_ctl_facts [OF d(1)] xd by (simp add: after_line_def)
    then show ?thesis by (rule runs_parse)
  qed
  ultimately show ?thesis by (simp del: consume.simps)
qed

theorem header_continuation_witness:
  "fst (parse (header_line (''Accept'', ''text'') @ CHR '' '' # ''html'' @ crlf) HeaderLineStart new_request empty_world) =
   Inr (TFalse, ''html'' @ crlf)"
proof -
  have "header_ok (''Accept'', ''text'')" "visible ''html''"
    by (simp_all add: header_ok_def is_char_def is_ctl_def is_tspecial_def char_int_def)
  from header_continuation [OF this(1) _ _ _ this(2), of new_request "CHR '' ''" crlf empty_world]
  show ?thesis by (simp add: pending_ok_def new_request_def)
qed

end
