(* ===== verification/Request_Decode.thy ===== *)
theory Request_Decode
  imports Request_Correct
begin

text \<open>
  What the final decoding of a request gives: the path elements, the variables of the query
  string, and the user a cookie names.
\<close>

section \<open>Path elements\<close>

lemma char_int_int_char:
  "char_int (int_char i) = (let m = i mod 256 in if m < 128 then m else m - 256)"
proof -
  have "(of_char (int_char i) :: nat) = nat (i mod 256)"
    by (simp add: int_char_def of_char_of take_bit_eq_mod nat_less_iff)
  then show ?thesis by (simp add: char_int_def Let_def)
qed

lemma url_element_count_small: "1 \<le> n \<Longrightarrow> n \<le> 128 \<Longrightarrow> url_element_count n = min 5 (int n - 1)"
  by (auto simp: url_element_count_def char_int_int_char Let_def)

lemma url_element_count_negative:
  assumes "129 \<le> n" "n \<le> 256"
  shows "url_element_count n < 0"
proof (cases "n = 256")
  case True
  then show ?thesis by (simp add: url_element_count_def char_int_int_char)
next
  case False
  with assms have "int n mod 256 = int n" by simp
  moreover have "(int n - 257) mod 256 = (int n - 257 + 256) mod 256" by (rule mod_add_self2 [symmetric])
  with False assms have "(int n - 257) mod 256 = int n - 1" by simp
  ultimately have "int n mod 256 = int n" "(int n - 257) mod 256 = int n - 1" .
  then show ?thesis
    using False assms by (simp add: url_element_count_def char_int_int_char Let_def)
qed

lemma split_slash_nonempty [simp]: "split_slash s \<noteq> []"
  by (subst split_slash.simps) (simp add: Let_def)

definition element :: "request \<Rightarrow> nat \<Rightarrow> string" where
  "element r k = (if k = 1 then u1 r else if k = 2 then u2 r else if k = 3 then u3 r
     else if k = 4 then u4 r else u5 r)"

text \<open>
  The elements of a path of up to 127 slashes are the texts between them, the first
  five counted; every index the switch reads is inside the list, however long it is. A path
  with 128 to 255 slashes gets a negative count (it wraps in a \<open>char\<close>), so that no element is set.
\<close>

theorem url_elements_of_path:
  assumes "1 \<le> k" "k \<le> 5"
  shows "let n = length es; r' = set_url_elements es r in
    (1 \<le> n \<and> n \<le> 128 \<longrightarrow> num_url_elements r' = min 5 (int n - 1) \<and>
       element r' k = (if k < n then es ! k else element r k)) \<and>
    (129 \<le> n \<and> n \<le> 256 \<longrightarrow> num_url_elements r' < 0 \<and> element r' k = element r k) \<and>
    (n \<noteq> 0 \<and> int k \<le> num_url_elements r' \<longrightarrow> k < n)"
proof -
  let ?n = "length es"
  let ?m = "url_element_count ?n"
  have k: "k = 1 \<or> k = 2 \<or> k = 3 \<or> k = 4 \<or> k = 5" using assms by auto
  have el: "element (set_url_elements es r) k = (if int k \<le> ?m then es ! k else element r k)"
    using k by (auto simp: set_url_elements_def element_def Let_def)
  have num: "num_url_elements (set_url_elements es r) = ?m"
    by (simp add: set_url_elements_def Let_def)
  have "k < ?n" if "?n \<noteq> 0" "int k \<le> ?m"
  proof (rule ccontr)
    assume "\<not> k < ?n"
    with assms have "?n \<le> 128" by simp
    moreover from that(1) have "1 \<le> ?n" by (cases es) simp_all
    ultimately have "1 \<le> ?n" "?n \<le> 128" by blast+
    then have "?m = min 5 (int ?n - 1)" by (rule url_element_count_small)
    with that(2) \<open>\<not> k < ?n\<close> show False by auto
  qed
  moreover have "element (set_url_elements es r) k = (if k < ?n then es ! k else element r k)"
    if "1 \<le> ?n" "?n \<le> 128"
    using url_element_count_small [OF that] assms el by auto
  ultimately show ?thesis
    using url_element_count_small [of ?n] url_element_count_negative [of ?n] el num assms
    by (auto simp: Let_def)
qed

theorem url_elements_of_path_witness:
  "num_url_elements (set_url_elements (replicate 129 ''a'') new_request) < 0"
  using url_elements_of_path [of 1 "replicate 129 ''a''" new_request] by (simp add: Let_def)

section \<open>Path and query\<close>

lemma decode_join_slash:
  "\<not> safe CHR ''%'' \<Longrightarrow>
   decode_str (join_slash (map (url_encode safe lower) es) @ t) = join_slash es @ decode_str t"
proof (induction es rule: join_slash.induct)
  case (3 x y ys)
  then show ?case by (simp add: decode_url_encode_append)
qed (simp_all add: decode_url_encode_append)

lemma set_join_slash: "x \<in> set (join_slash es) \<Longrightarrow> x = CHR ''/'' \<or> (\<exists>e \<in> set es. x \<in> set e)"
  by (induction es rule: join_slash.induct) auto

definition encoded_uri :: "(char \<Rightarrow> bool) \<Rightarrow> bool \<Rightarrow> string list \<Rightarrow> (string \<times> string) list \<Rightarrow> string" where
  "encoded_uri safe lower es ps =
     join_slash ([] # map (url_encode safe lower) es) @ CHR ''?'' # query_text safe lower ps"

lemma read_cookies_none: "get_header r ''COOKIE'' = [] \<Longrightarrow> read_cookies r w = (Inr (), r, w)"
  by (simp add: read_cookies_def)

lemma parse_form_elements_Nil [simp]: "parse_form_elements m [] = m"
  by (simp add: parse_form_elements_def form_pairs_scan)

lemma takeWhile_no: "c \<notin> set s \<Longrightarrow> takeWhile (\<lambda>x. x \<noteq> c) (s @ c # t) = s"
  by (induction s) auto

lemma decode_encoded_uri:
  assumes "form_safe safe" "\<forall>e \<in> set es. CHR ''/'' \<notin> set e \<and> CHR ''?'' \<notin> set e \<and> e \<noteq> []" "es \<noteq> []"
  shows "decode_url (encoded_uri safe lower es ps) = join_slash ([] # es)"
    and "split_slash (join_slash ([] # es)) = [] # es"
proof -
  have pct: "\<not> safe CHR ''%''" using assms(1) by (simp add: form_safe_def)
  have "join_slash ([] # map (url_encode safe lower) es) = join_slash (map (url_encode safe lower) ([] # es))"
    by simp
  then have "decode_str (encoded_uri safe lower es ps) =
      join_slash ([] # es) @ CHR ''?'' # decode_str (query_text safe lower ps)"
    unfolding encoded_uri_def by (simp only: decode_join_slash [where safe = safe, OF pct]) simp
  moreover have "CHR ''?'' \<notin> set (join_slash ([] # es))"
  proof
    assume "CHR ''?'' \<in> set (join_slash ([] # es))"
    from set_join_slash [OF this] assms(2) show False by auto
  qed
  ultimately show "decode_url (encoded_uri safe lower es ps) = join_slash ([] # es)"
    using takeWhile_no [of "CHR ''?''" "join_slash ([] # es)"] by (simp add: decode_url_def)
  show "split_slash (join_slash ([] # es)) = [] # es"
    using assms(2,3) by (intro split_join_slash) (auto dest: in_set_butlastD)
qed

lemma join_slash_clean:
  assumes "form_safe safe"
  shows "CHR ''='' \<notin> set (join_slash ([] # map (url_encode safe lower) es))"
    and "CHR ''?'' \<notin> set (join_slash ([] # map (url_encode safe lower) es))"
  using url_encode_clean [OF assms] by (auto dest!: set_join_slash)

lemma final_decode_encoded:
  assumes "form_safe safe" "\<forall>e \<in> set es. CHR ''/'' \<notin> set e \<and> CHR ''?'' \<notin> set e \<and> e \<noteq> []"
    and len: "1 \<le> length es" "length es \<le> 5"
    and r: "uri r = encoded_uri safe lower es ps" "body r = []" "varibles r = []" "get_header r ''COOKIE'' = []"
    and call: "perform_final_decode r w = (res, r', w')"
  shows "res = Inr True \<and> w' = w \<and> url r' = join_slash ([] # es) \<and>
    num_url_elements r' = int (length es) \<and>
    (\<forall>k. 1 \<le> k \<and> k \<le> length es \<longrightarrow> element r' k = es ! (k - 1)) \<and>
    (\<forall>n. map_find (varibles r') n =
       (let vs = map snd (filter (\<lambda>p. fst p = n) ps) in if vs = [] then None else Some vs))"
proof -
  have ne: "es \<noteq> []" using len by auto
  note dec = decode_encoded_uri(1) [where lower = lower and ps = ps, OF assms(1,2) ne]
    decode_encoded_uri(2) [OF assms(1,2) ne]
  let ?vs = "fold (\<lambda>(n, v). push_varible n v) ps []"
  let ?r = "r\<lparr>url := join_slash ([] # es), varibles := ?vs\<rparr>"
  have vars: "parse_form_elements [] (uri r) = ?vs"
    using parse_form_elements_query [OF assms(1) join_slash_clean [OF assms(1)]]
    by (simp add: r(1) encoded_uri_def)
  have "get_header ?r ''COOKIE'' = []" using r(4) by (simp add: get_header_def)
  then have "read_cookies ?r w = (Inr (), ?r, w)" by (rule read_cookies_none)
  with call vars dec r have eqs: "res = Inr True" "w' = w" "r' = set_url_elements ([] # es) ?r"
    by (auto simp: perform_final_decode_def)
  have cnt: "url_element_count (length ([] # es)) = int (length es)"
    using url_element_count_small [of "length ([] # es)"] len by auto
  have "element r' k = es ! (k - 1)" if "1 \<le> k" "k \<le> length es" for k
  proof -
    have "k = 1 \<or> k = 2 \<or> k = 3 \<or> k = 4 \<or> k = 5" using that len by auto
    with that cnt show ?thesis
      by (auto simp: eqs(3) set_url_elements_def element_def Let_def nth_Cons')
  qed
  moreover have "num_url_elements r' = int (length es)" "url r' = join_slash ([] # es)" "varibles r' = ?vs"
    using cnt by (simp_all add: eqs(3) set_url_elements_def Let_def)
  ultimately show ?thesis using eqs(1,2) by (simp add: map_find_fold_push Let_def)
qed



section \<open>Cookies\<close>

lemma form_pair_alone:
  assumes "CHR ''='' \<notin> set n" "CHR ''?'' \<notin> set n" "CHR ''&'' \<notin> set v"
  shows "parse_form_elements m (n @ CHR ''='' # v) = push_varible (decode_str n) (decode_str v) m"
  using scan_pairs_pair [OF assms(1,2), of v] takeWhile_dropWhile_value(1) [OF assms(3)]
  by (simp add: parse_form_elements_def form_pairs_scan)

definition cookie_request :: "string \<Rightarrow> request" where
  "cookie_request c = new_request\<lparr>uri := ''/'', headers := [(''COOKIE'', c)]\<rparr>"

text \<open>The answer, the user of the request and the world after a request with this cookie.\<close>

definition cookie_outcome :: "world \<Rightarrow> string \<Rightarrow> (exn + bool) \<times> user_obj option \<times> world" where
  "cookie_outcome w c =
     (let (res, r, w') = perform_final_decode (cookie_request c) w in (res, req_user r, w'))"

lemma form_plain_slash: "parse_form_elements m ''/'' = m"
  by (simp add: parse_form_elements_def form_pairs_scan scan_pairs.simps [of "''/''"])

lemma final_decode_cookie:
  assumes "\<not> stale_cmd w" "CHR ''='' \<notin> set n" "CHR ''?'' \<notin> set n" "CHR ''%'' \<notin> set n"
    "CHR ''&'' \<notin> set v" "CHR ''%'' \<notin> set v" "n = ''Ticket'' \<longrightarrow> v \<noteq> []"
  shows "\<exists>r. perform_final_decode (cookie_request (n @ CHR ''='' # v)) w = (Inr True, r, w) \<and>
    req_user r = (if n = ''Ticket'' then row_find (\<lambda>u. ticket u = store_text w v) (users w) else None)"
proof -
  let ?c = "n @ CHR ''='' # v"
  let ?r = "(cookie_request ?c)\<lparr>url := decode_url ''/''\<rparr>"
  let ?r1 = "?r\<lparr>varibles := push_varible n v []\<rparr>"
  have hdr: "get_header (?r\<lparr>varibles := []\<rparr>) ''COOKIE'' = ?c" by (simp add: cookie_request_def get_header_def map_find_def)
  have form: "parse_form_elements [] ?c = push_varible n v []"
    using assms by (simp add: form_pair_alone decode_str_no_percent)
  have tick: "svalue ?r1 ''Ticket'' = (if n = ''Ticket'' then v else [])"
    by (simp add: svalue_def push_varible_def map_find_def)
  let ?f = "row_find (\<lambda>u. ticket u = store_text w v) (users w)"
  have user0: "req_user ?r1 = None" by (simp add: cookie_request_def new_request_def)
  have load: "with_ticket v w =
      (case ?f of None \<Rightarrow> (Inl (Sqlite_not_found '' failed''), w) | Some u \<Rightarrow> (Inr u, w))"
    using assms(1) by (simp add: with_ticket_def load_row_simps load_one_def split: option.split)
  have "read_cookies (?r\<lparr>varibles := []\<rparr>) w =
      (Inr (), ?r1\<lparr>req_user := if n = ''Ticket'' then ?f else None\<rparr>, w)"
  proof (cases "n = ''Ticket''")
    case True
    with hdr form tick load user0 assms(7) show ?thesis
      by (cases ?f) (auto simp: read_cookies_def Let_def cookie_request_def new_request_def)
  next
    case False
    with hdr form tick user0 show ?thesis
      by (auto simp: read_cookies_def Let_def cookie_request_def new_request_def)
  qed
  moreover have "(cookie_request ?c)\<lparr>url := decode_url (uri (cookie_request ?c)),
      varibles := parse_form_elements (parse_form_elements (varibles (cookie_request ?c)) (uri (cookie_request ?c)))
        (body (cookie_request ?c))\<rparr> = ?r\<lparr>varibles := []\<rparr>"
    by (simp add: cookie_request_def new_request_def form_plain_slash)
  ultimately have "perform_final_decode (cookie_request ?c) w =
      (Inr True, set_url_elements (split_slash (decode_url ''/''))
        (?r1\<lparr>req_user := if n = ''Ticket'' then ?f else None\<rparr>), w)"
    by (simp add: perform_final_decode_def cookie_request_def new_request_def)
  then show ?thesis by (auto simp: set_url_elements_def Let_def)
qed

text \<open>
  The cookie text \<open>Ticket=t\<close> with nothing else in it makes the user who holds ticket \<open>t\<close> the
  user of the request, and an unknown ticket leaves the request without a user. As soon as the
  browser sends a second cookie, the semicolon and everything after it is taken for part of the
  ticket, or (when the other cookie comes first) the ticket is part of its value and there is
  none.
\<close>

theorem ticket_cookie:
  assumes "\<not> stale_cmd w" "CHR ''&'' \<notin> set (t @ rest)" "CHR ''%'' \<notin> set (t @ rest)" "t \<noteq> []"
    and other: "other \<noteq> ''Ticket''" "CHR ''='' \<notin> set other" "CHR ''?'' \<notin> set other" "CHR ''%'' \<notin> set other"
  shows "cookie_outcome w (''Ticket='' @ t) = (Inr True, row_find (\<lambda>u. ticket u = store_text w t) (users w), w) \<and>
    cookie_outcome w (''Ticket='' @ t @ ''; '' @ rest) =
      (Inr True, row_find (\<lambda>u. ticket u = store_text w (t @ ''; '' @ rest)) (users w), w) \<and>
    cookie_outcome w (other @ CHR ''='' # rest @ ''; Ticket='' @ t) = (Inr True, None, w)"
proof -
  have "cookie_outcome w (''Ticket'' @ CHR ''='' # t) = (Inr True, row_find (\<lambda>u. ticket u = store_text w t) (users w), w)"
    using final_decode_cookie [of w "''Ticket''" t] assms by (auto simp: cookie_outcome_def)
  moreover have "cookie_outcome w (''Ticket'' @ CHR ''='' # (t @ ''; '' @ rest)) =
      (Inr True, row_find (\<lambda>u. ticket u = store_text w (t @ ''; '' @ rest)) (users w), w)"
    using final_decode_cookie [of w "''Ticket''" "t @ ''; '' @ rest"] assms by (auto simp: cookie_outcome_def)
  moreover have "cookie_outcome w (other @ CHR ''='' # rest @ ''; Ticket='' @ t) = (Inr True, None, w)"
    using final_decode_cookie [of w other "rest @ ''; Ticket='' @ t"] assms by (auto simp: cookie_outcome_def)
  ultimately show ?thesis by simp
qed

theorem ticket_cookie_witness:
  "cookie_outcome sample_world ''Ticket=none'' = (Inr True, Some sample_user, sample_world)"
proof -
  have "store_text sample_world ''none'' = ''none''"
    using sample_world_facts(3) by (simp add: keeps_words_def is_dec_def)
  moreover have "users sample_world = [sample_user]" "ticket sample_user = ''none''"
    by (simp_all add: sample_world_def sample_user_def)
  ultimately show ?thesis
    using ticket_cookie [of sample_world "''none''" "''x=y''" "''lang''",
        OF sample_world_facts(2)]
    by (simp add: row_find_def)
qed

end
