(* ===== verification/Playlist.thy ===== *)
theory Playlist
  imports User
begin

text \<open>
  Playlists (\<open>libs/spinny/playlist.cpp\<close>) and the list of all songs
  (\<open>libs/spinny/complete_playlist.cpp\<close>). The entries of a playlist are the rows of
  \<open>playlist_songs\<close> with its identifier; their \<open>present_order\<close> is the position of the song.

  Only \<open>set_order\<close>, \<open>songs\<close> and \<open>size\<close> are virtual. Every other operation called through a
  \<open>PlayList::ptr\<close> is the one of \<open>PlayList\<close>, also on the only object of the complete list, whose
  identifier is 0 until it is saved; the empty bodies \<open>CompletePlayList\<close> has for them are never reached that way.
\<close>

section \<open>Objects\<close>

datatype playlist_ptr = CompletePL playlist_obj | StoredPL playlist_obj

fun ptr_id :: "playlist_ptr \<Rightarrow> int" where
  "ptr_id (CompletePL p) = db_id p"
| "ptr_id (StoredPL p) = db_id p"

fun ptr_base :: "playlist_ptr \<Rightarrow> playlist_obj" where
  "ptr_base (CompletePL p) = p"
| "ptr_base (StoredPL p) = p"

text \<open>\<open>PlayList::PlayList()\<close>\<close>

definition new_playlist :: playlist_obj where
  "new_playlist = \<lparr>db_id = 0, pl_name = [], pl_description = [], order_by = ''present_order desc'',
     pl_present_order = 0\<rparr>"

definition norm_playlist :: "world \<Rightarrow> playlist_obj \<Rightarrow> playlist_obj" where
  "norm_playlist w p = p\<lparr>pl_name := store_text w (pl_name p), pl_description := store_text w (pl_description p),
     order_by := store_text w (order_by p)\<rparr>"

definition pl_save :: "playlist_obj \<Rightarrow> (world, playlist_obj) eff" where
  "pl_save = save_row playlists (\<lambda>t w. w\<lparr>playlists := t\<rparr>) norm_playlist"

definition pl_load :: "int \<Rightarrow> (world, playlist_ptr) eff" where
  "pl_load i =
     (if i = 1 then bindE (getS complete_obj) (\<lambda>p. ret (CompletePL p))
      else bindE (load_row playlists (\<lambda>w p. db_id p = i)) (\<lambda>p. ret (StoredPL p)))"

text \<open>\<open>order by present_order,upper(name)\<close>\<close>

definition pl_all :: "(world, playlist_obj list) eff" where
  "pl_all = sql_load (\<lambda>w. (Inr (sort_le
     (\<lambda>(a, s) (b, t). a < b \<or> (a = b \<and> text_le w s t)) (\<lambda>p. (pl_present_order p, to_upper (pl_name p)))
     (playlists w)), w))"

definition pl_create :: "string \<Rightarrow> string \<Rightarrow> (world, playlist_obj) eff" where
  "pl_create name desc = sql_exec (\<lambda>w.
     (Inr (new_playlist\<lparr>pl_name := name, pl_description := desc,
        pl_present_order := (if playlists w = [] then 0 else Max (pl_present_order ` set (playlists w)) + 1)\<rparr>), w))"

text \<open>The static \<open>set_order(id, order)\<close>, and \<open>set_order(order, descending)\<close> of an object.\<close>

definition pl_set_present_order :: "int \<Rightarrow> int \<Rightarrow> (world, unit) eff" where
  "pl_set_present_order i ord = sql_exec (\<lambda>w.
     (Inr (), w\<lparr>playlists := row_update (\<lambda>p. db_id p = i) (\<lambda>p. p\<lparr>pl_present_order := ord\<rparr>) (playlists w)\<rparr>))"

definition pl_set_order :: "playlist_obj \<Rightarrow> string \<Rightarrow> bool \<Rightarrow> (world, playlist_obj) eff" where
  "pl_set_order p ord descending =
     (let new_order = ''upper('' @ ord @ (if descending then '') desc'' else '') asc'')
      in if new_order \<noteq> order_by p then pl_save (p\<lparr>order_by := new_order\<rparr>) else ret p)"

definition complete_set_order :: "string \<Rightarrow> bool \<Rightarrow> (world, unit) eff" where
  "complete_set_order ord descending =
     modS (\<lambda>w. w\<lparr>complete_order := ''upper('' @ q ord False @ (if descending then '') DESC'' else '') ASC'')\<rparr>)"

text \<open>Assignments to the members of the object a pointer points to, and \<open>save\<close> through the pointer.\<close>

definition ptr_put :: "playlist_ptr \<Rightarrow> playlist_obj \<Rightarrow> (world, playlist_ptr) eff" where
  "ptr_put p r =
     (case p of
        CompletePL _ \<Rightarrow> bindE (modS (\<lambda>w. w\<lparr>complete_obj := r\<rparr>)) (\<lambda>_. ret (CompletePL r))
      | StoredPL _ \<Rightarrow> ret (StoredPL r))"

definition ptr_save :: "playlist_ptr \<Rightarrow> (world, playlist_ptr) eff" where
  "ptr_save p = bindE (pl_save (ptr_base p)) (ptr_put p)"

definition ptr_set_order :: "playlist_ptr \<Rightarrow> string \<Rightarrow> bool \<Rightarrow> (world, playlist_ptr) eff" where
  "ptr_set_order p ord descending =
     (case p of
        CompletePL r \<Rightarrow> bindE (complete_set_order ord descending) (\<lambda>_. ret (CompletePL r))
      | StoredPL r \<Rightarrow> bindE (pl_set_order r ord descending) (\<lambda>r'. ret (StoredPL r')))"

section \<open>Reading the entries\<close>

definition entries :: "world \<Rightarrow> int \<Rightarrow> pl_song_obj list" where
  "entries w i = filter (\<lambda>e. playlist_id e = i) (playlist_songs w)"

definition joined :: "world \<Rightarrow> int \<Rightarrow> (pl_song_obj \<times> song_obj) list" where
  "joined w i = concat (map (\<lambda>e. map (Pair e) (filter (\<lambda>s. db_id s = song_id e) (songs w))) (entries w i))"

definition page :: "nat \<Rightarrow> nat \<Rightarrow> 'a list \<Rightarrow> 'a list" where
  "page start limit xs = (if limit \<noteq> 0 then sql_limit (int start) (int limit) xs else xs)"

definition pl_songs :: "playlist_obj \<Rightarrow> nat \<Rightarrow> nat \<Rightarrow> (world, song_obj list) eff" where
  "pl_songs p start limit w =
     (if stale_cmd w then (Inl (Database_error ''prepare''), w)
      else (case order_songs w (q (order_by p) False) (joined w (db_id p)) of
              None \<Rightarrow> sql_load_fails w
            | Some rs \<Rightarrow> (Inr (page start limit (map snd rs)), w)))"

definition complete_songs :: "nat \<Rightarrow> nat \<Rightarrow> (world, song_obj list) eff" where
  "complete_songs start limit w =
     (if stale_cmd w then (Inl (Database_error ''prepare''), w)
      else (case order_all w (if complete_order w = [] then ''songs.title'' else complete_order w) (songs w) of
              None \<Rightarrow> sql_load_fails w
            | Some ss \<Rightarrow> (Inr (page start limit ss), w)))"

definition ptr_songs :: "playlist_ptr \<Rightarrow> nat \<Rightarrow> nat \<Rightarrow> (world, song_obj list) eff" where
  "ptr_songs p start limit =
     (case p of CompletePL r \<Rightarrow> complete_songs start limit | StoredPL r \<Rightarrow> pl_songs r start limit)"

definition pl_size :: "int \<Rightarrow> (world, nat) eff" where
  "pl_size i = sql_exec (\<lambda>w. (Inr (length (entries w i)), w))"

definition complete_size :: "(world, nat) eff" where
  "complete_size = sql_exec (\<lambda>w. (Inr (length (songs w)), w))"

definition ptr_size :: "playlist_ptr \<Rightarrow> (world, nat) eff" where
  "ptr_size p = (case p of CompletePL r \<Rightarrow> complete_size | StoredPL r \<Rightarrow> pl_size (db_id r))"

text \<open>
  \<open>at\<close> and \<open>load_song\<close>. The last column of a row is the identifier of the object: the rowid of
  the song in \<open>load_song\<close>, but the rowid of the entry in \<open>at\<close>.
\<close>

definition pl_at :: "playlist_obj \<Rightarrow> nat \<Rightarrow> (world, song_obj) eff" where
  "pl_at p pos w =
     (if stale_cmd w then (Inl (Database_error ''prepare''), w)
      else (case order_songs w (q (order_by p) False) (joined w (db_id p)) of
              None \<Rightarrow> sql_load_fails w
            | Some rs \<Rightarrow>
                (case sql_limit (int pos) 1 rs of
                   [] \<Rightarrow> (Inl (Sqlite_not_found '' failed''), w)
                 | (e, s) # _ \<Rightarrow> (Inr (s\<lparr>db_id := db_id e\<rparr>), w))))"

definition complete_at :: "nat \<Rightarrow> (world, song_obj) eff" where
  "complete_at pos w =
     (if stale_cmd w then (Inl (Database_error ''prepare''), w)
      else (case order_all w (if complete_order w = [] then ''songs.title'' else complete_order w) (songs w) of
              None \<Rightarrow> sql_load_fails w
            | Some ss \<Rightarrow>
                (case sql_limit (int pos) 1 ss of
                   [] \<Rightarrow> (Inl (Sqlite_not_found '' failed''), w)
                 | s # _ \<Rightarrow> (Inr s, w))))"

definition pl_load_song :: "int \<Rightarrow> (world, song_obj) eff" where
  "pl_load_song i = sql_load (\<lambda>w.
     (case concat (map (\<lambda>e. filter (\<lambda>s. db_id s = song_id e) (songs w))
             (filter (\<lambda>e. db_id e = i) (playlist_songs w))) of
        [] \<Rightarrow> (Inl (Sqlite_not_found '' failed''), w)
      | s # _ \<Rightarrow> (Inr s, w)))"

section \<open>Changing the entries\<close>

definition shift_entries :: "int \<Rightarrow> int \<Rightarrow> int \<Rightarrow> pl_song_obj list \<Rightarrow> pl_song_obj list" where
  "shift_entries i pos delta =
     row_update (\<lambda>e. pos \<le> present_order e \<and> playlist_id e = i)
       (\<lambda>e. e\<lparr>present_order := present_order e + delta\<rparr>)"

definition add_entry :: "int \<Rightarrow> int \<Rightarrow> int \<Rightarrow> pl_song_obj list \<Rightarrow> pl_song_obj list" where
  "add_entry sid i pos = row_insert \<lparr>db_id = 0, present_order = pos, song_id = sid, playlist_id = i\<rparr>"

definition update_entries :: "(pl_song_obj list \<Rightarrow> pl_song_obj list) \<Rightarrow> (world, unit) eff" where
  "update_entries f = sql_exec (\<lambda>w. (Inr (), w\<lparr>playlist_songs := f (playlist_songs w)\<rparr>))"

definition pl_set_song_order :: "int \<Rightarrow> int \<Rightarrow> int \<Rightarrow> (world, unit) eff" where
  "pl_set_song_order i sid ord =
     update_entries (row_update (\<lambda>e. song_id e = sid \<and> playlist_id e = i) (\<lambda>e. e\<lparr>present_order := ord\<rparr>))"

fun insert_entries :: "int \<Rightarrow> int list \<Rightarrow> int \<Rightarrow> (world, unit) eff" where
  "insert_entries i [] pos = ret ()"
| "insert_entries i (sid # sids) pos =
     bindE (update_entries (add_entry sid i pos)) (\<lambda>_. insert_entries i sids (pos + 1))"

text \<open>\<open>insert(result_set, position)\<close>; the directory, artist and album variants call it with their songs.\<close>

definition pl_insert_songs :: "int \<Rightarrow> song_obj list \<Rightarrow> int \<Rightarrow> (world, unit) eff" where
  "pl_insert_songs i ss pos =
     bindE (update_entries (shift_entries i pos (int (length ss))))
       (\<lambda>_. insert_entries i (map db_id ss) pos)"

text \<open>\<open>insert(Song::ptr, position)\<close>\<close>

definition pl_insert_song :: "int \<Rightarrow> song_obj \<Rightarrow> int \<Rightarrow> (world, unit) eff" where
  "pl_insert_song i s pos =
     bindE (update_entries (shift_entries i pos 1))
       (\<lambda>_. update_entries (add_entry (db_id s) i pos))"

text \<open>
  \<open>insert(PlayList::ptr, position)\<close>: room is made for the songs of the other list, but the songs
  selected are those of this one, and the position is increased before each is inserted. (The
  order of evaluation of \<open>pl->size()\<close> in the streamed expression is unspecified; here it is
  evaluated first.)
\<close>

definition pl_insert_playlist :: "playlist_obj \<Rightarrow> playlist_ptr \<Rightarrow> int \<Rightarrow> (world, unit) eff" where
  "pl_insert_playlist p other pos =
     bindE (ptr_size other) (\<lambda>n.
     bindE (update_entries (shift_entries (db_id p) pos (int n))) (\<lambda>_.
     bindE (sql_exec (\<lambda>w. (case order_entries w (q (order_by p) False) (entries w (db_id p)) of
                             None \<Rightarrow> (Inl (Database_error ''prepare''), w)
                           | Some es \<Rightarrow> (Inr (map song_id es), w)))) (\<lambda>sids.
     insert_entries (db_id p) sids (pos + 1))))"

definition pl_clear :: "int \<Rightarrow> (world, unit) eff" where
  "pl_clear i = update_entries (row_delete (\<lambda>e. playlist_id e = i))"

text \<open>
  \<open>remove\<close>: everything from the position of the song on moves up by one, then every entry of
  the song is deleted. Without an entry the position is null and nothing moves.
\<close>

definition remove_shift :: "int \<Rightarrow> int \<Rightarrow> pl_song_obj list \<Rightarrow> pl_song_obj list" where
  "remove_shift i sid t =
     (case row_find (\<lambda>e. playlist_id e = i \<and> song_id e = sid) t of
        None \<Rightarrow> t
      | Some e \<Rightarrow> shift_entries i (present_order e) (- 1) t)"

definition pl_remove :: "int \<Rightarrow> int \<Rightarrow> (world, unit) eff" where
  "pl_remove i sid =
     bindE (update_entries (remove_shift i sid))
       (\<lambda>_. update_entries (row_delete (\<lambda>e. playlist_id e = i \<and> song_id e = sid)))"

section \<open>The entries as a list\<close>

fun number :: "int \<Rightarrow> 'a list \<Rightarrow> (int \<times> 'a) list" where
  "number k [] = []"
| "number k (x # xs) = (k, x) # number (k + 1) xs"

lemma number_append: "number k (xs @ ys) = number k xs @ number (k + int (length xs)) ys"
  by (induction k xs rule: number.induct) (auto simp: algebra_simps)

lemma map_snd_number [simp]: "map snd (number k xs) = xs"
  by (induction k xs rule: number.induct) auto

lemma map_fst_number: "map fst (number k xs) = map (\<lambda>n. k + int n) [0..<length xs]"
  by (induction xs rule: rev_induct) (auto simp: number_append)

lemma set_number_bounds: "(p, x) \<in> set (number k xs) \<Longrightarrow> k \<le> p \<and> p < k + int (length xs) \<and> x \<in> set xs"
  by (induction k xs rule: number.induct) auto

lemma length_number [simp]: "length (number k xs) = length xs"
  by (induction k xs rule: number.induct) auto

definition slot :: "pl_song_obj \<Rightarrow> int \<times> int" where
  "slot e = (present_order e, song_id e)"

definition entries_of :: "int \<Rightarrow> pl_song_obj list \<Rightarrow> pl_song_obj list" where
  "entries_of i t = filter (\<lambda>e. playlist_id e = i) t"

text \<open>The table holds the songs \<open>xs\<close> for playlist \<open>i\<close>: at the positions 0, 1, and so on, each once.\<close>

definition represents :: "pl_song_obj list \<Rightarrow> int \<Rightarrow> int list \<Rightarrow> bool" where
  "represents t i xs = (mset (map slot (entries_of i t)) = mset (number 0 xs))"

definition bump :: "int \<Rightarrow> int \<Rightarrow> int \<times> 'a \<Rightarrow> int \<times> 'a" where
  "bump pos delta s = (if pos \<le> fst s then (fst s + delta, snd s) else s)"

lemma map_bump_low: "k + int (length xs) \<le> pos \<Longrightarrow> map (bump pos d) (number k xs) = number k xs"
  by (induction k xs rule: number.induct) (auto simp: bump_def)

lemma map_bump_high: "pos \<le> k \<Longrightarrow> map (bump pos d) (number k xs) = number (k + d) xs"
  by (induction k xs rule: number.induct) (auto simp: bump_def algebra_simps)

lemma entries_shift:
  "entries_of j (shift_entries i pos d t) =
     (if j = i then map (\<lambda>e. if pos \<le> present_order e then e\<lparr>present_order := present_order e + d\<rparr> else e)
        (entries_of i t)
      else entries_of j t)"
  by (induction t) (auto simp: entries_of_def shift_entries_def row_update_def)

lemma slots_shift: "map slot (entries_of i (shift_entries i pos d t)) = map (bump pos d) (map slot (entries_of i t))"
  by (auto simp: entries_shift slot_def bump_def)

lemma entries_add:
  "entries_of j (add_entry sid i pos t) =
     entries_of j t @ (if j = i then [\<lparr>db_id = next_rowid t, present_order = pos, song_id = sid, playlist_id = i\<rparr>] else [])"
  by (auto simp: entries_of_def add_entry_def row_insert_def)

fun add_entries :: "int \<Rightarrow> int list \<Rightarrow> int \<Rightarrow> pl_song_obj list \<Rightarrow> pl_song_obj list" where
  "add_entries i [] pos t = t"
| "add_entries i (sid # sids) pos t = add_entries i sids (pos + 1) (add_entry sid i pos t)"

lemma slots_add_entries: "map slot (entries_of i (add_entries i sids pos t)) = map slot (entries_of i t) @ number pos sids"
  by (induction i sids pos t rule: add_entries.induct) (auto simp: entries_add slot_def)

lemma other_add_entries: "j \<noteq> i \<Longrightarrow> entries_of j (add_entries i sids pos t) = entries_of j t"
  by (induction i sids pos t rule: add_entries.induct) (auto simp: entries_add)

lemma rows_ok_add_entries: "rows_ok t \<Longrightarrow> rows_ok (add_entries i sids pos t)"
  by (induction i sids pos t rule: add_entries.induct) (auto simp: add_entry_def)

lemma rows_ok_shift: "rows_ok t \<Longrightarrow> rows_ok (shift_entries i pos d t)"
  unfolding shift_entries_def by (rule rows_ok_update) auto

lemma insert_entries_eq:
  "\<not> stale_cmd w \<Longrightarrow> insert_entries i sids pos w =
     (Inr (), w\<lparr>playlist_songs := add_entries i sids pos (playlist_songs w)\<rparr>)"
  by (induction i sids pos arbitrary: w rule: insert_entries.induct) (auto simp: update_entries_def)

definition insert_rows :: "int \<Rightarrow> int list \<Rightarrow> nat \<Rightarrow> pl_song_obj list \<Rightarrow> pl_song_obj list" where
  "insert_rows i sids pos t =
     add_entries i sids (int pos) (shift_entries i (int pos) (int (length sids)) t)"

definition remove_rows :: "int \<Rightarrow> int \<Rightarrow> pl_song_obj list \<Rightarrow> pl_song_obj list" where
  "remove_rows i sid t = row_delete (\<lambda>e. playlist_id e = i \<and> song_id e = sid) (remove_shift i sid t)"

definition clear_rows :: "int \<Rightarrow> pl_song_obj list \<Rightarrow> pl_song_obj list" where
  "clear_rows i t = row_delete (\<lambda>e. playlist_id e = i) t"

lemma represents_insert:
  assumes "represents t i xs" "pos \<le> length xs"
  shows "represents (insert_rows i sids pos t) i (take pos xs @ sids @ drop pos xs)"
proof -
  let ?p = "int pos" and ?n = "int (length sids)"
  have xs: "number 0 xs = number 0 (take pos xs) @ number ?p (drop pos xs)"
    using assms(2) number_append [of 0 "take pos xs" "drop pos xs"] by simp
  have "mset (map slot (entries_of i (insert_rows i sids pos t))) =
      image_mset (bump ?p ?n) (mset (map slot (entries_of i t))) + mset (number ?p sids)"
    by (simp add: insert_rows_def slots_add_entries slots_shift flip: mset_map)
  also have "\<dots> = mset (map (bump ?p ?n) (number 0 xs)) + mset (number ?p sids)"
    using assms(1) by (simp add: represents_def)
  also have "\<dots> = mset (number 0 (take pos xs) @ number (?p + ?n) (drop pos xs)) + mset (number ?p sids)"
    using assms(2) by (simp add: xs map_bump_low map_bump_high)
  also have "\<dots> = mset (number 0 (take pos xs @ sids @ drop pos xs))"
    using assms(2) by (simp add: number_append algebra_simps)
  finally show ?thesis by (simp add: represents_def)
qed

lemma represents_other:
  assumes "j \<noteq> i"
  shows "entries_of j (insert_rows i sids pos t) = entries_of j t"
    and "entries_of j (remove_rows i sid t) = entries_of j t"
    and "entries_of j (clear_rows i t) = entries_of j t"
proof -
  show "entries_of j (insert_rows i sids pos t) = entries_of j t"
    using assms by (simp add: insert_rows_def other_add_entries entries_shift)
  have del: "entries_of j (row_delete (\<lambda>e. playlist_id e = i \<and> P e) u) = entries_of j u" for P u
    using assms by (induction u) (auto simp: entries_of_def row_delete_def)
  show "entries_of j (remove_rows i sid t) = entries_of j t"
    using assms by (simp add: remove_rows_def del remove_shift_def entries_shift split: option.split)
  show "entries_of j (clear_rows i t) = entries_of j t"
    using del [of "\<lambda>_. True" t] by (simp add: clear_rows_def)
qed

lemma slots_delete:
  "map slot (entries_of i (row_delete (\<lambda>e. playlist_id e = i \<and> song_id e = sid) t)) =
     filter (\<lambda>s. snd s \<noteq> sid) (map slot (entries_of i t))"
  by (induction t) (auto simp: entries_of_def row_delete_def slot_def)

text \<open>The positions stay distinct and the order of the other songs is kept, whatever the song.\<close>

definition keeps_order :: "pl_song_obj list \<Rightarrow> int \<Rightarrow> int list \<Rightarrow> bool" where
  "keeps_order t i xs = (\<exists>ps. sorted_wrt (<) ps \<and> length ps = length xs \<and>
     mset (map slot (entries_of i t)) = mset (zip ps xs))"

lemma represents_keeps_order: "represents t i xs \<Longrightarrow> keeps_order t i xs"
proof -
  assume r: "represents t i xs"
  have "number 0 xs = zip (map fst (number 0 xs)) (map snd (number 0 xs))" by (simp only: zip_map_fst_snd)
  then have "number 0 xs = zip (map int [0..<length xs]) xs" by (simp add: map_fst_number)
  moreover have "sorted_wrt (<) (map int [0..<length xs])" by (simp add: sorted_wrt_map)
  ultimately show ?thesis using r unfolding keeps_order_def represents_def
    by (intro exI [of _ "map int [0..<length xs]"]) simp
qed

lemma number_split:
  "(p, x) \<in> set (number k xs) \<Longrightarrow> \<exists>pre post. xs = pre @ x # post \<and> p = k + int (length pre)"
proof (induction k xs rule: number.induct)
  case (2 k y ys)
  show ?case
  proof (cases "(p, x) = (k, y)")
    case True
    then have "y # ys = [] @ x # ys \<and> p = k + int (length [])" by simp
    then show ?thesis by blast
  next
    case False
    with 2 obtain pre post where "ys = pre @ x # post" "p = (k + 1) + int (length pre)" by auto
    then have "y # ys = (y # pre) @ x # post \<and> p = k + int (length (y # pre))" by simp
    then show ?thesis by blast
  qed
qed simp

lemma entry_of_song:
  assumes "represents t i xs"
  shows "case row_find (\<lambda>e. playlist_id e = i \<and> song_id e = sid) t of
      None \<Rightarrow> sid \<notin> set xs
    | Some e \<Rightarrow> (\<exists>pre post. xs = pre @ sid # post \<and> present_order e = int (length pre))"
proof -
  have slots: "set (map slot (entries_of i t)) = set (number 0 xs)"
    using assms by (metis represents_def set_mset_mset)
  show ?thesis
  proof (cases "row_find (\<lambda>e. playlist_id e = i \<and> song_id e = sid) t")
    case None
    then have "sid \<notin> snd ` set (map slot (entries_of i t))"
      by (auto simp: row_find_None entries_of_def slot_def)
    with None show ?thesis by (simp add: slots flip: set_map)
  next
    case (Some e)
    then have "(present_order e, sid) \<in> set (map slot (entries_of i t))"
      by (auto simp: entries_of_def slot_def dest!: row_find_SomeD)
    with Some number_split [of _ sid 0 xs] show ?thesis by (simp only: slots) fastforce
  qed
qed

lemma slots_remove:
  assumes "represents t i xs"
  shows "sid \<notin> set xs \<Longrightarrow> represents (remove_rows i sid t) i xs"
    and "sid \<in> set xs \<Longrightarrow> \<exists>pre post. xs = pre @ sid # post \<and>
      mset (map slot (entries_of i (remove_rows i sid t))) =
        mset (filter (\<lambda>s. snd s \<noteq> sid) (number 0 (pre @ post)))"
proof -
  note e = entry_of_song [OF assms, of sid]
  assume "sid \<notin> set xs"
  then have "row_find (\<lambda>e. playlist_id e = i \<and> song_id e = sid) t = None"
    using e by (cases "row_find (\<lambda>e. playlist_id e = i \<and> song_id e = sid) t") auto
  then have "remove_rows i sid t = row_delete (\<lambda>e. playlist_id e = i \<and> song_id e = sid) t"
    "\<forall>e \<in> set t. \<not> (playlist_id e = i \<and> song_id e = sid)"
    by (simp add: remove_rows_def remove_shift_def, simp add: row_find_None)
  then have "remove_rows i sid t = t" by (simp add: row_delete_def filter_id_conv)
  then show "represents (remove_rows i sid t) i xs" using assms by simp
next
  note e = entry_of_song [OF assms, of sid]
  assume "sid \<in> set xs"
  then obtain r pre post where r: "row_find (\<lambda>e. playlist_id e = i \<and> song_id e = sid) t = Some r"
    and xs: "xs = pre @ sid # post" and pos: "present_order r = int (length pre)"
    using e by (cases "row_find (\<lambda>e. playlist_id e = i \<and> song_id e = sid) t") auto
  let ?p = "int (length pre)"
  have "mset (map slot (entries_of i (remove_rows i sid t))) =
      filter_mset (\<lambda>s. snd s \<noteq> sid) (image_mset (bump ?p (- 1)) (mset (map slot (entries_of i t))))"
    by (simp add: remove_rows_def slots_delete remove_shift_def r pos slots_shift flip: mset_map mset_filter)
  also have "\<dots> = mset (filter (\<lambda>s. snd s \<noteq> sid) (map (bump ?p (- 1)) (number 0 xs)))"
    using assms by (simp add: represents_def)
  also have "map (bump ?p (- 1)) (number 0 xs) = number 0 pre @ (?p - 1, sid) # number ?p post"
    by (simp add: xs number_append map_bump_low map_bump_high) (simp add: bump_def)
  also have "filter (\<lambda>s. snd s \<noteq> sid) (number 0 pre @ (?p - 1, sid) # number ?p post) =
      filter (\<lambda>s. snd s \<noteq> sid) (number 0 (pre @ post))"
    by (simp add: number_append)
  finally show "\<exists>pre post. xs = pre @ sid # post \<and>
      mset (map slot (entries_of i (remove_rows i sid t))) =
        mset (filter (\<lambda>s. snd s \<noteq> sid) (number 0 (pre @ post)))"
    using xs by blast
qed

lemma filter_number_absent: "sid \<notin> set xs \<Longrightarrow> filter (\<lambda>s. snd s \<noteq> sid) (number k xs) = number k xs"
  by (induction k xs rule: number.induct) auto

lemma represents_remove:
  assumes "represents t i xs" "distinct xs"
  shows "represents (remove_rows i sid t) i (remove1 sid xs)"
proof (cases "sid \<in> set xs")
  case False
  with slots_remove(1) [OF assms(1)] show ?thesis by (simp add: remove1_idem)
next
  case True
  from slots_remove(2) [OF assms(1) True] obtain pre post where xs: "xs = pre @ sid # post"
    and m: "mset (map slot (entries_of i (remove_rows i sid t))) =
      mset (filter (\<lambda>s. snd s \<noteq> sid) (number 0 (pre @ post)))"
    by blast
  have "sid \<notin> set (pre @ post)" using assms(2) xs by auto
  then have "filter (\<lambda>s. snd s \<noteq> sid) (number 0 (pre @ post)) = number 0 (pre @ post)" "remove1 sid xs = pre @ post"
    by (simp_all add: filter_number_absent xs remove1_append)
  with m show ?thesis by (simp only: represents_def)
qed

lemma keeps_order_remove:
  assumes "represents t i xs"
  shows "keeps_order (remove_rows i sid t) i (filter (\<lambda>x. x \<noteq> sid) xs)"
proof (cases "sid \<in> set xs")
  case False
  then have "filter (\<lambda>x. x \<noteq> sid) xs = xs" by (auto intro: filter_True)
  with represents_keeps_order [OF slots_remove(1) [OF assms False]] show ?thesis by simp
next
  case True
  from slots_remove(2) [OF assms True] obtain pre post where xs: "xs = pre @ sid # post"
    and m: "mset (map slot (entries_of i (remove_rows i sid t))) =
      mset (filter (\<lambda>s. snd s \<noteq> sid) (number 0 (pre @ post)))"
    by blast
  let ?l = "filter (\<lambda>s. snd s \<noteq> sid) (number 0 (pre @ post))"
  have "sorted_wrt (<) (map fst (number 0 (pre @ post)))"
    by (simp add: map_fst_number sorted_wrt_map)
  then have "sorted_wrt (<) (map fst ?l)" by (simp add: sorted_wrt_map sorted_wrt_filter)
  moreover have "map snd ?l = filter (\<lambda>x. x \<noteq> sid) (map snd (number 0 (pre @ post)))"
    by (simp only: filter_map comp_def)
  then have "map snd ?l = filter (\<lambda>x. x \<noteq> sid) xs" by (simp add: xs)
  moreover have "zip (map fst ?l) (map snd ?l) = ?l" by (rule zip_map_fst_snd)
  ultimately show ?thesis
    using m unfolding keeps_order_def by (intro exI [of _ "map fst ?l"]) (metis length_map)
qed

text \<open>
  The contract a list of songs in a store offers to the code that edits playlists: what the list
  of a key is after each operation, and that the lists of the other keys do not change.
\<close>

locale song_lists =
  fixes holds :: "'t \<Rightarrow> int \<Rightarrow> int list \<Rightarrow> bool"
    and insert_at :: "int \<Rightarrow> int list \<Rightarrow> nat \<Rightarrow> 't \<Rightarrow> 't"
    and remove_song :: "int \<Rightarrow> int \<Rightarrow> 't \<Rightarrow> 't"
    and clear_list :: "int \<Rightarrow> 't \<Rightarrow> 't"
  assumes holds_insert: "holds t i xs \<Longrightarrow> pos \<le> length xs \<Longrightarrow>
      holds (insert_at i ys pos t) i (take pos xs @ ys @ drop pos xs)"
    and holds_remove: "holds t i xs \<Longrightarrow> distinct xs \<Longrightarrow> holds (remove_song i x t) i (remove1 x xs)"
    and holds_clear: "holds (clear_list i t) i []"
    and other_insert: "j \<noteq> i \<Longrightarrow> holds (insert_at i ys pos t) j xs = holds t j xs"
    and other_remove: "j \<noteq> i \<Longrightarrow> holds (remove_song i x t) j xs = holds t j xs"
    and other_clear: "j \<noteq> i \<Longrightarrow> holds (clear_list i t) j xs = holds t j xs"
begin

lemma append_song: "holds t i xs \<Longrightarrow> holds (insert_at i [x] (length xs) t) i (xs @ [x])"
  using holds_insert [of t i xs "length xs" "[x]"] by simp

lemma insert_then_remove:
  assumes "holds t i xs" "distinct xs" "x \<notin> set xs" "pos \<le> length xs"
  shows "holds (remove_song i x (insert_at i [x] pos t)) i xs"
proof -
  have "holds (insert_at i [x] pos t) i (take pos xs @ [x] @ drop pos xs)"
    by (rule holds_insert [OF assms(1,4)])
  moreover have "distinct (take pos xs @ [x] @ drop pos xs)"
    using assms(2,3) set_take_disj_set_drop_if_distinct [OF assms(2), of pos pos]
    by (auto dest: in_set_takeD in_set_dropD)
  ultimately have "holds (remove_song i x (insert_at i [x] pos t)) i (remove1 x (take pos xs @ [x] @ drop pos xs))"
    by (rule holds_remove)
  moreover have "x \<notin> set (take pos xs)" using assms(3) by (meson in_set_takeD)
  then have "remove1 x (take pos xs @ [x] @ drop pos xs) = xs" by (simp add: remove1_append)
  ultimately show ?thesis by simp
qed

lemma edits_commute:
  assumes "i \<noteq> j" "holds t i xs" "holds t j ys" "pos \<le> length xs" "distinct ys"
  shows "holds (remove_song j y (insert_at i zs pos t)) i (take pos xs @ zs @ drop pos xs) \<and>
    holds (remove_song j y (insert_at i zs pos t)) j (remove1 y ys)"
  using assms by (simp add: other_insert other_remove holds_insert holds_remove)

lemma clear_then_fill: "holds (insert_at i ys 0 (clear_list i t)) i ys"
  using holds_insert [OF holds_clear, of 0 i ys] by simp

end

interpretation lists: song_lists represents insert_rows remove_rows clear_rows
proof
  show "represents (clear_rows i t) i []" for i t
    by (induction t) (auto simp: represents_def clear_rows_def row_delete_def entries_of_def)
  fix j i :: int and t xs
  assume "j \<noteq> i"
  note other = represents_other [OF this]
  show "represents (insert_rows i ys pos t) j xs = represents t j xs" for ys pos
    by (simp only: represents_def other)
  show "represents (remove_rows i x t) j xs = represents t j xs" for x
    by (simp only: represents_def other)
  show "represents (clear_rows i t) j xs = represents t j xs"
    by (simp only: represents_def other)
qed (rule represents_insert represents_remove; assumption)+

section \<open>The operations on the table\<close>

abbreviation with_entries :: "(pl_song_obj list \<Rightarrow> pl_song_obj list) \<Rightarrow> world \<Rightarrow> world" where
  "with_entries f w \<equiv> w\<lparr>playlist_songs := f (playlist_songs w)\<rparr>"

lemma entry_operations:
  assumes "\<not> stale_cmd w"
  shows "pl_insert_songs i ss (int pos) w = (Inr (), with_entries (insert_rows i (map db_id ss) pos) w)"
    and "pl_insert_song i s (int pos) w = (Inr (), with_entries (insert_rows i [db_id s] pos) w)"
    and "pl_remove i sid w = (Inr (), with_entries (remove_rows i sid) w)"
    and "pl_clear i w = (Inr (), with_entries (clear_rows i) w)"
  using assms
  by (simp_all add: pl_insert_songs_def pl_insert_song_def pl_remove_def pl_clear_def update_entries_def
      bindE_def insert_entries_eq insert_rows_def remove_rows_def clear_rows_def)

text \<open>
  C6: inserting songs into a playlist puts them, in their order, in front of the song that was
  at that position; no other song moves against the others, the positions stay 0, 1, 2 and so
  on, the other playlists keep their songs, and nothing else changes.
\<close>

theorem insert_songs_refines_list:
  assumes "\<not> stale_cmd w" "represents (playlist_songs w) i xs" "pos \<le> length xs"
    and "pl_insert_songs i ss (int pos) w = (r, w')"
  shows "r = Inr () \<and> represents (playlist_songs w') i (take pos xs @ map db_id ss @ drop pos xs) \<and>
    (\<forall>j ys. j \<noteq> i \<longrightarrow> represents (playlist_songs w') j ys = represents (playlist_songs w) j ys) \<and>
    w'\<lparr>playlist_songs := playlist_songs w\<rparr> = w"
  using assms lists.holds_insert [OF assms(2,3)] by (auto simp: entry_operations lists.other_insert)


text \<open>
  Removing a song that is twice at the front of a playlist leaves a hole: the remaining
  songs start at position 1, and no list is stored at the positions 0, 1, 2 and so on.
\<close>

theorem remove_duplicate_leaves_gap:
  assumes "\<not> stale_cmd w" "represents (playlist_songs w) i (sid # sid # xs)" "sid \<notin> set xs" "xs \<noteq> []"
    and "pl_remove i sid w = (r, w')"
  shows "mset (map slot (entries_of i (playlist_songs w'))) = mset (number 1 xs) \<and>
    \<not> (\<exists>ys. represents (playlist_songs w') i ys)"
proof -
  have w': "playlist_songs w' = remove_rows i sid (playlist_songs w)"
    using assms(1,5) by (auto simp: entry_operations)
  obtain pre post where split: "sid # sid # xs = pre @ sid # post"
    and m: "mset (map slot (entries_of i (remove_rows i sid (playlist_songs w)))) =
      mset (filter (\<lambda>s. snd s \<noteq> sid) (number 0 (pre @ post)))"
    using slots_remove(2) [OF assms(2), of sid] by auto
  have "pre @ post = sid # xs"
  proof (cases pre)
    case Nil
    with split show ?thesis by simp
  next
    case (Cons a as)
    show ?thesis
    proof (cases as)
      case Nil
      with split Cons show ?thesis by simp
    next
      case (Cons b bs)
      with split \<open>pre = a # as\<close> have "sid \<in> set xs" by auto
      with assms(3) show ?thesis by simp
    qed
  qed
  then have "filter (\<lambda>s. snd s \<noteq> sid) (number 0 (pre @ post)) = number 1 xs"
    using assms(3) by (simp add: filter_number_absent)
  with m w' have slots: "mset (map slot (entries_of i (playlist_songs w'))) = mset (number 1 xs)"
    by (simp only:)
  have "False" if "represents (playlist_songs w') i ys" for ys
  proof -
    have same: "mset (number 0 ys) = mset (number 1 xs)" using that slots by (simp add: represents_def)
    then have "length ys = length xs" by (metis length_number size_mset)
    then obtain y zs where "ys = y # zs" using assms(4) by (cases ys) auto
    then have "(0, y) \<in> set (number 1 xs)" using same by (metis insertCI list.simps(15) number.simps(2) set_mset_mset)
    then show False by (auto dest: set_number_bounds)
  qed
  with slots show ?thesis by blast
qed

text \<open>
  Adding a song that a playlist does not hold and removing it again leaves the songs of the
  playlist as they were.
\<close>

theorem insert_then_remove_song:
  assumes "\<not> stale_cmd w" "represents (playlist_songs w) i xs" "distinct xs" "db_id s \<notin> set xs" "pos \<le> length xs"
    and "pl_insert_song i s (int pos) w = (r1, w1)" "pl_remove i (db_id s) w1 = (r2, w2)"
  shows "r1 = Inr () \<and> r2 = Inr () \<and> represents (playlist_songs w2) i xs"
proof -
  have r1: "r1 = Inr ()" and w1: "w1 = with_entries (insert_rows i [db_id s] pos) w"
    using assms(1,6) by (auto simp: entry_operations)
  then have "\<not> stale_cmd w1" using assms(1) by simp
  with assms(7) have "r2 = Inr ()" "w2 = with_entries (remove_rows i (db_id s)) w1"
    by (auto simp: entry_operations)
  with r1 w1 lists.insert_then_remove [OF assms(2-5)] show ?thesis by simp
qed

section \<open>Listing\<close>

lemma filter_by_id:
  assumes "rows_ok t"
  shows "filter (\<lambda>s. db_id s = i) t = (case row_lookup t i of None \<Rightarrow> [] | Some s \<Rightarrow> [s])"
proof -
  have "distinct (map db_id t)" by (rule rows_ok_distinct [OF assms])
  then show ?thesis
  proof (induction t)
    case (Cons a t)
    show ?case
    proof (cases "db_id a = i")
      case True
      with Cons.prems have "filter (\<lambda>s. db_id s = i) t = []" by (force simp: filter_empty_conv image_iff)
      with True show ?thesis by (simp add: row_lookup_def row_find_def)
    next
      case False
      with Cons show ?thesis by (simp add: row_lookup_def row_find_def)
    qed
  qed (simp add: row_lookup_def row_find_def)
qed

lemma sorted_pairs_unique:
  assumes "mset ps = mset (number 0 xs)" "sorted_wrt (\<lambda>a b. fst a \<le> fst b) ps"
  shows "ps = number 0 xs"
proof -
  have d: "distinct (map fst (number 0 xs))" "sorted (map fst (number 0 xs))"
    by (simp_all add: map_fst_number distinct_map inj_on_def sorted_wrt_map)
  have inj: "inj_on fst (set (number 0 xs))" using d(1) by (simp add: distinct_map)
  have "sorted (map fst ps)" using assms(2) by (simp add: sorted_wrt_map)
  from sort_key_inj_key_eq [OF assms(1) [symmetric] inj this] sort_key_inj_key_eq [OF refl inj d(2)]
  show ?thesis by simp
qed

lemma q_present [simp]: "q ''present_order desc'' False = ''present_order desc''"
  by (simp add: q_def)

text \<open>
  A playlist with the order it is created with lists its songs from the last position to the
  first: the list that the insert and remove operations maintain, backwards, or the page of it
  that was asked for.
\<close>

theorem songs_lists_backwards:
  assumes "\<not> stale_cmd w" "sorts_by_present w" "rows_ok (songs w)"
    and pl: "order_by p = ''present_order desc''" "represents (playlist_songs w) (db_id p) xs"
    and known: "\<forall>x \<in> set xs. row_lookup (songs w) x \<noteq> None"
  shows "\<exists>ss. pl_songs p start limit w = (Inr ss, w) \<and> map db_id ss = page start limit (rev xs)"
proof -
  let ?song = "\<lambda>e. the (row_lookup (songs w) (song_id e))"
  let ?es = "entries w (db_id p)"
  have es: "?es = entries_of (db_id p) (playlist_songs w)" by (simp add: entries_def entries_of_def)
  have "set (map slot ?es) = set (number 0 xs)"
    using pl(2) by (metis es represents_def set_mset_mset)
  then have in_xs: "song_id e \<in> set xs" if "e \<in> set ?es" for e
    using that set_number_bounds [of "present_order e" "song_id e" 0 xs] by (force simp: slot_def)
  have "concat (map (\<lambda>e. map (Pair e) (filter (\<lambda>s. db_id s = song_id e) (songs w))) fs) = map (\<lambda>e. (e, ?song e)) fs"
    if "set fs \<subseteq> set ?es" for fs
    using that in_xs known
    by (induction fs) (auto simp: filter_by_id [OF assms(3)] split: option.split)
  then have joined: "joined w (db_id p) = map (\<lambda>e. (e, ?song e)) ?es"
    by (simp add: joined_def)
  obtain out where out: "order_songs w ''present_order desc'' (joined w (db_id p)) = Some out"
    "mset out = mset (joined w (db_id p))" "present_desc out"
    using assms(2) by (auto simp: sorts_by_present_def)
  have "mset (map (\<lambda>r. slot (fst r)) (rev out)) = image_mset (\<lambda>r. slot (fst r)) (mset (joined w (db_id p)))"
    using out(2) by simp
  also have "\<dots> = mset (number 0 xs)"
    using pl(2) by (simp add: joined represents_def es multiset.map_comp comp_def)
  finally have "mset (map (\<lambda>r. slot (fst r)) (rev out)) = mset (number 0 xs)" .
  moreover have "sorted_wrt (\<lambda>a b. fst a \<le> fst b) (map (\<lambda>r. slot (fst r)) (rev out))"
    using out(3) by (simp add: present_desc_def sorted_wrt_map sorted_wrt_rev slot_def)
  ultimately have "map (\<lambda>r. slot (fst r)) (rev out) = number 0 xs" by (rule sorted_pairs_unique)
  then have "map snd (map (\<lambda>r. slot (fst r)) (rev out)) = xs" by simp
  then have "map (\<lambda>r. song_id (fst r)) (rev out) = xs" by (simp add: slot_def comp_def)
  then have ids: "map (\<lambda>r. song_id (fst r)) out = rev xs" by (metis rev_map rev_rev_ident)
  have "db_id (snd r) = song_id (fst r)" if "r \<in> set out" for r
  proof -
    have "r \<in> set (joined w (db_id p))" using that out(2) by (metis set_mset_mset)
    then obtain e where e: "e \<in> set ?es" "r = (e, ?song e)" by (auto simp: joined)
    with in_xs known obtain s where "row_lookup (songs w) (song_id e) = Some s" by blast
    with e show ?thesis by (auto dest: row_lookup_SomeD)
  qed
  then have "map (\<lambda>r. db_id (snd r)) out = rev xs" using ids by (simp cong: map_cong)
  then have "map db_id (map snd out) = rev xs" by (simp add: comp_def)
  moreover have "map db_id (page start limit ss) = page start limit (map db_id ss)" for ss :: "song_obj list"
    by (simp add: page_def sql_limit_def Let_def take_map drop_map)
  ultimately have "map db_id (page start limit (map snd out)) = page start limit (rev xs)" by metis
  moreover have "pl_songs p start limit w = (Inr (page start limit (map snd out)), w)"
    using assms(1) pl(1) out(1) by (simp add: pl_songs_def)
  ultimately show ?thesis by blast
qed

text \<open>
  Inserting one playlist into another adds none of its songs. The songs of the receiving
  list are inserted a second time, however long the other list is, and the other list keeps its
  own.
\<close>

theorem insert_playlist_duplicates_itself:
  assumes "\<not> stale_cmd w" "sorts_by_present w" "order_by p = ''present_order desc''"
    and xs: "represents (playlist_songs w) (db_id p) xs"
    and "pl_insert_playlist p other pos w = (r, w')"
  shows "r = Inr () \<and> mset (map song_id (entries_of (db_id p) (playlist_songs w'))) = mset xs + mset xs \<and>
    (\<forall>j ys. j \<noteq> db_id p \<longrightarrow> represents (playlist_songs w') j ys = represents (playlist_songs w) j ys)"
proof -
  obtain n where n: "ptr_size other w = (Inr n, w)"
    using assms(1) by (cases other) (simp_all add: ptr_size_def complete_size_def pl_size_def)
  let ?i = "db_id p"
  let ?w1 = "with_entries (shift_entries ?i pos (int n)) w"
  obtain es where es: "order_entries w ''present_order desc'' (entries ?w1 ?i) = Some es"
    "mset es = mset (entries ?w1 ?i)"
    using assms(2) by (auto simp: sorts_by_present_def)
  have w': "r = Inr ()" "w' = with_entries (add_entries ?i (map song_id es) (pos + 1)) ?w1"
    using assms(1,3,5) n es(1)
    by (auto simp: pl_insert_playlist_def bindE_def update_entries_def insert_entries_eq)
  have songs: "map song_id (entries_of ?i u) = map snd (map slot (entries_of ?i u))" for u
    by (simp add: slot_def comp_def)
  have bump: "map snd (map (bump q d) l) = map snd l" for q d and l :: "(int \<times> int) list"
    by (simp add: bump_def comp_def if_distrib cong: if_cong)
  have own: "mset (map song_id (entries_of ?i (playlist_songs w))) = mset xs"
  proof -
    have "mset (map song_id (entries_of ?i (playlist_songs w))) = image_mset snd (mset (number 0 xs))"
      using xs by (simp only: songs mset_map represents_def)
    also have "\<dots> = mset (map snd (number 0 xs))" by (simp only: mset_map)
    finally show ?thesis by simp
  qed
  have shifted: "map song_id (entries_of ?i (shift_entries ?i pos (int n) (playlist_songs w))) =
      map song_id (entries_of ?i (playlist_songs w))"
    by (simp only: songs slots_shift bump)
  have "map song_id (entries_of ?i (playlist_songs w')) =
      map song_id (entries_of ?i (playlist_songs w)) @ map song_id es"
  proof -
    have tab: "playlist_songs w' = add_entries ?i (map song_id es) (pos + 1) (shift_entries ?i pos (int n) (playlist_songs w))"
      by (simp add: w'(2))
    have "map song_id (entries_of ?i (playlist_songs w')) = map snd (map slot (entries_of ?i (playlist_songs w')))"
      by (rule songs)
    also have "\<dots> = map snd (map slot (entries_of ?i (shift_entries ?i pos (int n) (playlist_songs w)))) @ map song_id es"
      by (simp only: tab slots_add_entries map_append map_snd_number)
    finally show ?thesis by (simp only: songs [symmetric] shifted)
  qed
  moreover have "mset (map song_id es) = mset (map song_id (entries_of ?i (playlist_songs w)))"
  proof -
    have "entries ?w1 ?i = entries_of ?i (shift_entries ?i pos (int n) (playlist_songs w))"
      by (simp add: entries_def entries_of_def)
    with es(2) have "mset (map song_id es) = mset (map song_id (entries_of ?i (shift_entries ?i pos (int n) (playlist_songs w))))"
      by (simp only: mset_map)
    then show ?thesis by (simp only: shifted)
  qed
  moreover have "represents (playlist_songs w') j ys = represents (playlist_songs w) j ys" if "j \<noteq> ?i" for j ys
    using that w'(2) by (simp add: represents_def other_add_entries entries_shift)
  ultimately show ?thesis using w'(1) own by simp
qed

text \<open>
  The list of all songs (identifier 1) cannot be edited, but while its object was never
  saved a song added to it is not ignored: it becomes an entry of playlist 0, which no operation
  lists, while the songs the list shows and its size stay the same.
\<close>

theorem complete_list_collects_orphans:
  assumes "\<not> stale_cmd w" "db_id (complete_obj w) = 0" "represents (playlist_songs w) 0 xs"
    and "pl_load 1 w = (Inr p, w1)" "pl_insert_song (ptr_id p) s (int (length xs)) w1 = (r, w2)"
  shows "r = Inr () \<and> represents (playlist_songs w2) 0 (xs @ [db_id s]) \<and>
    fst (ptr_songs p start limit w2) = fst (ptr_songs p start limit w) \<and>
    fst (ptr_size p w2) = fst (ptr_size p w)"
proof -
  have p: "p = CompletePL (complete_obj w)" "w1 = w" using assms(4) by (auto simp: pl_load_def)
  with assms(1,2,5) have r: "r = Inr ()" "w2 = with_entries (insert_rows 0 [db_id s] (length xs)) w"
    by (auto simp: entry_operations)
  have "represents (playlist_songs w2) 0 (xs @ [db_id s])"
    using lists.append_song [OF assms(3)] by (simp add: r(2))
  with r p assms(1) show ?thesis
    by (auto simp: ptr_songs_def complete_songs_def sql_load_fails_def ptr_size_def complete_size_def
        split: option.split)
qed

text \<open>
  Reordering the songs of a playlist sets its order to a column no table has. From then on
  (also after loading it again) listing the playlist fails, and it leaves its statement in the
  command buffer: every load that follows fails with it, and so does the next change.
\<close>

theorem reorder_breaks_listing:
  assumes "\<not> stale_cmd w" "keeps_words w" "rows_ok (playlists w)"
    and p: "row_lookup (playlists w) (db_id p) \<noteq> None" "db_id p \<noteq> 0" "db_id p \<noteq> 1"
      "order_by p \<noteq> ''upper(playlist_songs) desc''"
    and engine: "\<forall>rs. order_songs w ''upper(playlist_songs) desc'' rs = None"
    and "pl_set_order p ''playlist_songs'' True w = (r, w1)"
  shows "\<exists>p2 w2. pl_load (db_id p) w1 = (Inr (StoredPL p2), w1) \<and>
    pl_songs p2 start limit w1 = (Inl (Database_error ''prepare''), w2) \<and>
    (\<forall>t. with_ticket t w2 = (Inl (Database_error ''prepare''), w2)) \<and>
    (\<forall>u. fst (update_access_time u w2) = Inl (Database_error ''prepare''))"
proof -
  let ?ord = "''upper(playlist_songs) desc''"
  let ?p = "p\<lparr>order_by := ?ord\<rparr>"
  have kept: "store_text w ?ord = ?ord" using assms(2) by (simp add: keeps_words_def is_dec_def)
  have w1: "w1 = w\<lparr>playlists := row_put (db_id p) (norm_playlist w ?p) (playlists w)\<rparr>"
    using assms(1,9) p(2,4)
    by (auto simp: pl_set_order_def pl_save_def save_row_def save_obj_def split_def Let_def)
  let ?p2 = "norm_playlist w ?p\<lparr>db_id := db_id p\<rparr>"
  have "row_lookup (playlists w1) (db_id p) = Some ?p2" using p(1) by (simp add: w1 row_lookup_put)
  then have "pl_load (db_id p) w1 = (Inr (StoredPL ?p2), w1)"
    using assms(1) p(3)
    by (simp add: pl_load_def load_row_def load_one_def row_lookup_def bindE_def w1)
  moreover have "order_by ?p2 = ?ord" by (simp add: norm_playlist_def kept)
  moreover have "q ?ord False = ?ord" by (simp add: q_def)
  ultimately have "pl_songs ?p2 start limit w1 = (Inl (Database_error ''prepare''), w1\<lparr>stale_cmd := True\<rparr>)"
    using assms(1) engine by (simp add: pl_songs_def sql_load_fails_def w1)
  moreover have "with_ticket t (w1\<lparr>stale_cmd := True\<rparr>) = (Inl (Database_error ''prepare''), w1\<lparr>stale_cmd := True\<rparr>)"
    "fst (update_access_time u (w1\<lparr>stale_cmd := True\<rparr>)) = Inl (Database_error ''prepare'')" for t u
    by (simp_all add: with_ticket_def load_row_def sql_load_def update_access_time_def sql_exec_def)
  ultimately show ?thesis
    using \<open>pl_load (db_id p) w1 = (Inr (StoredPL ?p2), w1)\<close> by blast
qed

section \<open>Concrete playlists\<close>

definition sample_song :: "int \<Rightarrow> song_obj" where
  "sample_song i = \<lparr>db_id = i, dir_id = 1, artist_id = 1, album_id = 1, file_name = ''a.mp3'', title = ''A'',
     track = 1, song_length = 60, bitrate = 128, year = 2006\<rparr>"

definition entry_row :: "int \<Rightarrow> int \<Rightarrow> int \<Rightarrow> int \<Rightarrow> pl_song_obj" where
  "entry_row i pos sid pl = \<lparr>db_id = i, present_order = pos, song_id = sid, playlist_id = pl\<rparr>"

definition sample_playlist :: playlist_obj where
  "sample_playlist = new_playlist\<lparr>db_id := 5, pl_name := ''Jazz''\<rparr>"

definition playlist_world :: "pl_song_obj list \<Rightarrow> world" where
  "playlist_world es = empty_world\<lparr>songs := map sample_song [1, 2, 3], playlists := [sample_playlist],
     playlist_songs := es\<rparr>"

abbreviation "two_entries \<equiv> [entry_row 1 0 1 5, entry_row 2 1 2 5]"

lemma playlist_world_facts:
  "\<not> stale_cmd (playlist_world es)" "sorts_by_present (playlist_world es)" "keeps_words (playlist_world es)"
  "rows_ok (songs (playlist_world es))" "rows_ok (playlists (playlist_world es))"
  "playlist_songs (playlist_world es) = es" "order_by sample_playlist = ''present_order desc''"
  "db_id sample_playlist = 5" "represents two_entries 5 [1, 2]" "represents two_entries 0 []"
  using empty_world_keeps_words empty_world_sorts
  by (simp_all add: playlist_world_def empty_world_def rows_ok_def sample_playlist_def new_playlist_def
      sample_song_def keeps_words_def sorts_by_present_def represents_def entries_of_def entry_row_def slot_def)

theorem insert_songs_refines_list_witness:
  "represents (playlist_songs (snd (pl_insert_songs 5 [sample_song 3] 1 (playlist_world two_entries)))) 5 [1, 3, 2]"
proof -
  obtain r w' where call: "pl_insert_songs 5 [sample_song 3] (int 1) (playlist_world two_entries) = (r, w')"
    by fastforce
  from insert_songs_refines_list [OF playlist_world_facts(1) _ _ call, of "[1, 2]"] playlist_world_facts(6,9) call
  show ?thesis by (simp add: sample_song_def)
qed


theorem remove_duplicate_leaves_gap_witness:
  "\<not> (\<exists>ys. represents (playlist_songs (snd (pl_remove 5 7
      (playlist_world [entry_row 1 0 7 5, entry_row 2 1 7 5, entry_row 3 2 8 5])))) 5 ys)"
proof -
  let ?es = "[entry_row 1 0 7 5, entry_row 2 1 7 5, entry_row 3 2 8 5]"
  obtain r w' where call: "pl_remove 5 7 (playlist_world ?es) = (r, w')" by fastforce
  have "represents ?es 5 (7 # 7 # [8])"
    by (simp add: represents_def entries_of_def entry_row_def slot_def)
  with remove_duplicate_leaves_gap [OF playlist_world_facts(1) _ _ _ call, of "[8]"] call
  show ?thesis by (simp add: playlist_world_facts)
qed

theorem insert_then_remove_song_witness:
  "represents (playlist_songs (snd (pl_remove 5 3 (snd (pl_insert_song 5 (sample_song 3) 0 (playlist_world two_entries))))))
     5 [1, 2]"
proof -
  obtain r1 w1 where c1: "pl_insert_song 5 (sample_song 3) (int 0) (playlist_world two_entries) = (r1, w1)" by fastforce
  obtain r2 w2 where c2: "pl_remove 5 (db_id (sample_song 3)) w1 = (r2, w2)" by fastforce
  from insert_then_remove_song [OF playlist_world_facts(1) _ _ _ _ c1 c2, of "[1, 2]"] playlist_world_facts(6,9) c1 c2
  show ?thesis by (simp add: sample_song_def)
qed

theorem songs_lists_backwards_witness:
  "\<exists>ss. fst (pl_songs sample_playlist 0 1 (playlist_world two_entries)) = Inr ss \<and> map db_id ss = [2]"
proof -
  have "\<forall>x \<in> set [1, 2]. row_lookup (songs (playlist_world two_entries)) x \<noteq> None"
    by (simp add: playlist_world_def row_lookup_def row_find_def sample_song_def)
  from songs_lists_backwards [OF playlist_world_facts(1,2,4,7) _ this, of 0 1] playlist_world_facts(6,8,9)
  show ?thesis by (auto simp: page_def sql_limit_def)
qed

theorem insert_playlist_duplicates_itself_witness:
  "mset (map song_id (entries_of 5 (playlist_songs (snd
     (pl_insert_playlist sample_playlist (CompletePL new_playlist) 0 (playlist_world two_entries)))))) = {#1, 2, 1, 2#}"
proof -
  obtain r w' where call: "pl_insert_playlist sample_playlist (CompletePL new_playlist) 0 (playlist_world two_entries) = (r, w')"
    by fastforce
  from insert_playlist_duplicates_itself [OF playlist_world_facts(1,2,7) _ call, of "[1, 2]"]
    playlist_world_facts(6,8,9) call
  show ?thesis by simp
qed

theorem complete_list_collects_orphans_witness:
  "represents (playlist_songs (snd (pl_insert_song 0 (sample_song 3) 0 (playlist_world two_entries)))) 0 [3]"
proof -
  obtain r w' where call: "pl_insert_song (ptr_id (CompletePL new_playlist)) (sample_song 3) (int (length ([] :: int list)))
      (playlist_world two_entries) = (r, w')" by fastforce
  have "pl_load 1 (playlist_world two_entries) = (Inr (CompletePL new_playlist), playlist_world two_entries)"
    by (simp add: pl_load_def playlist_world_def empty_world_def new_playlist_def)
  from complete_list_collects_orphans [OF playlist_world_facts(1) _ _ this call] playlist_world_facts(6,10) call
  show ?thesis by (simp add: sample_song_def playlist_world_def empty_world_def new_playlist_def)
qed

theorem reorder_breaks_listing_witness:
  "\<exists>p2 w1 w2. pl_load 5 w1 = (Inr (StoredPL p2), w1) \<and>
     pl_songs p2 0 0 w1 = (Inl (Database_error ''prepare''), w2) \<and>
     with_ticket ''x'' w2 = (Inl (Database_error ''prepare''), w2)"
proof -
  let ?w = "playlist_world two_entries"
  obtain r w1 where call: "pl_set_order sample_playlist ''playlist_songs'' True ?w = (r, w1)" by fastforce
  have "row_lookup (playlists ?w) (db_id sample_playlist) \<noteq> None"
    by (simp add: playlist_world_def row_lookup_def row_find_def)
  moreover have "\<forall>rs. order_songs ?w ''upper(playlist_songs) desc'' rs = None"
    by (simp add: playlist_world_def empty_world_def sample_order_def)
  moreover have "order_by sample_playlist \<noteq> ''upper(playlist_songs) desc''"
    by (simp add: playlist_world_facts(7))
  ultimately show ?thesis
    using reorder_breaks_listing [OF playlist_world_facts(1,3,5) _ _ _ _ _ call, of 0 0]
    unfolding playlist_world_facts(8) by fastforce
qed

end
