(* ===== verification/Library.thy ===== *)
theory Library
  imports Playlist
begin

text \<open>
  The music library: songs, artists, albums and directories (\<open>libs/spinny/song.cpp\<close>,
  \<open>libs/spinny/artist.cpp\<close>, \<open>libs/spinny/album.cpp\<close>, \<open>libs/spinny/music_dir.cpp\<close>), the
  \<open>LIKE\<close> comparison their searches rest on (\<open>libs/sqlite/csrc/func.c\<close>), and the playlist
  operations that insert a whole directory, artist or album. The tag library and the file
  system are a parameter (\<open>filesystem\<close>); texts hold no NUL byte.
\<close>

section \<open>Comparison with a pattern\<close>

text \<open>\<open>sqlite3UpperToLower\<close> and \<open>sqliteNextChar\<close>; the end of the list is the NUL byte.\<close>

definition to_lower_char :: "char \<Rightarrow> char" where
  "to_lower_char c = (if 65 \<le> (of_char c :: nat) \<and> (of_char c :: nat) \<le> 90 then char_of (of_char c + 32 :: nat) else c)"

definition to_lower :: "string \<Rightarrow> string" where
  "to_lower = map to_lower_char"

definition is_continuation :: "char \<Rightarrow> bool" where
  "is_continuation c = ((of_char c :: nat) div 64 = 2)"

fun next_char :: "string \<Rightarrow> string" where
  "next_char [] = []"
| "next_char (c # cs) = dropWhile is_continuation cs"

lemma length_next_char: "length (next_char s) \<le> length s"
  by (cases s) (auto simp: le_SucI length_dropWhile_le)

lemma length_next_char_Cons [simp]: "length (next_char (c # cs)) < Suc (length cs)"
  by (simp add: le_imp_less_Suc length_dropWhile_le)

text \<open>The run of wildcards after a \<open>%\<close>: nothing when a \<open>_\<close> finds the end of the string.\<close>

fun skip_wildcards :: "string \<Rightarrow> string \<Rightarrow> (string \<times> string) option" where
  "skip_wildcards (c # p) s =
     (if c = CHR ''%'' then skip_wildcards p s
      else if c = CHR ''_'' then (if s = [] then None else skip_wildcards p (next_char s))
      else Some (c # p, s))"
| "skip_wildcards [] s = Some ([], s)"

lemma length_skip_wildcards: "skip_wildcards p s = Some (p', s') \<Longrightarrow> length p' \<le> length p"
  by (induction p s rule: skip_wildcards.induct) (auto split: if_splits)

text \<open>\<open>patternCompare\<close> as \<open>LIKE\<close> calls it: without an escape, without sets, ignoring case.\<close>

function (sequential) like_match :: "string \<Rightarrow> string \<Rightarrow> bool"
  and like_scan :: "string \<Rightarrow> string \<Rightarrow> bool" where
  "like_match [] s = (s = [])"
| "like_match (c # p) s =
     (if c = CHR ''%'' then
        (case skip_wildcards p s of
           None \<Rightarrow> False
         | Some (p', s') \<Rightarrow> if p' = [] then True else like_scan p' s')
      else if c = CHR ''_'' then s \<noteq> [] \<and> like_match p (next_char s)
      else (case s of [] \<Rightarrow> False | d # t \<Rightarrow> to_lower_char c = to_lower_char d \<and> like_match p t))"
| "like_scan p [] = False"
| "like_scan p (d # t) =
     (if to_lower_char d \<noteq> to_lower_char (hd p) then like_scan p t
      else like_match p (d # t) \<or> like_scan p (next_char (d # t)))"
  by pat_completeness auto

termination
proof (relation "inv_image (less_than <*lex*> less_than <*lex*> less_than)
    (\<lambda>x. case x of Inl (p, s) \<Rightarrow> (length p, length s, 0::nat) | Inr (p, s) \<Rightarrow> (length p, length s, 1))", goal_cases)
  case (2 c p s a p' s')
  then show ?case using length_skip_wildcards [of p s p' s'] by auto
qed (auto simp: length_next_char le_imp_less_Suc length_dropWhile_le)

section \<open>Artists and albums\<close>

definition new_named :: "string \<Rightarrow> named_obj" where
  "new_named n = \<lparr>db_id = 0, obj_name = n\<rparr>"

definition norm_named :: "world \<Rightarrow> named_obj \<Rightarrow> named_obj" where
  "norm_named w a = a\<lparr>obj_name := store_text w (obj_name a)\<rparr>"

definition by_upper_name :: "world \<Rightarrow> named_obj list \<Rightarrow> named_obj list" where
  "by_upper_name w = sort_le (text_le w) (\<lambda>a. to_upper (obj_name a))"

definition by_track :: "world \<Rightarrow> song_obj list \<Rightarrow> song_obj list" where
  "by_track w = sort_le (\<lambda>(a, s) (b, t). a < b \<or> (a = b \<and> text_le w s t)) (\<lambda>s. (track s, to_upper (title s)))"

definition artist_save :: "named_obj \<Rightarrow> (world, named_obj) eff" where
  "artist_save = save_row artists (\<lambda>t w. w\<lparr>artists := t\<rparr>) norm_named"

definition album_save :: "named_obj \<Rightarrow> (world, named_obj) eff" where
  "album_save = save_row albums (\<lambda>t w. w\<lparr>albums := t\<rparr>) norm_named"

definition artist_load :: "int \<Rightarrow> (world, named_obj) eff" where
  "artist_load i = load_row artists (\<lambda>w a. db_id a = i)"

definition album_load :: "int \<Rightarrow> (world, named_obj) eff" where
  "album_load i = load_row albums (\<lambda>w a. db_id a = i)"

definition artist_all :: "(world, named_obj list) eff" where
  "artist_all = sql_load (\<lambda>w. (Inr (by_upper_name w (artists w)), w))"

definition album_all :: "(world, named_obj list) eff" where
  "album_all = sql_load (\<lambda>w. (Inr (by_upper_name w (albums w)), w))"

definition artist_songs :: "named_obj \<Rightarrow> (world, song_obj list) eff" where
  "artist_songs a = sql_load (\<lambda>w. (Inr (by_track w (filter (\<lambda>s. artist_id s = db_id a) (songs w))), w))"

definition album_songs :: "named_obj \<Rightarrow> (world, song_obj list) eff" where
  "album_songs a = sql_load (\<lambda>w. (Inr (by_track w (filter (\<lambda>s. album_id s = db_id a) (songs w))), w))"

definition artist_count :: "(world, nat) eff" where
  "artist_count = sql_exec (\<lambda>w. (Inr (length (artists w)), w))"

definition album_count :: "(world, nat) eff" where
  "album_count = sql_exec (\<lambda>w. (Inr (length (albums w)), w))"

definition artist_num_songs :: "named_obj \<Rightarrow> (world, nat) eff" where
  "artist_num_songs a = sql_exec (\<lambda>w. (Inr (length (filter (\<lambda>s. artist_id s = db_id a) (songs w))), w))"

definition artist_num_albums :: "named_obj \<Rightarrow> (world, nat) eff" where
  "artist_num_albums a = sql_exec (\<lambda>w.
     (Inr (card (album_id ` {s \<in> set (songs w). artist_id s = db_id a})), w))"

text \<open>The counter of an album that was loaded with it, or a query.\<close>

definition album_num_songs :: "named_obj \<times> nat option \<Rightarrow> (world, nat) eff" where
  "album_num_songs a =
     (case snd a of
        Some n \<Rightarrow> ret n
      | None \<Rightarrow> sql_exec (\<lambda>w. (Inr (length (filter (\<lambda>s. album_id s = db_id (fst a)) (songs w))), w)))"

definition artist_name_starts_with :: "string \<Rightarrow> (world, named_obj list) eff" where
  "artist_name_starts_with n = sql_load (\<lambda>w.
     (Inr (by_upper_name w (filter (\<lambda>a. like_match (n @ ''%'') (to_upper (obj_name a))) (artists w))), w))"

definition album_name_starts_with :: "string \<Rightarrow> (world, (named_obj \<times> nat option) list) eff" where
  "album_name_starts_with n = sql_load (\<lambda>w.
     (Inr (map (\<lambda>a. (a, Some (length (filter (\<lambda>s. album_id s = db_id a) (songs w)))))
        (by_upper_name w (filter (\<lambda>a. like_match (n @ ''%'') (to_upper (obj_name a))) (albums w)))), w))"

definition album_with_artist_id :: "int \<Rightarrow> (world, named_obj list) eff" where
  "album_with_artist_id i = sql_load (\<lambda>w.
     (Inr (by_upper_name w (filter (\<lambda>a. \<exists>s \<in> set (songs w). album_id s = db_id a \<and> artist_id s = i) (albums w))), w))"

text \<open>
  \<open>Artist::albums\<close> joins albums and songs, so an album comes once for every song the artist has
  on it. \<open>Artist::with_album\<close> sorts by a column of a table that is not part of its statement,
  which does not compile.
\<close>

definition artist_albums :: "named_obj \<Rightarrow> (world, named_obj list) eff" where
  "artist_albums a = sql_load (\<lambda>w.
     (Inr (by_upper_name w (concat (map (\<lambda>al. map (\<lambda>s. al)
        (filter (\<lambda>s. db_id al = album_id s \<and> artist_id s = db_id a) (songs w))) (albums w)))), w))"

definition artist_with_album :: "named_obj \<Rightarrow> (world, named_obj list) eff" where
  "artist_with_album al = sql_load sql_load_fails"

definition album_artists :: "named_obj \<Rightarrow> (world, named_obj list) eff" where
  "album_artists al = artist_with_album al"

text \<open>
  The first characters, in capitals, with their counts. The first character of a name may have
  several bytes, and \<open>boost::lexical_cast<char>\<close> throws unless there is exactly one. The statement
  is compiled from its own text, not from the command buffer. (The order of the groups of
  albums is the one the engine groups in.)
\<close>

definition first_char :: "string \<Rightarrow> string" where
  "first_char n = to_upper (take (length n - length (next_char n)) n)"

definition starting_groups :: "world \<Rightarrow> named_obj list \<Rightarrow> (string \<times> nat) list" where
  "starting_groups w as =
     (let keys = map (first_char \<circ> obj_name) (filter (\<lambda>a. obj_name a \<noteq> []) as)
      in map (\<lambda>k. (k, count_list keys k)) (sort_le (text_le w) (\<lambda>k. k) (remdups keys)))"

fun read_groups :: "(string \<times> nat) list \<Rightarrow> exn + (char \<times> nat) list" where
  "read_groups [] = Inr []"
| "read_groups ((k, n) # gs) =
     (case k of
        [c] \<Rightarrow> (case read_groups gs of Inl e \<Rightarrow> Inl e | Inr cs \<Rightarrow> Inr ((c, n) # cs))
      | _ \<Rightarrow> Inl Bad_lexical_cast)"

definition artist_starting_chars :: "(world, (char \<times> nat) list) eff" where
  "artist_starting_chars w = (read_groups (starting_groups w (artists w)), w)"

definition album_starting_chars :: "(world, (char \<times> nat) list) eff" where
  "album_starting_chars w = (read_groups (starting_groups w (albums w)), w)"

text \<open>
  \<open>find_or_create\<close>: a loaded pointer that is null would make a new row, but \<open>load_one\<close> never
  returns a null pointer, it throws.
\<close>

definition or_create :: "(world, named_obj) eff \<Rightarrow> (named_obj \<Rightarrow> (world, named_obj) eff) \<Rightarrow> string \<Rightarrow>
    (world, named_obj) eff" where
  "or_create load save n =
     bindE (bindE load (\<lambda>a. ret (Some a)))
       (\<lambda>r. case r of Some a \<Rightarrow> ret a | None \<Rightarrow> save (new_named n))"

definition artist_find_or_create :: "string \<Rightarrow> (world, named_obj) eff" where
  "artist_find_or_create n = or_create (load_row artists (\<lambda>w a. obj_name a = store_text w n)) artist_save n"

definition album_find_or_create :: "string \<Rightarrow> (world, named_obj) eff" where
  "album_find_or_create n = or_create (load_row albums (\<lambda>w a. obj_name a = store_text w n)) album_save n"

section \<open>Songs\<close>

text \<open>
  What the code sees of a disk: whether a path exists, the leaves of a directory in the order of
  its iterator (nothing when the path is no directory), which paths are directories, what the
  tag library reads from a file (nothing when it can not open the file: its pointer is null) and
  the bytes of a file. A path is the list of the names that were appended.
\<close>

record tag =
  tag_title :: string
  tag_artist :: string
  tag_album :: string
  tag_track :: int
  tag_year :: int
  tag_audio :: "(int \<times> int) option"

record filesystem =
  fs_exists :: "string list \<Rightarrow> bool"
  fs_entries :: "string list \<Rightarrow> string list option"
  fs_is_dir :: "string list \<Rightarrow> bool"
  fs_tag :: "string list \<Rightarrow> tag option"
  fs_bytes :: "string list \<Rightarrow> string option"

definition path_text :: "string list \<Rightarrow> string" where
  "path_text p = sep_by ''/'' p"

definition is_interesting :: "string list \<Rightarrow> bool" where
  "is_interesting p = ends_with (to_upper (path_text p)) ''.MP3''"

definition new_song :: song_obj where
  "new_song = \<lparr>db_id = 0, dir_id = 0, artist_id = 0, album_id = 0, file_name = [], title = [], track = 0,
     song_length = 0, bitrate = 0, year = 0\<rparr>"

definition norm_song :: "world \<Rightarrow> song_obj \<Rightarrow> song_obj" where
  "norm_song w s = s\<lparr>file_name := store_text w (file_name s), title := store_text w (title s)\<rparr>"

text \<open>\<open>Song::save\<close>: the statement of an update does not compile (see \<open>song_update_values\<close>).\<close>

definition song_save :: "song_obj \<Rightarrow> (world, song_obj) eff" where
  "song_save s =
     (if db_id s = 0 then save_row songs (\<lambda>t w. w\<lparr>songs := t\<rparr>) norm_song s
      else sql_exec (throw (Database_error ''prepare'')))"

definition song_load :: "int \<Rightarrow> (world, song_obj) eff" where
  "song_load i = load_row songs (\<lambda>w s. db_id s = i)"

definition song_count :: "(world, nat) eff" where
  "song_count = sql_exec (\<lambda>w. (Inr (length (songs w)), w))"

definition song_destroy :: "song_obj \<Rightarrow> (world, unit) eff" where
  "song_destroy s =
     (if db_id s = 0 then ret ()
      else sql_exec (\<lambda>w. (Inr (), w\<lparr>songs := snd (destroy_obj s (songs w))\<rparr>)))"

definition song_matches :: "string \<Rightarrow> song_obj \<Rightarrow> bool" where
  "song_matches query s = like_match (''%'' @ query @ ''%'') (title s)"

definition song_num_matching :: "string \<Rightarrow> (world, nat) eff" where
  "song_num_matching query = sql_exec (\<lambda>w. (Inr (length (filter (song_matches query) (songs w))), w))"

definition song_find :: "string \<Rightarrow> int \<Rightarrow> int \<Rightarrow> (world, song_obj list) eff" where
  "song_find query first cnt = sql_load (\<lambda>w.
     (Inr (sql_limit first cnt
        (sort_le (text_le w) (\<lambda>s. to_lower (title s)) (filter (song_matches query) (songs w)))), w))"

definition song_artist :: "song_obj \<Rightarrow> (world, named_obj) eff" where
  "song_artist s = artist_load (artist_id s)"

definition song_album :: "song_obj \<Rightarrow> (world, named_obj) eff" where
  "song_album s = album_load (album_id s)"

text \<open>
  \<open>artist_name\<close> and \<open>album_name\<close>: the name that came with the song in a playlist's list (empty when
  there is no such row), or else the one of the row that is loaded.
\<close>

definition song_artist_name :: "song_obj \<Rightarrow> (world, string) eff" where
  "song_artist_name s w =
     (case row_lookup (artists w) (artist_id s) of
        Some a \<Rightarrow> if obj_name a \<noteq> [] then (Inr (obj_name a), w) else bindE (song_artist s) (\<lambda>a. ret (obj_name a)) w
      | None \<Rightarrow> bindE (song_artist s) (\<lambda>a. ret (obj_name a)) w)"

definition song_album_name :: "song_obj \<Rightarrow> (world, string) eff" where
  "song_album_name s w =
     (case row_lookup (albums w) (album_id s) of
        Some a \<Rightarrow> if obj_name a \<noteq> [] then (Inr (obj_name a), w) else bindE (song_album s) (\<lambda>a. ret (obj_name a)) w
      | None \<Rightarrow> bindE (song_album s) (\<lambda>a. ret (obj_name a)) w)"

section \<open>Directories\<close>

definition norm_dir :: "world \<Rightarrow> music_dir_obj \<Rightarrow> music_dir_obj" where
  "norm_dir w d = d\<lparr>dir_name := store_text w (dir_name d)\<rparr>"

definition md_save :: "music_dir_obj \<Rightarrow> (world, music_dir_obj) eff" where
  "md_save = save_row music_dirs (\<lambda>t w. w\<lparr>music_dirs := t\<rparr>) norm_dir"

definition md_save_if_needed :: "music_dir_obj \<Rightarrow> (world, music_dir_obj) eff" where
  "md_save_if_needed d = (if needs_saved d then md_save d else ret d)"

definition md_load :: "int \<Rightarrow> (world, music_dir_obj) eff" where
  "md_load i = load_row music_dirs (\<lambda>w d. db_id d = i)"

definition by_upper_dir :: "world \<Rightarrow> music_dir_obj list \<Rightarrow> music_dir_obj list" where
  "by_upper_dir w = sort_le (text_le w) (\<lambda>d. to_upper (dir_name d))"

definition md_children_of :: "int \<Rightarrow> (world, music_dir_obj list) eff" where
  "md_children_of i = sql_load (\<lambda>w. (Inr (by_upper_dir w (filter (\<lambda>d. parent_id d = i) (music_dirs w))), w))"

definition md_roots :: "(world, music_dir_obj list) eff" where
  "md_roots = sql_load (\<lambda>w. (Inr (by_upper_dir w (filter (\<lambda>d. parent_id d = 0) (music_dirs w))), w))"

definition md_songs :: "music_dir_obj \<Rightarrow> (world, song_obj list) eff" where
  "md_songs d = sql_load (\<lambda>w. (Inr (by_track w (filter (\<lambda>s. dir_id s = db_id d) (songs w))), w))"

definition is_root :: "music_dir_obj \<Rightarrow> bool" where
  "is_root d = (parent_id d = 0)"

definition md_num_children :: "music_dir_obj \<Rightarrow> (world, nat) eff" where
  "md_num_children d = sql_exec (\<lambda>w. (Inr (length (filter (\<lambda>x. parent_id x = db_id d) (music_dirs w))), w))"

definition md_num_songs :: "music_dir_obj \<Rightarrow> (world, nat) eff" where
  "md_num_songs d = sql_exec (\<lambda>w. (Inr (length (filter (\<lambda>s. dir_id s = db_id d) (songs w))), w))"

text \<open>\<open>create_root\<close>: the root that has this path already, or a new object that is not saved.\<close>

definition create_root :: "string \<Rightarrow> (world, music_dir_obj) eff" where
  "create_root p = sql_load (\<lambda>w.
     (Inr (case filter (\<lambda>d. parent_id d = 0 \<and> dir_name d = store_text w p) (music_dirs w) of
        d # _ \<Rightarrow> d
      | [] \<Rightarrow> \<lparr>db_id = 0, parent_id = 0, dir_name = p\<rparr>), w))"

definition add_child :: "music_dir_obj \<Rightarrow> string \<Rightarrow> music_dir_obj" where
  "add_child d n = \<lparr>db_id = 0, parent_id = db_id d, dir_name = n\<rparr>"

text \<open>
  \<open>path\<close> collects the names up to a root. The table does not change meanwhile, so a walk that is
  longer than the table has rows is in a cycle and never ends; \<open>Abort\<close> stands for that.
\<close>

fun names_upward :: "nat \<Rightarrow> music_dir_obj \<Rightarrow> (world, string list) eff" where
  "names_upward 0 d = throw Abort"
| "names_upward (Suc n) d =
     (if is_root d then ret [dir_name d]
      else bindE (md_load (parent_id d)) (\<lambda>p.
           bindE (names_upward n p) (\<lambda>ns. ret (dir_name d # ns))))"

definition md_path :: "music_dir_obj \<Rightarrow> (world, string list) eff" where
  "md_path d = bindE (getS (\<lambda>w. length (music_dirs w))) (\<lambda>n.
     bindE (names_upward (Suc n) d) (\<lambda>ns. ret (rev ns)))"

definition md_is_valid :: "filesystem \<Rightarrow> music_dir_obj \<Rightarrow> (world, bool) eff" where
  "md_is_valid fs d = bindE (md_path d) (\<lambda>p. ret (fs_exists fs p))"

definition song_path :: "song_obj \<Rightarrow> (world, string list) eff" where
  "song_path s = bindE (md_load (dir_id s)) (\<lambda>d. bindE (md_path d) (\<lambda>p. ret (p @ [file_name s])))"

definition dir_row_destroy :: "music_dir_obj \<Rightarrow> (world, unit) eff" where
  "dir_row_destroy d =
     (if db_id d = 0 then ret ()
      else sql_exec (\<lambda>w. (Inr (), w\<lparr>music_dirs := snd (destroy_obj d (music_dirs w))\<rparr>)))"

text \<open>
  \<open>destroy\<close> calls itself for the children first. Rows are only deleted on the way back, so a
  descent that is deeper than the table has rows goes on for ever and ends the process.
\<close>

fun destroy_below :: "nat \<Rightarrow> music_dir_obj \<Rightarrow> (world, unit) eff" where
  "destroy_below 0 d = throw Abort"
| "destroy_below (Suc n) d =
     bindE (md_children_of (db_id d)) (\<lambda>ds.
     bindE (forE ds (destroy_below n)) (\<lambda>_.
     bindE (md_songs d) (\<lambda>ss.
     bindE (forE ss song_destroy) (\<lambda>_. dir_row_destroy d))))"

definition md_destroy :: "music_dir_obj \<Rightarrow> (world, unit) eff" where
  "md_destroy d = bindE (getS (\<lambda>w. length (music_dirs w))) (\<lambda>n. destroy_below (Suc n) d)"

section \<open>Reading the disk\<close>

text \<open>
  \<open>Song::create_from_file\<close>. A file the tag library can not open gives a null tag, which is
  dereferenced: the process ends.
\<close>

definition song_from_tag :: "music_dir_obj \<Rightarrow> string \<Rightarrow> tag \<Rightarrow> int \<Rightarrow> int \<Rightarrow> song_obj" where
  "song_from_tag d n t artist album = new_song\<lparr>dir_id := db_id d, file_name := n, title := tag_title t,
     artist_id := artist, album_id := album, track := tag_track t, year := tag_year t,
     song_length := (case tag_audio t of Some (l, b) \<Rightarrow> l | None \<Rightarrow> 0),
     bitrate := (case tag_audio t of Some (l, b) \<Rightarrow> b | None \<Rightarrow> 0)\<rparr>"

definition song_create_from_file :: "filesystem \<Rightarrow> music_dir_obj \<Rightarrow> string \<Rightarrow> (world, song_obj) eff" where
  "song_create_from_file fs d0 n =
     bindE (md_save_if_needed d0) (\<lambda>d.
     bindE (md_path d) (\<lambda>p0. let p = p0 @ [n] in
       if \<not> fs_exists fs p \<or> \<not> is_interesting p then throw (File_error ''doesn't exist, or not equipped to handle'')
       else (case fs_tag fs p of
          None \<Rightarrow> throw Abort
        | Some t \<Rightarrow>
            bindE (artist_find_or_create (tag_artist t)) (\<lambda>ar.
            bindE (album_find_or_create (tag_album t)) (\<lambda>al.
            song_save (song_from_tag d n t (db_id ar) (db_id al)))))))"

text \<open>\<open>catch( Song::file_error & ){ }\<close>\<close>

definition catch_file_error :: "(world, 'a) eff \<Rightarrow> (world, unit) eff" where
  "catch_file_error m w =
     (case m w of
        (Inl (File_error e), w') \<Rightarrow> (Inr (), w')
      | (Inl e, w') \<Rightarrow> (Inl e, w')
      | (Inr x, w') \<Rightarrow> (Inr (), w'))"

text \<open>
  The loop of \<open>MusicDir::sync\<close> over the entries of the directory: \<open>ds\<close> and \<open>ss\<close> are the known
  subdirectories and songs that were not met yet, \<open>child\<close> is the recursive call.
\<close>

fun sync_entries :: "(music_dir_obj \<Rightarrow> (world, unit) eff) \<Rightarrow> filesystem \<Rightarrow> music_dir_obj \<Rightarrow> string list \<Rightarrow>
    string list \<Rightarrow> music_dir_obj list \<Rightarrow> song_obj list \<Rightarrow>
    (world, music_dir_obj list \<times> song_obj list) eff" where
  "sync_entries child fs d p [] ds ss = ret (ds, ss)"
| "sync_entries child fs d p (leaf # leaves) ds ss =
     (if fs_is_dir fs (p @ [leaf]) then
        (case find (\<lambda>x. dir_name x = leaf) ds of
           None \<Rightarrow> bindE (md_save (add_child d leaf)) (\<lambda>c.
                   bindE (child c) (\<lambda>_. sync_entries child fs d p leaves ds ss))
         | Some c \<Rightarrow> bindE (child c) (\<lambda>_. sync_entries child fs d p leaves (remove1 c ds) ss))
      else if is_interesting (p @ [leaf]) then
        (case find (\<lambda>s. file_name s = leaf) ss of
           None \<Rightarrow> bindE (catch_file_error (song_create_from_file fs d leaf))
                     (\<lambda>_. sync_entries child fs d p leaves ds ss)
         | Some s \<Rightarrow> sync_entries child fs d p leaves ds (remove1 s ss))
      else sync_entries child fs d p leaves ds ss)"

text \<open>
  \<open>MusicDir::sync\<close>; the argument counts the levels that are left below the limit of 255. The
  directory iterator throws for a path that is no directory.
\<close>

definition sync_step :: "(music_dir_obj \<Rightarrow> (world, unit) eff) \<Rightarrow> filesystem \<Rightarrow> music_dir_obj \<Rightarrow> (world, unit) eff" where
  "sync_step child fs d =
     bindE (md_path d) (\<lambda>p.
     if \<not> fs_exists fs p then ret ()
     else bindE (md_children_of (db_id d)) (\<lambda>ds.
          bindE (md_songs d) (\<lambda>ss.
          case fs_entries fs p of
            None \<Rightarrow> throw (Runtime_error ''filesystem'')
          | Some leaves \<Rightarrow>
              bindE (sync_entries child fs d p leaves ds ss) (\<lambda>(ds', ss').
              bindE (forE ds' md_destroy) (\<lambda>_. forE ss' song_destroy)))))"

primrec sync_levels :: "nat \<Rightarrow> filesystem \<Rightarrow> music_dir_obj \<Rightarrow> (world, unit) eff" where
  "sync_levels 0 fs d0 = bindE (md_path d0) (\<lambda>_. bindE (md_save_if_needed d0) (\<lambda>d. ret ()))"
| "sync_levels (Suc n) fs d0 =
     bindE (md_path d0) (\<lambda>_. bindE (md_save_if_needed d0) (sync_step (sync_levels n fs) fs))"

definition md_sync :: "filesystem \<Rightarrow> nat \<Rightarrow> music_dir_obj \<Rightarrow> (world, unit) eff" where
  "md_sync fs depth d = sync_levels (255 - depth) fs d"

text \<open>\<open>init_music_dir\<close> and \<open>App::rescan\<close>\<close>

definition init_music_dir :: "filesystem \<Rightarrow> string \<Rightarrow> (world, unit) eff" where
  "init_music_dir fs p = bindE (create_root p) (md_sync fs 0)"

definition rescan :: "filesystem \<Rightarrow> string list \<Rightarrow> (world, unit) eff" where
  "rescan fs dirs = forE dirs (init_music_dir fs)"

section \<open>Whole directories, artists and albums into a playlist\<close>

definition pl_insert_dir :: "int \<Rightarrow> music_dir_obj \<Rightarrow> int \<Rightarrow> (world, unit) eff" where
  "pl_insert_dir i d pos = bindE (md_songs d) (\<lambda>ss. pl_insert_songs i ss pos)"

definition pl_insert_artist :: "int \<Rightarrow> named_obj \<Rightarrow> int \<Rightarrow> (world, unit) eff" where
  "pl_insert_artist i a pos = bindE (artist_songs a) (\<lambda>ss. pl_insert_songs i ss pos)"

definition pl_insert_album :: "int \<Rightarrow> named_obj \<Rightarrow> int \<Rightarrow> (world, unit) eff" where
  "pl_insert_album i a pos = bindE (album_songs a) (\<lambda>ss. pl_insert_songs i ss pos)"

end
