(* ===== verification/Searches.thy ===== *)
theory Searches
  imports Library
begin

text \<open>
  What the searches for songs by a part of their title find.
\<close>

section \<open>Searches\<close>

text \<open>The engine compares texts by a total order.\<close>

definition orders_texts :: "world \<Rightarrow> bool" where
  "orders_texts w = ((\<forall>x y. text_le w x y \<or> text_le w y x) \<and>
     (\<forall>x y z. text_le w x y \<longrightarrow> text_le w y z \<longrightarrow> text_le w x z))"

text \<open>A text without wildcards that does not start inside a character.\<close>

definition plain_query :: "string \<Rightarrow> bool" where
  "plain_query s = (CHR ''%'' \<notin> set s \<and> CHR ''_'' \<notin> set s \<and> (s \<noteq> [] \<longrightarrow> \<not> is_continuation (hd s)))"

lemma like_prefix:
  "CHR ''%'' \<notin> set p \<Longrightarrow> CHR ''_'' \<notin> set p \<Longrightarrow>
   like_match (p @ ''%'') s = (take (length p) (to_lower s) = to_lower p)"
proof (induction p arbitrary: s)
  case (Cons c p)
  then show ?case by (cases s) (auto simp: to_lower_def)
qed (simp add: to_lower_def)

lemma continuation_lower: "to_lower_char a = to_lower_char b \<Longrightarrow> is_continuation a = is_continuation b"
proof -
  have "is_continuation (to_lower_char c) = is_continuation c" for c
    using nat_of_char_less_256 [of c] by (auto simp: is_continuation_def to_lower_char_def)
  then show "to_lower_char a = to_lower_char b \<Longrightarrow> ?thesis" by metis
qed

lemma contains_skip:
  assumes "p \<noteq> []" "\<not> is_continuation (hd p)"
  shows "contains (to_lower p) (to_lower (dropWhile is_continuation s)) = contains (to_lower p) (to_lower s)"
proof (induction s)
  case (Cons c s)
  obtain d p' where p: "p = d # p'" using assms(1) by (cases p) auto
  show ?case
  proof (cases "is_continuation c")
    case True
    then have "to_lower_char d \<noteq> to_lower_char c"
      using continuation_lower [of d c] assms(2) p by auto
    with Cons p True show ?thesis by (auto simp: to_lower_def)
  qed simp
qed simp

lemma like_scan_contains:
  assumes "p \<noteq> []" "\<not> is_continuation (hd p)" "CHR ''%'' \<notin> set p" "CHR ''_'' \<notin> set p"
  shows "like_scan (p @ ''%'') s = contains (to_lower p) (to_lower s)"
proof (induction "length s" arbitrary: s rule: less_induct)
  case less
  obtain c p' where p: "p = c # p'" using assms(1) by (cases p) auto
  show ?case
  proof (cases s)
    case Nil
    with assms(1) show ?thesis by (simp add: to_lower_def)
  next
    case (Cons d t)
    have prefix: "like_match (p @ ''%'') (d # t) = (take (length p) (to_lower (d # t)) = to_lower p)"
      by (rule like_prefix [OF assms(3,4)])
    have cont: "contains (to_lower p) (to_lower (d # t)) =
        (take (length p) (to_lower (d # t)) = to_lower p \<or> contains (to_lower p) (to_lower t))"
      by (simp add: to_lower_def)
    have miss: "to_lower_char d \<noteq> to_lower_char c \<Longrightarrow> take (length p) (to_lower (d # t)) \<noteq> to_lower p"
      by (simp add: p to_lower_def)
    have ih: "like_scan (p @ ''%'') t = contains (to_lower p) (to_lower t)"
      "like_scan (p @ ''%'') (dropWhile is_continuation t) =
         contains (to_lower p) (to_lower (dropWhile is_continuation t))"
      using less Cons by (simp_all add: le_imp_less_Suc length_dropWhile_le)
    show ?thesis
    proof (cases "to_lower_char d = to_lower_char c")
      case True
      then have "like_scan (p @ ''%'') s =
          (like_match (p @ ''%'') (d # t) \<or> like_scan (p @ ''%'') (dropWhile is_continuation t))"
        using Cons p by (simp del: like_match.simps)
      then show ?thesis
        unfolding prefix ih(2) contains_skip [OF assms(1,2)] Cons cont .
    next
      case False
      then have "like_scan (p @ ''%'') s = like_scan (p @ ''%'') t" using Cons p by simp
      then show ?thesis unfolding ih(1) Cons cont using miss False by simp
    qed
  qed
qed

lemma song_matches_plain:
  assumes "plain_query query"
  shows "song_matches query s = contains (to_lower query) (to_lower (title s))"
proof (cases query)
  case Nil
  then show ?thesis by (cases "title s") (simp_all add: song_matches_def to_lower_def)
next
  case (Cons c p)
  with assms have "like_match (''%'' @ query @ ''%'') (title s) = like_scan (query @ ''%'') (title s)"
    by (auto simp: plain_query_def)
  also have "\<dots> = contains (to_lower query) (to_lower (title s))"
    using assms Cons by (intro like_scan_contains) (auto simp: plain_query_def)
  finally show ?thesis by (simp add: song_matches_def)
qed

text \<open>
  C35: searching finds what it is asked for. For a text without wildcards, the songs found are
  those whose title contains it in whatever case, sorted by title and cut to the page asked for;
  the count is the number of all of them. An empty text finds every song.
\<close>

theorem search_finds_substrings:
  assumes "\<not> stale_cmd w" "plain_query query" "0 \<le> first" "0 \<le> cnt" "orders_texts w"
    and "song_find query first cnt w = (r, w')"
  shows "\<exists>ss. r = Inr (take (nat cnt) (drop (nat first) ss)) \<and> w' = w \<and>
    mset ss = mset (filter (\<lambda>s. contains (to_lower query) (to_lower (title s))) (songs w)) \<and>
    song_num_matching query w = (Inr (length ss), w) \<and>
    sorted_wrt (\<lambda>a b. text_le w (to_lower (title a)) (to_lower (title b))) ss"
proof -
  let ?m = "filter (\<lambda>s. contains (to_lower query) (to_lower (title s))) (songs w)"
  let ?ss = "sort_le (text_le w) (\<lambda>s. to_lower (title s)) ?m"
  have "song_matches query = (\<lambda>s. contains (to_lower query) (to_lower (title s)))"
    by (rule ext) (rule song_matches_plain [OF assms(2)])
  then have m: "filter (song_matches query) (songs w) = ?m" by simp
  have "song_find query first cnt w = (Inr (take (nat cnt) (drop (nat first) ?ss)), w)"
    using assms(1,4) by (simp add: song_find_def m sql_limit_def)
  moreover have "song_num_matching query w = (Inr (length ?ss), w)"
    using assms(1) by (simp add: song_num_matching_def m)
  moreover have "mset ?ss = mset ?m" by simp
  moreover have "sorted_wrt (\<lambda>a b. text_le w (to_lower (title a)) (to_lower (title b))) ?ss"
    using assms(5) unfolding orders_texts_def by (intro sorted_sort_le) blast+
  ultimately show ?thesis using assms(6) by (intro exI [of _ ?ss]) simp
qed

definition song_world :: world where
  "song_world = empty_world\<lparr>songs :=
     [new_song\<lparr>db_id := 1, title := ''Blue Train''\<rparr>, new_song\<lparr>db_id := 2, title := ''Kind of blue''\<rparr>,
      new_song\<lparr>db_id := 3, title := ''So What''\<rparr>]\<rparr>"

theorem search_finds_substrings_witness:
  "\<exists>ss. song_find ''BLUE'' 0 10 song_world = (Inr ss, song_world) \<and>
     mset (map title ss) = {#''Kind of blue'', ''Blue Train''#}"
proof -
  have w: "\<not> stale_cmd song_world" "orders_texts song_world"
    by (auto simp: song_world_def empty_world_def orders_texts_def)
  have q: "plain_query ''BLUE''" by (simp add: plain_query_def is_continuation_def)
  obtain r w' where f: "song_find ''BLUE'' 0 10 song_world = (r, w')" by fastforce
  have hits: "filter (\<lambda>s. contains (to_lower ''BLUE'') (to_lower (title s))) (songs song_world) =
      [new_song\<lparr>db_id := 1, title := ''Blue Train''\<rparr>, new_song\<lparr>db_id := 2, title := ''Kind of blue''\<rparr>]"
    by code_simp
  from search_finds_substrings [OF w(1) q _ _ w(2) f] obtain ss where
    ss: "r = Inr (take 10 ss)" "w' = song_world"
      "mset ss = {#new_song\<lparr>db_id := 1, title := ''Blue Train''\<rparr>, new_song\<lparr>db_id := 2, title := ''Kind of blue''\<rparr>#}"
    unfolding hits by auto
  have "length ss = 2" using arg_cong [OF ss(3), of size] by simp
  moreover have "mset (map title ss) = {#''Kind of blue'', ''Blue Train''#}"
    using arg_cong [OF ss(3), of "image_mset title"] by (simp add: add_mset_commute)
  ultimately show ?thesis using f ss(1,2) by (intro exI [of _ ss]) simp
qed

end
