(* ===== verification/Reply.thy ===== *)
theory Reply
  imports Request_Correct
begin

text \<open>
  Replies (\<open>libs/ews/reply.cpp\<close>) and the types of files (\<open>libs/ews/mime_types.cpp\<close>). The template
  engine (ClearSilver, a vendored library) is a parameter of the operations that use it.
\<close>

section \<open>Status lines and stock contents\<close>

datatype status_type =
    Ok | Created | Accepted | NoContent | MultipleChoices | MovedPermanently
  | MovedTemporarily | NotModified | BadRequest | Unauthorized | Forbidden | NotFound
  | InternalServerError | NotImplemented | BadGateway | ServiceUnavailable

fun status_code :: "status_type \<Rightarrow> int" where
  "status_code Ok = 200"
| "status_code Created = 201"
| "status_code Accepted = 202"
| "status_code NoContent = 204"
| "status_code MultipleChoices = 300"
| "status_code MovedPermanently = 301"
| "status_code MovedTemporarily = 302"
| "status_code NotModified = 304"
| "status_code BadRequest = 400"
| "status_code Unauthorized = 401"
| "status_code Forbidden = 403"
| "status_code NotFound = 404"
| "status_code InternalServerError = 500"
| "status_code NotImplemented = 501"
| "status_code BadGateway = 502"
| "status_code ServiceUnavailable = 503"

fun status_string :: "status_type \<Rightarrow> string" where
  "status_string Ok = ''HTTP/1.0 200 OK'' @ crlf"
| "status_string Created = ''HTTP/1.0 201 Created'' @ crlf"
| "status_string Accepted = ''HTTP/1.0 202 Accepted'' @ crlf"
| "status_string NoContent = ''HTTP/1.0 204 No Content'' @ crlf"
| "status_string MultipleChoices = ''HTTP/1.0 300 Multiple Choices'' @ crlf"
| "status_string MovedPermanently = ''HTTP/1.0 301 Moved Permanently'' @ crlf"
| "status_string MovedTemporarily = ''HTTP/1.0 302 Moved Temporarily'' @ crlf"
| "status_string NotModified = ''HTTP/1.0 304 Not Modified'' @ crlf"
| "status_string BadRequest = ''HTTP/1.0 400 Bad Request'' @ crlf"
| "status_string Unauthorized = ''HTTP/1.0 401 Unauthorized'' @ crlf"
| "status_string Forbidden = ''HTTP/1.0 403 Forbidden'' @ crlf"
| "status_string NotFound = ''HTTP/1.0 404 Not Found'' @ crlf"
| "status_string InternalServerError = ''HTTP/1.0 500 Internal Server Error'' @ crlf"
| "status_string NotImplemented = ''HTTP/1.0 501 Not Implemented'' @ crlf"
| "status_string BadGateway = ''HTTP/1.0 502 Bad Gateway'' @ crlf"
| "status_string ServiceUnavailable = ''HTTP/1.0 503 Service Unavailable'' @ crlf"

fun stock_reply :: "status_type \<Rightarrow> string" where
  "stock_reply Ok = []"
| "stock_reply Created =
     ''<html>'' @
     ''<head><title>Created</title></head>'' @
     ''<body><h1>201 Created</h1></body>'' @
     ''</html>''"
| "stock_reply Accepted =
     ''<html>'' @
     ''<head><title>Accepted</title></head>'' @
     ''<body><h1>202 Accepted</h1></body>'' @
     ''</html>''"
| "stock_reply NoContent =
     ''<html>'' @
     ''<head><title>No Content</title></head>'' @
     ''<body><h1>204 Content</h1></body>'' @
     ''</html>''"
| "stock_reply MultipleChoices =
     ''<html>'' @
     ''<head><title>Multiple Choices</title></head>'' @
     ''<body><h1>300 Multiple Choices</h1></body>'' @
     ''</html>''"
| "stock_reply MovedPermanently =
     ''<html>'' @
     ''<head><title>Moved Permanently</title></head>'' @
     ''<body><h1>301 Moved Permanently</h1></body>'' @
     ''</html>''"
| "stock_reply MovedTemporarily =
     ''<html>'' @
     ''<head><title>Moved Temporarily</title></head>'' @
     ''<body><h1>302 Moved Temporarily</h1></body>'' @
     ''</html>''"
| "stock_reply NotModified =
     ''<html>'' @
     ''<head><title>Not Modified</title></head>'' @
     ''<body><h1>304 Not Modified</h1></body>'' @
     ''</html>''"
| "stock_reply BadRequest =
     ''<html>'' @
     ''<head><title>Bad Request</title></head>'' @
     ''<body><h1>400 Bad Request</h1></body>'' @
     ''</html>''"
| "stock_reply Unauthorized =
     ''<html>'' @
     ''<head><title>Unauthorized</title></head>'' @
     ''<body><h1>401 Unauthorized</h1></body>'' @
     ''</html>''"
| "stock_reply Forbidden =
     ''<html>'' @
     ''<head><title>Forbidden</title></head>'' @
     ''<body><h1>403 Forbidden</h1></body>'' @
     ''</html>''"
| "stock_reply NotFound =
     ''<html>'' @
     ''<head><title>Not Found</title></head>'' @
     ''<body><h1>404 Not Found</h1></body>'' @
     ''</html>''"
| "stock_reply InternalServerError =
     ''<html>'' @
     ''<head><title>Internal Server Error</title></head>'' @
     ''<body><h1>500 Internal Server Error</h1></body>'' @
     ''</html>''"
| "stock_reply NotImplemented =
     ''<html>'' @
     ''<head><title>Not Implemented</title></head>'' @
     ''<body><h1>501 Not Implemented</h1></body>'' @
     ''</html>''"
| "stock_reply BadGateway =
     ''<html>'' @
     ''<head><title>Bad Gateway</title></head>'' @
     ''<body><h1>502 Bad Gateway</h1></body>'' @
     ''</html>''"
| "stock_reply ServiceUnavailable =
     ''<html>'' @
     ''<head><title>Service Unavailable</title></head>'' @
     ''<body><h1>503 Service Unavailable</h1></body>'' @
     ''</html>''"

section \<open>Types of files\<close>

definition mime_mappings :: "(string \<times> string) list" where
  "mime_mappings =
     [(''css'', ''text/css''),
      (''mp3'', ''audio/mpeg''),
      (''html'', ''text/html; charset=utf-8''),
      (''png'', ''image/png''),
      (''gif'', ''image/gif''),
      (''xml'', ''text/xml''),
      (''xspf'', ''application/xspf+xml''),
      (''json'', ''application/json''),
      (''jpg'', ''image/jpeg'')]"

definition extension_to_type :: "string \<Rightarrow> string" where
  "extension_to_type ext =
     (case find (\<lambda>m. fst m = ext) mime_mappings of Some m \<Rightarrow> snd m | None \<Rightarrow> ''text/plain'')"

section \<open>Replies\<close>

text \<open>
  \<open>reply_status\<close> is \<open>None\<close> while the C++ member has not been assigned (it is not initialised).
  The values set in the HDF tree of the template are a list of keys and texts.
\<close>

record reply =
  reply_status :: "status_type option"
  reply_headers :: "(string, string) smap"
  content :: string
  template_file :: string
  hdf_values :: "(string \<times> string) list"
  reply_user :: "user_obj option"

definition new_reply :: reply where
  "new_reply = \<lparr>reply_status = None, reply_headers = [], content = [], template_file = [],
     hdf_values = [], reply_user = None\<rparr>"

definition set_header :: "string \<Rightarrow> string \<Rightarrow> reply \<Rightarrow> reply" where
  "set_header name val rep = rep\<lparr>reply_headers := map_insert name val (reply_headers rep)\<rparr>"

definition clear_contents :: "reply \<Rightarrow> reply" where
  "clear_contents rep = rep\<lparr>content := []\<rparr>"

definition write_content :: "string \<Rightarrow> reply \<Rightarrow> reply" where
  "write_content s rep = rep\<lparr>content := content rep @ s\<rparr>"

definition set_basic_headers :: "string \<Rightarrow> reply \<Rightarrow> reply" where
  "set_basic_headers ext rep =
     set_header ''Connection'' ''close''
       (set_header ''Content-Length'' (show_nat (length (content rep)))
         (set_header ''Content-Type'' (extension_to_type ext)
           (rep\<lparr>reply_status := Some Ok\<rparr>)))"

definition set_to :: "status_type \<Rightarrow> reply \<Rightarrow> reply" where
  "set_to stat rep =
     (set_basic_headers ''html'' (rep\<lparr>reply_headers := []\<rparr>))
       \<lparr>reply_status := Some stat, content := stock_reply stat\<rparr>"

text \<open>
  The parameters of a site: its roots, the path concatenation of the file system library and the
  template engine. From the values that were set, the HDF text and the template file, the engine
  gives either nothing (the text or the file did not parse) or whether rendering succeeded, with
  what it wrote up to then.
\<close>

record site =
  doc_root :: string
  tmpl_root :: string
  path_join :: "string \<Rightarrow> string \<Rightarrow> string"
  engine :: "(string \<times> string) list \<Rightarrow> string \<Rightarrow> string \<Rightarrow> (bool \<times> string) option"

definition set_template :: "site \<Rightarrow> string \<Rightarrow> reply \<Rightarrow> bool \<times> reply" where
  "set_template s tmpl rep =
     (if template_file rep = [] then
        (True, rep\<lparr>hdf_values := [(''hdf.loadpaths.def'', tmpl_root s)],
                   template_file := path_join s (tmpl_root s) tmpl\<rparr>)
      else (False, rep\<lparr>template_file := path_join s (tmpl_root s) tmpl\<rparr>))"

definition set_hdf_value :: "string \<Rightarrow> string \<Rightarrow> reply \<Rightarrow> (exn + bool) \<times> reply" where
  "set_hdf_value key val rep =
     (if template_file rep = [] then
        (Inl (Runtime_error ''Unable to set hdf value unless template is set first''), rep)
      else (Inr True, rep\<lparr>hdf_values := hdf_values rep @ [(key, val)]\<rparr>))"

definition set_hdf_int :: "string \<Rightarrow> int \<Rightarrow> reply \<Rightarrow> (exn + bool) \<times> reply" where
  "set_hdf_int key val rep = set_hdf_value key (show_int val) rep"

definition parse_template :: "site \<Rightarrow> reply \<Rightarrow> bool \<times> reply" where
  "parse_template s rep =
     (case engine s (hdf_values rep) (content rep) (template_file rep) of
        None \<Rightarrow> (False, rep)
      | Some (ok, out) \<Rightarrow> (ok, write_content out (clear_contents rep)))"

text \<open>\<open>status_strings::to_buffer\<close> of a status that is not one of the enumeration is the last case.\<close>

definition status_buffer :: "status_type option \<Rightarrow> string" where
  "status_buffer s = (case s of Some t \<Rightarrow> status_string t | None \<Rightarrow> status_string InternalServerError)"

definition header_buffers :: "string \<times> string \<Rightarrow> string list" where
  "header_buffers h = [fst h, '': '', snd h, crlf]"

text \<open>The status line is taken before the template is rendered.\<close>

definition to_buffers :: "site \<Rightarrow> reply \<Rightarrow> string list \<times> reply" where
  "to_buffers s rep =
     (let first = status_buffer (reply_status rep);
          rep' = (if template_file rep \<noteq> [] \<and> reply_status rep = Some Ok then
                    (case parse_template s rep of
                       (True, r) \<Rightarrow>
                         r\<lparr>reply_headers := map_set ''Content-Length''
                             (show_nat (length (content r) mod 2 ^ 32)) (reply_headers r)\<rparr>
                     | (False, r) \<Rightarrow> set_to InternalServerError (r\<lparr>template_file := []\<rparr>))
                  else rep)
      in (first # concat (map header_buffers (reply_headers rep')) @ [crlf, content rep'], rep'))"

definition reply_bytes :: "site \<Rightarrow> reply \<Rightarrow> string" where
  "reply_bytes s rep = concat (fst (to_buffers s rep))"

section \<open>Framing\<close>

text \<open>
  A reply is framed when its \<open>Content-Length\<close> is the length of its content.
\<close>

definition framed :: "reply \<Rightarrow> bool" where
  "framed rep = (map_find (reply_headers rep) ''Content-Length'' = Some (show_nat (length (content rep))))"

lemma find_basic_headers [simp]:
  "map_find (reply_headers (set_basic_headers ext rep)) k =
     (if map_find (reply_headers rep) k \<noteq> None then map_find (reply_headers rep) k
      else if k = ''Content-Type'' then Some (extension_to_type ext)
      else if k = ''Content-Length'' then Some (show_nat (length (content rep)))
      else if k = ''Connection'' then Some ''close''
      else None)"
  by (auto simp: set_basic_headers_def set_header_def)

lemma basic_headers_simps [simp]:
  "content (set_basic_headers ext rep) = content rep"
  "reply_status (set_basic_headers ext rep) = Some Ok"
  "template_file (set_basic_headers ext rep) = template_file rep"
  "reply_user (set_basic_headers ext rep) = reply_user rep"
  by (simp_all add: set_basic_headers_def set_header_def)

lemma set_to_simps [simp]:
  "content (set_to st rep) = stock_reply st" "reply_status (set_to st rep) = Some st"
  "template_file (set_to st rep) = template_file rep" "reply_user (set_to st rep) = reply_user rep"
  "map_find (reply_headers (set_to st rep)) k =
     (if k = ''Content-Type'' then Some ''text/html; charset=utf-8''
      else if k = ''Content-Length'' then Some (show_nat (length (content rep)))
      else if k = ''Connection'' then Some ''close''
      else None)"
  by (simp_all add: set_to_def extension_to_type_def mime_mappings_def)

lemma set_header_simps [simp]:
  "content (set_header k v rep) = content rep" "reply_status (set_header k v rep) = reply_status rep"
  "template_file (set_header k v rep) = template_file rep" "reply_user (set_header k v rep) = reply_user rep"
  "reply_headers (set_header k v rep) = map_insert k v (reply_headers rep)"
  by (simp_all add: set_header_def)

text \<open>
  A stock reply replaces the headers and the content, but announces the length of the
  content it replaces: it is framed exactly when both lengths agree. On a fresh reply (every
  bad request) the announced length is 0 and the error page is longer.
\<close>

theorem stock_reply_announces_old_length:
  "content (set_to st rep) = stock_reply st \<and> reply_status (set_to st rep) = Some st \<and>
   map_find (reply_headers (set_to st rep)) ''Content-Length'' = Some (show_nat (length (content rep))) \<and>
   (framed (set_to st rep) = (length (content rep) = length (stock_reply st))) \<and>
   \<not> framed (set_to BadRequest new_reply)"
  by (auto simp: framed_def show_nat_inj new_reply_def)

text \<open>
  A reply without a template is sent as it is, so it is framed when its basic headers were
  set after its content was written. A template that renders makes the reply framed whatever
  was set before. A template that does not parse gives an error page under the status line of
  success, with the length of the text that should have been rendered.
\<close>

theorem sent_reply_framing:
  assumes "map_find (reply_headers rep) ''Content-Length'' = None"
  shows "let rep1 = set_basic_headers ext rep; (bufs, rep2) = to_buffers s rep1 in
    (template_file rep = [] \<longrightarrow> rep2 = rep1 \<and> framed rep2) \<and>
    (\<forall>out. template_file rep \<noteq> [] \<and> length out < 2 ^ 32 \<and>
       engine s (hdf_values rep1) (content rep) (template_file rep) = Some (True, out) \<longrightarrow>
       framed rep2 \<and> content rep2 = out \<and> hd bufs = status_string Ok) \<and>
    (template_file rep \<noteq> [] \<and> engine s (hdf_values rep1) (content rep) (template_file rep) = None \<longrightarrow>
       hd bufs = status_string Ok \<and> reply_status rep2 = Some InternalServerError \<and>
       content rep2 = stock_reply InternalServerError \<and>
       map_find (reply_headers rep2) ''Content-Length'' = Some (show_nat (length (content rep))))"
  using assms
  by (auto simp: to_buffers_def parse_template_def framed_def Let_def status_buffer_def
      write_content_def clear_contents_def)

definition sample_site :: site where
  "sample_site = \<lparr>doc_root = ''/srv'', tmpl_root = ''/tmpl'', path_join = (\<lambda>a b. a @ ''/'' @ b),
     engine = (\<lambda>hdf text file. if file = ''/tmpl/bad.html'' then None else Some (True, text))\<rparr>"

theorem sent_reply_framing_witness:
  "framed (snd (to_buffers sample_site (set_basic_headers ''json'' (write_content ''[]'' new_reply))))"
  using sent_reply_framing [of "write_content ''[]'' new_reply" "''json''" sample_site]
  by (auto simp: write_content_def new_reply_def split_def Let_def)

section \<open>Reading a reply\<close>

text \<open>The reader of a client: a line up to the first line break; header lines up to an empty one.\<close>

fun read_line :: "string \<Rightarrow> (string \<times> string) option" where
  "read_line (c # d # s) =
     (if c = CHR 0x0D \<and> d = CHR 0x0A then Some ([], s)
      else map_option (\<lambda>(l, r). (c # l, r)) (read_line (d # s)))"
| "read_line _ = None"

fun split_colon :: "string \<Rightarrow> (string \<times> string) option" where
  "split_colon (c # d # s) =
     (if c = CHR '':'' \<and> d = CHR '' '' then Some ([], s)
      else map_option (\<lambda>(l, r). (c # l, r)) (split_colon (d # s)))"
| "split_colon _ = None"

fun read_headers :: "nat \<Rightarrow> string \<Rightarrow> ((string \<times> string) list \<times> string) option" where
  "read_headers 0 s = None"
| "read_headers (Suc n) s =
     (case read_line s of
        None \<Rightarrow> None
      | Some ([], r) \<Rightarrow> Some ([], r)
      | Some (l, r) \<Rightarrow>
          (case (split_colon l, read_headers n r) of
             (Some h, Some (hs, b)) \<Rightarrow> Some (h # hs, b)
           | _ \<Rightarrow> None))"

definition read_reply :: "string \<Rightarrow> (string \<times> (string \<times> string) list \<times> string) option" where
  "read_reply s =
     (case read_line s of
        None \<Rightarrow> None
      | Some (l, r) \<Rightarrow> map_option (\<lambda>(hs, b). (l, hs, b)) (read_headers (length s) r))"

definition plain_header :: "string \<times> string \<Rightarrow> bool" where
  "plain_header h = (CHR 0x0D \<notin> set (fst h) \<and> CHR '':'' \<notin> set (fst h) \<and> CHR 0x0D \<notin> set (snd h))"

lemma read_line_crlf: "CHR 0x0D \<notin> set l \<Longrightarrow> read_line (l @ crlf @ r) = Some (l, r)"
proof (induction l rule: induct_list012)
  case (2 x)
  then show ?case by (simp add: crlf_def)
next
  case (3 x y zs)
  then show ?case by auto
qed (simp add: crlf_def)

lemma split_colon_header: "CHR '':'' \<notin> set n \<Longrightarrow> split_colon (n @ '': '' @ v) = Some (n, v)"
proof (induction n rule: induct_list012)
  case (3 x y zs)
  then show ?case by auto
qed auto

lemma read_headers_bytes:
  "\<forall>h \<in> set hs. plain_header h \<Longrightarrow> length hs < n \<Longrightarrow>
   read_headers n (concat (map (\<lambda>h. concat (header_buffers h)) hs) @ crlf @ b) = Some (hs, b)"
proof (induction hs arbitrary: n)
  case Nil
  then obtain k where "n = Suc k" by (cases n) auto
  then show ?case using read_line_crlf [of "[]" b] by simp
next
  case (Cons h hs)
  then obtain k where n: "n = Suc k" by (cases n) auto
  obtain x v where h: "h = (x, v)" by fastforce
  let ?r = "concat (map (\<lambda>h. concat (header_buffers h)) hs) @ crlf @ b"
  have "read_line ((x @ '': '' @ v) @ crlf @ ?r) = Some (x @ '': '' @ v, ?r)"
    using Cons.prems h by (intro read_line_crlf) (auto simp: plain_header_def)
  moreover have "split_colon (x @ '': '' @ v) = Some (x, v)"
    using Cons.prems h by (intro split_colon_header) (auto simp: plain_header_def)
  moreover have "read_headers k ?r = Some (hs, b)"
    using Cons n by simp
  moreover obtain c t where "x @ '': '' @ v = c # t" by (cases "x @ '': '' @ v") auto
  ultimately show ?case
    using n h by (simp add: header_buffers_def)
qed

lemma concat_concat_map: "concat (concat (map f hs)) = concat (map (\<lambda>h. concat (f h)) hs)"
  by (induction hs) auto

lemma status_string_line: "\<exists>l. status_string st = l @ crlf \<and> CHR 0x0D \<notin> set l"
  by (cases st) auto

lemma read_reply_bytes:
  assumes "to_buffers s rep = (bufs, rep')" "\<forall>h \<in> set (reply_headers rep'). plain_header h"
  shows "\<exists>line. line @ crlf = status_buffer (reply_status rep) \<and>
    read_reply (reply_bytes s rep) = Some (line, reply_headers rep', content rep')"
proof -
  obtain l where l: "status_buffer (reply_status rep) = l @ crlf" "CHR 0x0D \<notin> set l"
    using status_string_line by (cases "reply_status rep") (auto simp: status_buffer_def)
  let ?hs = "concat (map (\<lambda>h. concat (header_buffers h)) (reply_headers rep'))"
  have "bufs = status_buffer (reply_status rep) # concat (map header_buffers (reply_headers rep')) @ [crlf, content rep']"
    using assms(1) by (auto simp: to_buffers_def Let_def)
  then have bytes: "reply_bytes s rep = l @ crlf @ ?hs @ crlf @ content rep'"
    using assms(1) l(1) by (simp add: reply_bytes_def concat_concat_map)
  have "length hs \<le> length (concat (map (\<lambda>h. concat (header_buffers h)) hs))" for hs
    by (induction hs) (auto simp: header_buffers_def)
  then have "length (reply_headers rep') \<le> length ?hs" .
  then have "length (reply_headers rep') < length (reply_bytes s rep)"
    by (simp add: bytes crlf_def)
  then have "read_headers (length (reply_bytes s rep)) (?hs @ crlf @ content rep') =
      Some (reply_headers rep', content rep')"
    using assms(2) by (intro read_headers_bytes)
  moreover have "read_line (reply_bytes s rep) = Some (l, ?hs @ crlf @ content rep')"
    unfolding bytes by (rule read_line_crlf [OF l(2)])
  ultimately show ?thesis using l(1) by (simp add: read_reply_def)
qed

text \<open>
  C37: a client reads from the bytes of a reply its status line, its headers in the order of
  their names and its content, whatever the content is, as long as no header name or value holds
  a carriage return (and no name a colon).
\<close>

theorem reply_bytes_are_read_back:
  assumes "to_buffers s rep = (bufs, rep')" "\<forall>h \<in> set (reply_headers rep'). plain_header h"
  shows "\<exists>line. line @ crlf = status_buffer (reply_status rep) \<and>
    read_reply (reply_bytes s rep) = Some (line, reply_headers rep', content rep')"
  using assms by (rule read_reply_bytes)

theorem reply_bytes_are_read_back_witness:
  "read_reply (reply_bytes sample_site (set_to Forbidden new_reply)) =
     Some (''HTTP/1.0 403 Forbidden'', reply_headers (set_to Forbidden new_reply), stock_reply Forbidden)"
proof -
  have hs: "reply_headers (set_to Forbidden new_reply) =
      [(''Connection'', ''close''), (''Content-Length'', ''0''), (''Content-Type'', ''text/html; charset=utf-8'')]"
    by code_simp
  obtain bufs rep where b: "to_buffers sample_site (set_to Forbidden new_reply) = (bufs, rep)" by fastforce
  then have rep: "rep = set_to Forbidden new_reply"
    by (simp add: to_buffers_def Let_def)
  have "\<forall>h \<in> set (reply_headers rep). plain_header h"
    by (simp add: rep hs plain_header_def)
  from reply_bytes_are_read_back [OF b this] obtain line where
    "line @ crlf = status_string Forbidden"
    "read_reply (reply_bytes sample_site (set_to Forbidden new_reply)) = Some (line, reply_headers rep, content rep)"
    by (auto simp: status_buffer_def)
  then show ?thesis by (simp add: rep)
qed

end
