(* ===== verification/Dispatch.thy ===== *)
theory Dispatch
  imports Reply
begin

text \<open>
  The chain of request handlers (\<open>libs/ews/request_handler.cpp\<close>, \<open>libs/ews/exceptions.cpp\<close>): how they are
  registered by phase, asked in turn, and what their exceptions become.
\<close>

section \<open>Handlers\<close>

datatype request_status = Continue | Stop

datatype request_phase = Beginning | Middle | End | Last

record handler =
  h_name :: string
  h_phase :: request_phase
  h_handle :: "request \<Rightarrow> reply \<Rightarrow> world \<Rightarrow> (exn + request_status) \<times> reply \<times> world"

type_synonym registry = "request_phase \<Rightarrow> handler list"

text \<open>\<open>register_new_handler\<close>: the handler goes to the end of the list of its phase.\<close>

definition register_new_handler :: "handler \<Rightarrow> registry \<Rightarrow> registry" where
  "register_new_handler h reg = reg(h_phase h := reg (h_phase h) @ [h])"

definition register_all :: "handler list \<Rightarrow> registry" where
  "register_all hs = fold register_new_handler hs (\<lambda>_. [])"

section \<open>Exceptions\<close>

definition error_page :: "string \<Rightarrow> string \<Rightarrow> string" where
  "error_page head_text text =
     ''<html>'' @ [CHR 0x0A] @ ''<head><title>'' @ head_text @ ''</title></head>'' @
     ''<body><h1>'' @ text @ ''</h1></body>'' @ ''</html>''"

fun catch_reply :: "exn \<Rightarrow> reply \<Rightarrow> reply" where
  "catch_reply (Ews_not_found m) rep =
     write_content (error_page ''Not Found'' (''404 Not Found error retrieving '' @ m))
       (clear_contents (set_to NotFound rep))"
| "catch_reply (Sqlite_not_found m) rep = set_to NotFound rep"
| "catch_reply (Ews_forbidden m) rep =
     write_content (error_page ''Forbidden'' (''403 Forbidden '' @ m))
       (clear_contents (set_to Forbidden rep))"
| "catch_reply (Ews_error m) rep =
     write_content (error_page ''Internal Server Error'' (''500 '' @ m))
       (clear_contents (set_to InternalServerError rep))"
| "catch_reply e rep = set_to InternalServerError rep"

section \<open>One request\<close>

text \<open>The body of the inner loop: the \<open>try\<close> block with its handlers. Only \<open>Abort\<close> is not caught.\<close>

definition try_handler :: "handler \<Rightarrow> request \<Rightarrow> reply \<Rightarrow> world \<Rightarrow> (exn + request_status) \<times> reply \<times> world" where
  "try_handler h req rep w =
     (case h_handle h req rep w of
        (Inr Stop, rep', w') \<Rightarrow> (Inr Stop, set_header ''X-HANDLED-BY'' (h_name h) rep', w')
      | (Inr Continue, rep', w') \<Rightarrow> (Inr Continue, rep', w')
      | (Inl e, rep', w') \<Rightarrow>
          if e = Abort then (Inl Abort, rep', w') else (Inr Stop, catch_reply e rep', w'))"

fun run_handlers :: "handler list \<Rightarrow> request \<Rightarrow> reply \<Rightarrow> world \<Rightarrow>
    (exn + request_status) \<times> reply \<times> world" where
  "run_handlers [] req rep w = (Inr Continue, rep, w)"
| "run_handlers (h # hs) req rep w =
     (case try_handler h req rep w of
        (Inr Continue, rep', w') \<Rightarrow> run_handlers hs req rep' w'
      | r \<Rightarrow> r)"

fun run_phases :: "request_phase list \<Rightarrow> registry \<Rightarrow> request \<Rightarrow> reply \<Rightarrow> world \<Rightarrow>
    (exn + request_status) \<times> reply \<times> world" where
  "run_phases [] reg req rep w = (Inr Continue, rep, w)"
| "run_phases (p # ps) reg req rep w =
     (case run_handlers (reg p) req rep w of
        (Inr Continue, rep', w') \<Rightarrow> run_phases ps reg req rep' w'
      | r \<Rightarrow> r)"

definition session_cookie :: "user_obj \<Rightarrow> string" where
  "session_cookie u = ''Ticket='' @ ticket u @ ''; path=/;''"

definition handle_request :: "registry \<Rightarrow> request \<Rightarrow> reply \<Rightarrow> world \<Rightarrow> (exn + bool) \<times> reply \<times> world" where
  "handle_request reg req rep w =
     (case run_phases [Beginning, Middle, End, Last] reg req rep w of
        (Inl e, rep1, w1) \<Rightarrow> (Inl e, rep1, w1)
      | (Inr status, rep1, w1) \<Rightarrow>
          (let rep2 = (if reply_user rep1 = None then rep1\<lparr>reply_user := req_user req\<rparr> else rep1);
               last = (\<lambda>r. if status \<noteq> Stop then set_to NotFound r else r)
           in case reply_user rep2 of
                None \<Rightarrow> (Inr True, last rep2, w1)
              | Some u \<Rightarrow>
                  (let rep3 = set_header ''Set-Cookie'' (session_cookie u) rep2 in
                   case update_access_time u w1 of
                     (Inl e, w2) \<Rightarrow> (Inl e, rep3, w2)
                   | (Inr u', w2) \<Rightarrow> (Inr True, last (rep3\<lparr>reply_user := Some u'\<rparr>), w2))))"

section \<open>Properties\<close>

lemma run_handlers_append:
  "run_handlers (pre @ post) req rep w =
     (case run_handlers pre req rep w of
        (Inr Continue, rep', w') \<Rightarrow> run_handlers post req rep' w'
      | r \<Rightarrow> r)"
  by (induction pre arbitrary: rep w) (auto split: prod.splits sum.splits request_status.splits)

lemma run_phases_flat:
  "run_phases ps reg req rep w = run_handlers (concat (map reg ps)) req rep w"
proof (induction ps arbitrary: rep w)
  case (Cons p ps)
  then show ?case
    by (auto simp: run_handlers_append split: prod.splits sum.splits request_status.splits)
qed simp

lemma register_all_phase: "register_all hs p = filter (\<lambda>h. h_phase h = p) hs"
proof -
  have "fold register_new_handler hs reg p = reg p @ filter (\<lambda>h. h_phase h = p) hs" for reg
    by (induction hs arbitrary: reg) (auto simp: register_new_handler_def)
  then show ?thesis by (simp add: register_all_def)
qed

text \<open>
  C26: the loop over the phases asks the handlers of the first phase in the order they were
  registered, then those of the second, and so on; the first that does not continue ends it, and
  what comes after it is not asked.
\<close>

theorem handlers_in_phase_order:
  assumes "concat (map (\<lambda>p. filter (\<lambda>h. h_phase h = p) hs) [Beginning, Middle, End, Last]) = pre @ h # post"
    and "run_handlers pre req rep w = (Inr Continue, rep1, w1)"
    and "fst (h_handle h req rep1 w1) \<noteq> Inr Continue"
  shows "run_phases [Beginning, Middle, End, Last] (register_all hs) req rep w = try_handler h req rep1 w1 \<and>
    fst (try_handler h req rep1 w1) \<in> {Inr Stop, Inl Abort}"
proof -
  have flat: "concat (map (register_all hs) [Beginning, Middle, End, Last]) = pre @ h # post"
    using assms(1) by (simp add: register_all_phase)
  obtain res rep2 w2 where r: "h_handle h req rep1 w1 = (res, rep2, w2)"
    by (cases "h_handle h req rep1 w1")
  have "res \<noteq> Inr Continue" using assms(3) r by simp
  then have decided: "fst (try_handler h req rep1 w1) \<in> {Inr Stop, Inl Abort}"
    using r by (cases res) (auto simp: try_handler_def split: request_status.splits)
  then have "run_handlers (pre @ h # post) req rep w = try_handler h req rep1 w1"
    by (auto simp: run_handlers_append assms(2) split: prod.splits)
  with decided show ?thesis by (simp only: run_phases_flat flat)
qed

definition stop_handler :: handler where
  "stop_handler = \<lparr>h_name = ''A'', h_phase = Last, h_handle = (\<lambda>req rep w. (Inr Stop, rep, w))\<rparr>"

definition pass_handler :: handler where
  "pass_handler = \<lparr>h_name = ''B'', h_phase = Beginning, h_handle = (\<lambda>req rep w. (Inr Continue, rep, w))\<rparr>"

theorem handlers_in_phase_order_witness:
  "run_phases [Beginning, Middle, End, Last] (register_all [stop_handler, pass_handler]) new_request new_reply empty_world =
     try_handler stop_handler new_request new_reply empty_world"
  using handlers_in_phase_order [of "[stop_handler, pass_handler]" "[pass_handler]" stop_handler "[]"
      new_request new_reply empty_world new_reply empty_world]
  by (simp add: stop_handler_def pass_handler_def try_handler_def)

text \<open>
  C31: what a handler throws decides the status: a missing page or row is 404, a refusal 403,
  everything else 500; only the classes of the server itself put their message on the page, and
  the reply keeps the user it had. The length it announces is the one of the content the handler
  had written before it threw.
\<close>

theorem exception_becomes_status:
  assumes "h_handle h req rep w = (Inl e, rep1, w1)" "e \<noteq> Abort"
  shows "\<exists>rep2. try_handler h req rep w = (Inr Stop, rep2, w1) \<and>
    reply_status rep2 = Some (case e of Ews_not_found _ \<Rightarrow> NotFound | Sqlite_not_found _ \<Rightarrow> NotFound
      | Ews_forbidden _ \<Rightarrow> Forbidden | _ \<Rightarrow> InternalServerError) \<and>
    reply_user rep2 = reply_user rep1 \<and>
    map_find (reply_headers rep2) ''Content-Length'' = Some (show_nat (length (content rep1))) \<and>
    (\<forall>m. e \<in> {Ews_not_found m, Ews_forbidden m, Ews_error m} \<longrightarrow> contains m (content rep2)) \<and>
    ((\<forall>m. e \<notin> {Ews_not_found m, Ews_forbidden m, Ews_error m}) \<longrightarrow>
       content rep2 = stock_reply (the (reply_status rep2)))"
proof -
  have c: "contains m (a @ m @ b)" for m a b by (auto simp: contains_iff)
  have page: "contains m (error_page t (p @ m))" for m t p
    using c [of m "''<html>'' @ [CHR 0x0A] @ ''<head><title>'' @ t @ ''</title></head>'' @ ''<body><h1>'' @ p"
        "''</h1></body>'' @ ''</html>''"]
    by (simp add: error_page_def)
  have "try_handler h req rep w = (Inr Stop, catch_reply e rep1, w1)"
    using assms by (simp add: try_handler_def)
  then show ?thesis
    using assms(2) page [of _ "''Not Found''" "''404 Not Found error retrieving ''"]
      page [of _ "''Forbidden''" "''403 Forbidden ''"] page [of _ "''Internal Server Error''" "''500 ''"]
    by (cases e) (auto simp: write_content_def clear_contents_def)
qed

theorem exception_becomes_status_witness:
  "\<exists>rep2. try_handler \<lparr>h_name = ''C'', h_phase = Last,
      h_handle = (\<lambda>req rep w. (Inl (Ews_forbidden ''no''), rep, w))\<rparr> new_request new_reply empty_world =
    (Inr Stop, rep2, empty_world) \<and> reply_status rep2 = Some Forbidden"
  using exception_becomes_status [of "\<lparr>h_name = ''C'', h_phase = Last,
      h_handle = (\<lambda>req rep w. (Inl (Ews_forbidden ''no''), rep, w))\<rparr>" new_request new_reply empty_world
      "Ews_forbidden ''no''" new_reply empty_world]
  by auto



end
