(* ===== verification/Connections.thy ===== *)
theory Connections
  imports Dispatch Request_Decode
begin

text \<open>
  Connections, their manager and the server (\<open>libs/ews/connection.cpp\<close>,
  \<open>libs/ews/connection_manager.cpp\<close>, \<open>libs/ews/server.cpp\<close>). The operations that were started and
  have not completed are part of the state; the completion of one of them is a step. The web
  thread runs one completion handler at a time, and an exception that leaves a handler leaves
  \<open>io_service::run\<close> and with it the thread, which nothing catches.
\<close>

section \<open>State\<close>

datatype pending_op = NoOp | Reading | Writing string

record connection =
  c_parser :: pstate
  c_request :: request
  c_reply :: reply
  c_open :: bool
  c_detached :: bool
  c_pending :: pending_op

definition new_connection :: connection where
  "new_connection = \<lparr>c_parser = MethodStart, c_request = new_request, c_reply = new_reply,
     c_open = True, c_detached = False, c_pending = NoOp\<rparr>"

text \<open>
  The connections are numbered in the order they are created; \<open>waiting\<close> is the number of
  \<open>new_connection_\<close>, \<open>managed\<close> the set of the connection manager, \<open>sent\<close> the replies whose
  writing was started.
\<close>

record server =
  conns :: "nat \<Rightarrow> connection option"
  waiting :: nat
  managed :: "nat set"
  accepting :: bool
  sent :: "(nat \<times> string) list"
  srv_world :: world
  crashed :: bool

definition start_server :: "world \<Rightarrow> server" where
  "start_server w = \<lparr>conns = [0 \<mapsto> new_connection], waiting = 0, managed = {}, accepting = True,
     sent = [], srv_world = w, crashed = False\<rparr>"

definition put_conn :: "nat \<Rightarrow> connection \<Rightarrow> server \<Rightarrow> server" where
  "put_conn i c s = s\<lparr>conns := (conns s)(i \<mapsto> c)\<rparr>"

section \<open>Operations\<close>

definition conn_start :: "connection \<Rightarrow> connection" where
  "conn_start c = c\<lparr>c_pending := Reading\<rparr>"

definition conn_stop :: "connection \<Rightarrow> connection" where
  "conn_stop c = (if \<not> c_detached c then c\<lparr>c_open := False\<rparr> else c)"

definition manager_start :: "nat \<Rightarrow> server \<Rightarrow> server" where
  "manager_start i s =
     (case conns s i of
        None \<Rightarrow> s
      | Some c \<Rightarrow> put_conn i (conn_start c) (s\<lparr>managed := insert i (managed s)\<rparr>))"

definition manager_remove :: "nat \<Rightarrow> server \<Rightarrow> server" where
  "manager_remove i s = s\<lparr>managed := managed s - {i}\<rparr>"

definition manager_stop :: "nat \<Rightarrow> server \<Rightarrow> server" where
  "manager_stop i s =
     (case conns s i of
        None \<Rightarrow> manager_remove i s
      | Some c \<Rightarrow> put_conn i (conn_stop c) (manager_remove i s))"

definition manager_stop_all :: "server \<Rightarrow> server" where
  "manager_stop_all s =
     s\<lparr>conns := (\<lambda>i. if i \<in> managed s then map_option conn_stop (conns s i) else conns s i),
       managed := {}\<rparr>"

definition conn_detach_socket :: "nat \<Rightarrow> server \<Rightarrow> server" where
  "conn_detach_socket i s =
     (case conns s i of
        None \<Rightarrow> s
      | Some c \<Rightarrow> put_conn i (c\<lparr>c_detached := True\<rparr>) (manager_remove i s))"

definition server_handle_accept :: "bool \<Rightarrow> server \<Rightarrow> server" where
  "server_handle_accept err s =
     (if \<not> err then
        (let s1 = manager_start (waiting s) s; n = Suc (waiting s)
         in put_conn n new_connection (s1\<lparr>waiting := n\<rparr>))
      else s\<lparr>accepting := False\<rparr>)"

definition server_handle_stop :: "server \<Rightarrow> server" where
  "server_handle_stop s = manager_stop_all (s\<lparr>accepting := False\<rparr>)"

text \<open>\<open>asio::async_write\<close> of the buffers of the reply.\<close>

definition start_write :: "site \<Rightarrow> nat \<Rightarrow> connection \<Rightarrow> server \<Rightarrow> server" where
  "start_write st i c s =
     (let (bufs, rep) = to_buffers st (c_reply c); out = concat bufs
      in put_conn i (c\<lparr>c_reply := rep, c_pending := Writing out\<rparr>) (s\<lparr>sent := sent s @ [(i, out)]\<rparr>))"

text \<open>The successful branch of \<open>connection::handle_read\<close>, for the bytes that arrived.\<close>

definition read_bytes :: "site \<Rightarrow> registry \<Rightarrow> nat \<Rightarrow> connection \<Rightarrow> string \<Rightarrow> server \<Rightarrow> server" where
  "read_bytes st reg i c bytes s =
     (case parse bytes (c_parser c) (c_request c) (srv_world s) of
        (Inl e, p, r, w) \<Rightarrow>
          put_conn i (c\<lparr>c_parser := p, c_request := r, c_pending := NoOp\<rparr>) (s\<lparr>srv_world := w, crashed := True\<rparr>)
      | (Inr (TTrue, _), p, r, w) \<Rightarrow>
          (let c1 = c\<lparr>c_parser := p, c_request := r, c_pending := NoOp\<rparr> in
           case handle_request reg r (c_reply c) w of
             (Inl e, rep, w') \<Rightarrow> put_conn i (c1\<lparr>c_reply := rep\<rparr>) (s\<lparr>srv_world := w', crashed := True\<rparr>)
           | (Inr handled, rep, w') \<Rightarrow>
               (let c2 = c1\<lparr>c_reply := (if \<not> handled then set_to InternalServerError rep else rep)\<rparr>;
                    s2 = s\<lparr>srv_world := w'\<rparr>
                in if \<not> c_detached c2 then start_write st i c2 s2 else put_conn i c2 s2))
      | (Inr (TFalse, _), p, r, w) \<Rightarrow>
          start_write st i
            (c\<lparr>c_parser := p, c_request := r, c_reply := set_to BadRequest (c_reply c), c_pending := NoOp\<rparr>)
            (s\<lparr>srv_world := w\<rparr>)
      | (Inr (Indeterminate, _), p, r, w) \<Rightarrow>
          put_conn i (c\<lparr>c_parser := p, c_request := r, c_pending := Reading\<rparr>) (s\<lparr>srv_world := w\<rparr>))"

text \<open>How an operation ended: with data, with an error, or because it was cancelled.\<close>

datatype completion = Success string | Failure | Aborted

definition conn_handle_read :: "site \<Rightarrow> registry \<Rightarrow> nat \<Rightarrow> connection \<Rightarrow> completion \<Rightarrow> server \<Rightarrow> server" where
  "conn_handle_read st reg i c e s =
     (case e of
        Success bytes \<Rightarrow> read_bytes st reg i c bytes s
      | Failure \<Rightarrow> manager_stop i (put_conn i (c\<lparr>c_pending := NoOp\<rparr>) s)
      | Aborted \<Rightarrow> put_conn i (c\<lparr>c_pending := NoOp\<rparr>) s)"

definition conn_handle_write :: "nat \<Rightarrow> connection \<Rightarrow> completion \<Rightarrow> server \<Rightarrow> server" where
  "conn_handle_write i c e s =
     (case e of
        Aborted \<Rightarrow> put_conn i (c\<lparr>c_pending := NoOp\<rparr>) s
      | _ \<Rightarrow> manager_stop i (put_conn i (c\<lparr>c_pending := NoOp\<rparr>) s))"

section \<open>Steps\<close>

text \<open>
  An operation on a closed socket completes as cancelled, one on an open socket does not. A
  buffer has 8192 bytes and a successful read at least one.
\<close>

definition may_complete :: "connection \<Rightarrow> completion \<Rightarrow> bool" where
  "may_complete c e =
     (case e of
        Success bytes \<Rightarrow> c_open c \<and> bytes \<noteq> [] \<and> length bytes \<le> 8192
      | Failure \<Rightarrow> c_open c
      | Aborted \<Rightarrow> \<not> c_open c)"

inductive server_step :: "site \<Rightarrow> registry \<Rightarrow> server \<Rightarrow> server \<Rightarrow> bool" for st reg where
  Accept: "\<not> crashed s \<Longrightarrow> accepting s \<Longrightarrow> server_step st reg s (server_handle_accept err s)"
| Read: "\<not> crashed s \<Longrightarrow> conns s i = Some c \<Longrightarrow> c_pending c = Reading \<Longrightarrow> may_complete c e \<Longrightarrow>
    server_step st reg s (conn_handle_read st reg i c e s)"
| Write: "\<not> crashed s \<Longrightarrow> conns s i = Some c \<Longrightarrow> c_pending c = Writing out \<Longrightarrow> may_complete c e \<Longrightarrow>
    server_step st reg s (conn_handle_write i c e s)"
| Shutdown: "\<not> crashed s \<Longrightarrow> server_step st reg s (server_handle_stop s)"

inductive_cases server_stepE: "server_step st reg s s'"

inductive reachable :: "site \<Rightarrow> registry \<Rightarrow> world \<Rightarrow> server \<Rightarrow> bool" for st reg w where
  Start: "reachable st reg w (start_server w)"
| Step: "reachable st reg w s \<Longrightarrow> server_step st reg s s' \<Longrightarrow> reachable st reg w s'"

section \<open>Buffers\<close>

lemma put_conn_simps [simp]:
  "conns (put_conn i c s) = (conns s)(i \<mapsto> c)" "waiting (put_conn i c s) = waiting s"
  "managed (put_conn i c s) = managed s" "accepting (put_conn i c s) = accepting s"
  "sent (put_conn i c s) = sent s" "srv_world (put_conn i c s) = srv_world s"
  "crashed (put_conn i c s) = crashed s"
  by (simp_all add: put_conn_def)

lemma put_conn_put [simp]:
  "put_conn i c (put_conn i d s) = put_conn i c s"
  "put_conn i c ((put_conn i d s)\<lparr>srv_world := w\<rparr>) = put_conn i c (s\<lparr>srv_world := w\<rparr>)"
  "put_conn i c ((put_conn i d s)\<lparr>srv_world := w, crashed := b\<rparr>) = put_conn i c (s\<lparr>srv_world := w, crashed := b\<rparr>)"
  "put_conn i c ((put_conn i d s)\<lparr>srv_world := w, sent := l\<rparr>) = put_conn i c (s\<lparr>srv_world := w, sent := l\<rparr>)"
  by (simp_all add: put_conn_def)

text \<open>The buffers a client sends one after the other, read while the connection waits for data.\<close>

fun feed :: "site \<Rightarrow> registry \<Rightarrow> nat \<Rightarrow> string list \<Rightarrow> server \<Rightarrow> server" where
  "feed st reg i [] s = s"
| "feed st reg i (b # bs) s =
     (case conns s i of
        Some c \<Rightarrow> if c_pending c = Reading \<and> \<not> crashed s
                  then feed st reg i bs (read_bytes st reg i c b s) else s
      | None \<Rightarrow> s)"

lemma feed_idle: "(\<forall>c. conns s i = Some c \<longrightarrow> c_pending c \<noteq> Reading \<or> crashed s) \<Longrightarrow> feed st reg i bs s = s"
  by (cases bs) (auto split: option.split)

lemma read_bytes_decided:
  assumes "fst (parse b (c_parser c) (c_request c) (srv_world s)) = Inr (t, rest)" "t \<noteq> Indeterminate"
  shows "\<exists>c'. conns (read_bytes st reg i c b s) i = Some c' \<and> c_pending c' \<noteq> Reading"
  using assms
  by (auto simp: read_bytes_def start_write_def Let_def split: prod.splits sum.splits tribool.splits)

lemma start_write_put [simp]:
  "start_write st i c (put_conn i d s) = start_write st i c s"
  "start_write st i c ((put_conn i d s)\<lparr>srv_world := w\<rparr>) = start_write st i c (s\<lparr>srv_world := w\<rparr>)"
  by (simp_all add: start_write_def split_def Let_def put_conn_def)

lemma put_conn_world [simp]: "(put_conn i d (s\<lparr>srv_world := w\<rparr>))\<lparr>srv_world := v\<rparr> = put_conn i d (s\<lparr>srv_world := v\<rparr>)"
  by (simp add: put_conn_def)

lemma put_conn_crash [simp]: "(put_conn i d s)\<lparr>srv_world := v, crashed := b\<rparr> = put_conn i d (s\<lparr>srv_world := v, crashed := b\<rparr>)"
  by (simp add: put_conn_def)

lemma read_bytes_again:
  assumes "parse x p r w = parse y (c_parser c) (c_request c) (srv_world s)"
  shows "read_bytes st reg i (c\<lparr>c_parser := p, c_request := r, c_pending := Reading\<rparr>) x (put_conn i d (s\<lparr>srv_world := w\<rparr>)) =
    read_bytes st reg i c y s"
proof -
  obtain res p2 r2 w2 where y: "parse y (c_parser c) (c_request c) (srv_world s) = (res, p2, r2, w2)"
    by (cases "parse y (c_parser c) (c_request c) (srv_world s)")
  obtain hres rep3 w3 where h: "handle_request reg r2 (c_reply c) w2 = (hres, rep3, w3)"
    by (cases "handle_request reg r2 (c_reply c) w2")
  show ?thesis
  proof (cases res)
    case (Inl e)
    with assms y show ?thesis by (simp add: read_bytes_def)
  next
    case (Inr a)
    obtain t rest where a: "a = (t, rest)" by fastforce
    show ?thesis
    proof (cases t)
      case TTrue
      with assms y h Inr a show ?thesis
        by (cases hres) (simp_all add: read_bytes_def Let_def)
    qed (use assms y Inr a in \<open>simp_all add: read_bytes_def\<close>)
  qed
qed

lemma feed_concat:
  assumes "conns s i = Some c" "c_pending c = Reading" "\<not> crashed s" "bs \<noteq> []"
  shows "feed st reg i bs s = read_bytes st reg i c (concat bs) s"
  using assms
proof (induction bs arbitrary: s c)
  case (Cons b bs)
  let ?s1 = "read_bytes st reg i c b s"
  have step: "feed st reg i (b # bs) s = feed st reg i bs ?s1" using Cons.prems by simp
  obtain res p r w where parse1: "parse b (c_parser c) (c_request c) (srv_world s) = (res, p, r, w)"
    by (cases "parse b (c_parser c) (c_request c) (srv_world s)")
  show ?case
  proof (cases "bs = []")
    case True
    with step show ?thesis by simp
  next
    case False
    show ?thesis
    proof (cases "\<exists>rest. res = Inr (Indeterminate, rest)")
      case True
      let ?c1 = "c\<lparr>c_parser := p, c_request := r, c_pending := Reading\<rparr>"
      have s1: "?s1 = put_conn i ?c1 (s\<lparr>srv_world := w\<rparr>)"
        using True parse1 by (auto simp: read_bytes_def)
      have "feed st reg i bs ?s1 = read_bytes st reg i ?c1 (concat bs) ?s1"
        by (rule Cons.IH) (simp_all add: s1 Cons.prems False)
      also have "\<dots> = read_bytes st reg i c (b @ concat bs) s"
        unfolding s1 by (rule read_bytes_again) (use True parse1 in \<open>auto simp: parse_append\<close>)
      finally show ?thesis using step by simp
    next
      case False
      have "feed st reg i bs ?s1 = ?s1"
      proof (cases res)
        case (Inl e)
        with parse1 show ?thesis by (intro feed_idle) (simp add: read_bytes_def)
      next
        case (Inr x)
        obtain t rest where x: "x = (t, rest)" by fastforce
        with False Inr have "t \<noteq> Indeterminate" by auto
        with read_bytes_decided [of b c s t rest st reg i] parse1 Inr x show ?thesis
          by (intro feed_idle) auto
      qed
      also have "?s1 = read_bytes st reg i c (b @ concat bs) s"
        using False parse1
        by (auto simp: read_bytes_def parse_append split: prod.split sum.split tribool.split)
      finally show ?thesis using step by simp
    qed
  qed
qed simp

text \<open>
  C33: a connection ends in the same state, with the same reply and the same world, however the
  bytes of its client are cut into buffers.
\<close>

theorem feed_is_one_read:
  assumes "conns s i = Some c" "c_pending c = Reading" "\<not> crashed s" "bs \<noteq> []"
  shows "feed st reg i bs s = read_bytes st reg i c (concat bs) s"
  using assms by (rule feed_concat)

section \<open>The invariant\<close>

definition conn_ok :: "server \<Rightarrow> nat \<Rightarrow> connection \<Rightarrow> bool" where
  "conn_ok s i c = (\<not> c_detached c \<and>
     (case c_pending c of
        NoOp \<Rightarrow> \<not> c_open c \<or> crashed s
      | Reading \<Rightarrow> (c_open c \<longleftrightarrow> i \<in> managed s) \<and> i \<notin> fst ` set (sent s) \<and>
          parser_ok (c_parser c) (c_request c) \<and> c_reply c = new_reply
      | Writing out \<Rightarrow> (c_open c \<longleftrightarrow> i \<in> managed s) \<and> (i, out) \<in> set (sent s)))"

definition server_ok :: "server \<Rightarrow> bool" where
  "server_ok s = (distinct (map fst (sent s)) \<and> (\<forall>i \<in> fst ` set (sent s). i < waiting s) \<and>
     conns s (waiting s) = Some new_connection \<and> (\<forall>i > waiting s. conns s i = None) \<and>
     (\<forall>i \<in> managed s. i < waiting s \<and> (\<exists>c. conns s i = Some c \<and> c_open c \<and> (c_pending c \<noteq> NoOp \<or> crashed s))) \<and>
     (\<forall>i c. i < waiting s \<longrightarrow> conns s i = Some c \<longrightarrow> conn_ok s i c))"

lemma conn_ok_put [simp]:
  "conn_ok (put_conn j d s) i c = conn_ok s i c" "conn_ok (s\<lparr>srv_world := w\<rparr>) i c = conn_ok s i c"
  "conn_ok (s\<lparr>waiting := n\<rparr>) i c = conn_ok s i c" "conn_ok (s\<lparr>accepting := b\<rparr>) i c = conn_ok s i c"
  "conn_ok (s\<lparr>conns := f\<rparr>) i c = conn_ok s i c"
  by (simp_all add: conn_ok_def cong: pending_op.case_cong)

lemma server_ok_world [simp]:
  "server_ok (s\<lparr>srv_world := w\<rparr>) = server_ok s" "server_ok (s\<lparr>accepting := b\<rparr>) = server_ok s"
  by (simp_all add: server_ok_def)

lemma server_ok_put:
  assumes "server_ok s" "i < waiting s" "conn_ok s i c"
    "i \<in> managed s \<longrightarrow> c_open c \<and> (c_pending c \<noteq> NoOp \<or> crashed s)"
  shows "server_ok (put_conn i c s)"
  using assms by (auto simp: server_ok_def)

lemma server_ok_conn:
  "server_ok s \<Longrightarrow> conns s i = Some c \<Longrightarrow> i < waiting s \<Longrightarrow> conn_ok s i c"
  by (simp add: server_ok_def)

lemma server_ok_pending:
  assumes "server_ok s" "conns s i = Some c" "c_pending c \<noteq> NoOp"
  shows "i < waiting s"
proof -
  have "i \<noteq> waiting s" using assms by (auto simp: server_ok_def new_connection_def)
  moreover have "\<not> waiting s < i" using assms by (auto simp: server_ok_def)
  ultimately show ?thesis by simp
qed

lemma conn_ok_crash: "conn_ok s i c \<Longrightarrow> conn_ok (s\<lparr>srv_world := w, crashed := True\<rparr>) i c"
  by (auto simp: conn_ok_def split: pending_op.splits)

lemma server_ok_crash: "server_ok s \<Longrightarrow> server_ok (s\<lparr>srv_world := w, crashed := True\<rparr>)"
  by (auto simp: server_ok_def conn_ok_crash)

lemma server_ok_write:
  assumes ok: "server_ok s" "i < waiting s" "i \<notin> fst ` set (sent s)" "\<not> c_detached c"
    and opn: "c_open c \<longleftrightarrow> i \<in> managed s"
  shows "server_ok (start_write st i c s)"
proof -
  obtain bufs rep where b: "to_buffers st (c_reply c) = (bufs, rep)" by fastforce
  let ?out = "concat bufs"
  let ?s = "s\<lparr>sent := sent s @ [(i, ?out)]\<rparr>"
  let ?c = "c\<lparr>c_reply := rep, c_pending := Writing ?out\<rparr>"
  have other: "conn_ok ?s j d" if "j \<noteq> i" "conn_ok s j d" for j d
    using that by (auto simp: conn_ok_def split: pending_op.splits)
  have "conn_ok ?s i ?c" using assms by (simp add: conn_ok_def)
  with ok opn other show ?thesis
    by (auto simp: start_write_def b server_ok_def put_conn_def Let_def)
qed

lemma read_bytes_ok:
  assumes ok: "server_ok s" and c: "conns s i = Some c" "c_pending c = Reading" "c_open c" and run: "\<not> crashed s"
  shows "server_ok (read_bytes st reg i c bytes s)"
proof -
  have i: "i < waiting s" using server_ok_pending [OF ok c(1)] c(2) by simp
  have co: "conn_ok s i c" using server_ok_conn [OF ok c(1) i] .
  then have cf: "\<not> c_detached c" "i \<in> managed s" "i \<notin> fst ` set (sent s)" "parser_ok (c_parser c) (c_request c)"
    "c_reply c = new_reply"
    using c by (simp_all add: conn_ok_def)
  have crash: "server_ok (put_conn i d (s\<lparr>srv_world := w, crashed := True\<rparr>))"
    if "c_open d" "c_pending d = NoOp" "\<not> c_detached d" for d w
    using server_ok_crash [OF ok, of w] i that
    by (intro server_ok_put) (simp_all add: conn_ok_def)
  have "write": "server_ok (start_write st i d (s\<lparr>srv_world := w\<rparr>))"
    if "c_open d" "\<not> c_detached d" for d w
    using ok i that cf by (intro server_ok_write) simp_all
  obtain res p r w where y: "parse bytes (c_parser c) (c_request c) (srv_world s) = (res, p, r, w)"
    by (cases "parse bytes (c_parser c) (c_request c) (srv_world s)")
  show ?thesis
  proof (cases res)
    case (Inl e)
    with y c cf crash show ?thesis by (simp add: read_bytes_def)
  next
    case (Inr a)
    obtain t rest where a: "a = (t, rest)" by fastforce
    show ?thesis
    proof (cases t)
      case TTrue
      obtain hres rep3 w3 where h: "handle_request reg r (c_reply c) w = (hres, rep3, w3)"
        by (cases "handle_request reg r (c_reply c) w")
      with TTrue y Inr a c cf crash "write" show ?thesis
        by (cases hres) (simp_all add: read_bytes_def Let_def)
    next
      case TFalse
      with y Inr a c cf "write" show ?thesis by (simp add: read_bytes_def)
    next
      case Indeterminate
      have "parser_ok p r"
        using parse_keeps_ok [OF cf(4)] y Inr a Indeterminate by blast
      with ok i c cf Indeterminate y Inr a show ?thesis
        by (simp add: read_bytes_def) (intro server_ok_put; simp add: conn_ok_def)
    qed
  qed
qed

lemma manager_stop_ok:
  assumes ok: "server_ok s" and c: "conns s i = Some c" "c_pending c \<noteq> NoOp"
  shows "server_ok (manager_stop i (put_conn i (c\<lparr>c_pending := NoOp\<rparr>) s))"
proof -
  have i: "i < waiting s" using server_ok_pending [OF ok c] .
  have "\<not> c_detached c" using server_ok_conn [OF ok c(1) i] by (simp add: conn_ok_def)
  then have eq: "manager_stop i (put_conn i (c\<lparr>c_pending := NoOp\<rparr>) s) =
      put_conn i (c\<lparr>c_pending := NoOp, c_open := False\<rparr>) (s\<lparr>managed := managed s - {i}\<rparr>)"
    by (simp add: manager_stop_def conn_stop_def manager_remove_def put_conn_def)
  have other: "conn_ok (s\<lparr>managed := managed s - {i}\<rparr>) j d" if "j \<noteq> i" "conn_ok s j d" for j d
    using that by (auto simp: conn_ok_def split: pending_op.splits)
  have "conn_ok (s\<lparr>managed := managed s - {i}\<rparr>) i (c\<lparr>c_pending := NoOp, c_open := False\<rparr>)"
    using \<open>\<not> c_detached c\<close> by (simp add: conn_ok_def)
  with ok other i show ?thesis unfolding eq by (auto simp: server_ok_def put_conn_def)
qed

lemma aborted_ok:
  assumes ok: "server_ok s" and c: "conns s i = Some c" "c_pending c \<noteq> NoOp" "\<not> c_open c"
  shows "server_ok (put_conn i (c\<lparr>c_pending := NoOp\<rparr>) s)"
proof -
  have i: "i < waiting s" using server_ok_pending [OF ok c(1,2)] .
  have co: "conn_ok s i c" using server_ok_conn [OF ok c(1) i] .
  then have "i \<notin> managed s" using c by (auto simp: conn_ok_def split: pending_op.splits)
  with ok i co c show ?thesis by (intro server_ok_put) (auto simp: conn_ok_def)
qed

lemma accept_ok:
  assumes "server_ok s"
  shows "server_ok (server_handle_accept err s)"
proof (cases err)
  case False
  let ?i = "waiting s"
  let ?c = "conn_start new_connection"
  have new: "conns s ?i = Some new_connection" using assms by (simp add: server_ok_def)
  have unsent: "?i \<notin> fst ` set (sent s)" using assms by (auto simp: server_ok_def)
  have eq: "server_handle_accept err s =
      put_conn (Suc ?i) new_connection (put_conn ?i ?c (s\<lparr>managed := insert ?i (managed s), waiting := Suc ?i\<rparr>))"
    using False new by (simp add: server_handle_accept_def manager_start_def put_conn_def Let_def)
  have "conn_ok (s\<lparr>managed := insert ?i (managed s), waiting := Suc ?i\<rparr>) ?i ?c"
    using unsent parser_ok_new by (simp add: conn_ok_def conn_start_def new_connection_def)
  moreover have "conn_ok (s\<lparr>managed := insert ?i (managed s), waiting := Suc ?i\<rparr>) j d"
    if "j \<noteq> ?i" "conn_ok s j d" for j d
    using that by (auto simp: conn_ok_def split: pending_op.splits)
  ultimately show ?thesis
    using assms unfolding eq
    by (auto simp: server_ok_def put_conn_def conn_start_def new_connection_def less_Suc_eq)
qed (simp add: server_handle_accept_def assms)

lemma stop_ok:
  assumes "server_ok s"
  shows "server_ok (server_handle_stop s)"
proof -
  let ?s = "server_handle_stop s"
  have "conn_ok ?s j d" if j: "conns ?s j = Some d" "j < waiting s" for j d
  proof (cases "j \<in> managed s")
    case True
    then obtain c where c: "conns s j = Some c" "d = conn_stop c"
      using j by (auto simp: server_handle_stop_def manager_stop_all_def)
    then have "conn_ok s j c" using server_ok_conn [OF assms _ j(2)] by simp
    with c show ?thesis
      by (auto simp: conn_ok_def conn_stop_def server_handle_stop_def manager_stop_all_def split: pending_op.splits)
  next
    case False
    then have "conns s j = Some d" using j by (simp add: server_handle_stop_def manager_stop_all_def)
    then have "conn_ok s j d" using server_ok_conn [OF assms _ j(2)] by simp
    with False show ?thesis
      by (auto simp: conn_ok_def server_handle_stop_def manager_stop_all_def split: pending_op.splits)
  qed
  moreover have "waiting s \<notin> managed s" using assms by (auto simp: server_ok_def)
  ultimately show ?thesis
    using assms by (auto simp: server_ok_def server_handle_stop_def manager_stop_all_def)
qed

lemma server_step_ok:
  assumes "server_ok s" "server_step st reg s s'"
  shows "server_ok s'"
  using assms(2,1)
proof cases
  case (Accept err)
  with assms(1) accept_ok show ?thesis by simp
next
  case (Read i c e)
  with assms(1) show ?thesis
    by (cases e) (auto simp: conn_handle_read_def may_complete_def intro: read_bytes_ok manager_stop_ok aborted_ok)
next
  case (Write i c out e)
  with assms(1) show ?thesis
    by (cases e) (auto simp: conn_handle_write_def may_complete_def intro: manager_stop_ok aborted_ok)
next
  case Shutdown
  with assms(1) stop_ok show ?thesis by simp
qed

lemma start_server_ok: "server_ok (start_server w)"
  by (simp add: server_ok_def start_server_def)

lemma reachable_ok: "reachable st reg w s \<Longrightarrow> server_ok s"
  by (induction rule: reachable.induct) (simp_all add: start_server_ok server_step_ok)


definition accepted_server :: "world \<Rightarrow> server" where
  "accepted_server w = server_handle_accept False (start_server w)"

lemma accepted_server_facts:
  "reachable st reg w (accepted_server w)" "\<not> crashed (accepted_server w)" "accepting (accepted_server w)"
  "conns (accepted_server w) 0 = Some (conn_start new_connection)" "managed (accepted_server w) = {0}"
  "srv_world (accepted_server w) = w"
proof -
  have "server_step st reg (start_server w) (server_handle_accept False (start_server w))"
    by (rule server_step.Accept) (simp_all add: start_server_def)
  then show "reachable st reg w (accepted_server w)"
    unfolding accepted_server_def by (rule reachable.Step [OF reachable.Start])
qed (simp_all add: accepted_server_def server_handle_accept_def manager_start_def start_server_def put_conn_def Let_def)


lemma crashed_stops: "crashed s \<Longrightarrow> \<not> server_step st reg s s'"
  by (auto elim: server_stepE)

text \<open>
  C39: any client can end the web thread, whatever the server is doing: one \<open>POST\<close> whose
  \<open>Content-Length\<close> is no number makes the parser throw inside the read handler, the exception
  leaves the handler, and no further step of the server happens.
\<close>

theorem bad_length_ends_the_server:
  assumes "\<not> crashed s" "conns s i = Some c" "c_open c" "c_pending c = Reading"
    and fresh: "c_parser c = MethodStart" "c_request c = new_request"
    and req: "line_ok ''POST'' u major minor" "\<forall>h \<in> set hs. header_ok h"
      "map_find (stored_headers hs) ''CONTENT-LENGTH'' = Some v" "lexical_cast_uint v = None"
    and len: "length (render_request ''POST'' u major minor hs b) \<le> 8192"
  shows "\<exists>s'. server_step st reg s s' \<and> crashed s' \<and> sent s' = sent s \<and> (\<forall>s''. \<not> server_step st reg s' s'')"
proof -
  let ?bytes = "render_request ''POST'' u major minor hs b"
  have "?bytes \<noteq> []" by (simp add: render_request_def)
  with assms have "may_complete c (Success ?bytes)" by (simp add: may_complete_def)
  with assms(1,2,4) have "server_step st reg s (conn_handle_read st reg i c (Success ?bytes) s)"
    by (intro server_step.Read)
  moreover obtain p r w where "parse ?bytes (c_parser c) (c_request c) (srv_world s) = (Inl Bad_lexical_cast, p, r, w)"
    using parse_bad_content_length [OF req, of b "srv_world s"] fresh
    by (cases "parse ?bytes (c_parser c) (c_request c) (srv_world s)") auto
  then have "crashed (conn_handle_read st reg i c (Success ?bytes) s)"
    "sent (conn_handle_read st reg i c (Success ?bytes) s) = sent s"
    by (simp_all add: conn_handle_read_def read_bytes_def)
  ultimately show ?thesis using crashed_stops by blast
qed

theorem bad_length_ends_the_server_witness:
  "\<exists>s'. server_step sample_site (\<lambda>_. []) (accepted_server empty_world) s' \<and> crashed s'"
proof -
  let ?hs = "[(''Content-Length'', ''many'')]"
  let ?c = "conn_start new_connection"
  have "line_ok ''POST'' ''/'' ''1'' ''1''"
    by (simp add: line_ok_def is_char_def is_ctl_def is_tspecial_def is_digit_def char_int_def)
  moreover have "\<forall>h \<in> set ?hs. header_ok h"
    by (simp add: header_ok_def is_char_def is_ctl_def is_tspecial_def char_int_def)
  moreover have "map_find (stored_headers ?hs) ''CONTENT-LENGTH'' = Some ''many''"
    by code_simp
  moreover have "lexical_cast_uint ''many'' = None"
    by (simp add: lexical_cast_uint_def scan_integer_def is_dec_def)
  moreover have "c_open ?c" "c_pending ?c = Reading" "c_parser ?c = MethodStart" "c_request ?c = new_request"
    by (simp_all add: conn_start_def new_connection_def)
  moreover have "length (render_request ''POST'' ''/'' ''1'' ''1'' ?hs []) \<le> 8192"
    by (simp add: render_request_def header_line_def crlf_def)
  ultimately show ?thesis
    using bad_length_ends_the_server [OF accepted_server_facts(2,4), where b = "[]"] by blast
qed

theorem feed_is_one_read_witness:
  "feed sample_site (\<lambda>_. []) 0 [''GET /'', '' HTTP/1.0''] (accepted_server empty_world) =
   read_bytes sample_site (\<lambda>_. []) 0 (conn_start new_connection) ''GET / HTTP/1.0'' (accepted_server empty_world)"
proof -
  have "c_pending (conn_start new_connection) = Reading" by (simp add: conn_start_def)
  from feed_is_one_read [OF accepted_server_facts(4) this accepted_server_facts(2), of "[''GET /'', '' HTTP/1.0'']"]
  show ?thesis by simp
qed

text \<open>
  C40: the server stops taking connections for good after one accept that failed: the handler
  starts the next accept only when there was no error.
\<close>

theorem failed_accept_is_final:
  assumes "rtranclp (server_step st reg) (server_handle_accept True s) s'"
  shows "\<not> accepting s' \<and> waiting s' = waiting s"
  using assms
proof (induction rule: rtranclp_induct)
  case base
  then show ?case by (simp add: server_handle_accept_def)
next
  case (step t u)
  note keep = start_write_def read_bytes_def conn_handle_read_def conn_handle_write_def manager_stop_def
    manager_remove_def
  from step.hyps(2) step.IH show ?case
    by cases (auto simp: keep server_handle_stop_def manager_stop_all_def Let_def
        split: prod.splits sum.splits tribool.splits completion.splits option.splits)
qed

theorem failed_accept_is_final_witness:
  "\<not> accepting (server_handle_accept True (start_server empty_world))"
  using failed_accept_is_final [of sample_site "\<lambda>_. []" "start_server empty_world", OF rtranclp.rtrancl_refl]
  by simp

end
