(* ===== verification/Json.thy ===== *)
theory Json
  imports Sql_Text Complex_Main
begin

text \<open>
  The JSON values, reader and writer the program uses (\<open>libs/json/json_value.cpp\<close>,
  \<open>libs/json/json_reader.cpp\<close>, \<open>libs/json/json_writer.cpp\<close>). The reader works on the characters
  that are left of the document; the NUL byte that ends it is the empty list. Comments are
  skipped: what \<open>collectComments\<close> attaches to a value is not part of it. The assertions of
  \<open>json_value.cpp\<close> are enabled: a failed one ends the process.

  The conversion of a number with a fraction or an exponent by \<open>sscanf\<close> is a parameter: the value
  the C library reads, or nothing when the text does not start with a number.
\<close>

section \<open>Values\<close>

datatype json =
    JNull
  | JInt int
  | JUInt int
  | JReal rat
  | JString string
  | JBool bool
  | JArray "json list"
  | JObject "(string, json) smap"

text \<open>A C string ends at its first NUL byte.\<close>

definition c_str :: "string \<Rightarrow> string" where
  "c_str s = takeWhile (\<lambda>c. c \<noteq> CHR 0x00) s"

definition max_int :: int where
  "max_int = 2147483647"

definition max_uint :: int where
  "max_uint = 4294967295"

fun as_string :: "json \<Rightarrow> exn + string" where
  "as_string JNull = Inr []"
| "as_string (JString s) = Inr (c_str s)"
| "as_string (JBool b) = Inr (if b then ''true'' else ''false'')"
| "as_string _ = Inl Abort"

fun as_int :: "json \<Rightarrow> exn + int" where
  "as_int JNull = Inr 0"
| "as_int (JInt i) = Inr i"
| "as_int (JUInt u) = (if u < max_int then Inr u else Inl Abort)"
| "as_int (JReal r) = (if of_int (- max_int - 1) \<le> r \<and> r \<le> of_int max_int then Inr (if r < 0 then \<lceil>r\<rceil> else \<lfloor>r\<rfloor>) else Inl Abort)"
| "as_int (JBool b) = Inr (if b then 1 else 0)"
| "as_int _ = Inl Abort"

fun as_uint :: "json \<Rightarrow> exn + int" where
  "as_uint JNull = Inr 0"
| "as_uint (JInt i) = (if 0 \<le> i then Inr i else Inl Abort)"
| "as_uint (JUInt u) = Inr u"
| "as_uint (JReal r) = (if 0 \<le> r \<and> r \<le> of_int max_uint then Inr \<lfloor>r\<rfloor> else Inl Abort)"
| "as_uint (JBool b) = Inr (if b then 1 else 0)"
| "as_uint _ = Inl Abort"

fun as_bool :: "json \<Rightarrow> bool" where
  "as_bool JNull = False"
| "as_bool (JInt i) = (i \<noteq> 0)"
| "as_bool (JUInt u) = (u \<noteq> 0)"
| "as_bool (JReal r) = (r \<noteq> 0)"
| "as_bool (JBool b) = b"
| "as_bool (JString s) = (c_str s \<noteq> [])"
| "as_bool (JArray xs) = (xs \<noteq> [])"
| "as_bool (JObject ms) = (ms \<noteq> [])"

fun json_size :: "json \<Rightarrow> nat" where
  "json_size (JArray xs) = length xs"
| "json_size (JObject ms) = length ms"
| "json_size _ = 0"

text \<open>\<open>operator[]\<close> to read: a missing index or name is null; a value of another type fails an assertion.\<close>

fun json_at :: "json \<Rightarrow> nat \<Rightarrow> exn + json" where
  "json_at JNull i = Inr JNull"
| "json_at (JArray xs) i = Inr (if i < length xs then xs ! i else JNull)"
| "json_at _ i = Inl Abort"

fun json_member :: "json \<Rightarrow> string \<Rightarrow> exn + json" where
  "json_member JNull n = Inr JNull"
| "json_member (JObject ms) n = Inr (case map_find ms (c_str n) of Some v \<Rightarrow> v | None \<Rightarrow> JNull)"
| "json_member _ n = Inl Abort"

fun is_array :: "json \<Rightarrow> bool" where
  "is_array (JArray xs) = True"
| "is_array _ = False"

section \<open>Tokens\<close>

datatype token =
    ObjectBegin | ObjectEnd | ArrayBegin | ArrayEnd
  | StringToken string
  | NumberToken string
  | TrueToken | FalseToken | NullToken
  | ArraySeparator | MemberSeparator
  | CommentToken | EndOfStream | ErrorToken

definition is_blank :: "char \<Rightarrow> bool" where
  "is_blank c = (c \<in> {CHR '' '', CHR 0x09, CHR 0x0D, CHR 0x0A})"

definition skip_spaces :: "string \<Rightarrow> string" where
  "skip_spaces s = dropWhile is_blank s"

definition is_number_char :: "char \<Rightarrow> bool" where
  "is_number_char c = (is_dec c \<or> c \<in> {CHR ''.'', CHR ''e'', CHR ''E'', CHR ''+'', CHR ''-''})"

text \<open>
  \<open>readString\<close> after the opening quote: the characters up to the closing one, which is consumed;
  nothing when there is none. An escape takes the character after it, whatever it is.
\<close>

fun read_string :: "string \<Rightarrow> (string \<times> string) option" where
  "read_string [] = None"
| "read_string (c # s) =
     (if c = CHR 0x5C then
        (case s of
           [] \<Rightarrow> None
         | d # t \<Rightarrow> map_option (\<lambda>(x, r). (c # d # x, r)) (read_string t))
      else if c = CHR 0x22 then Some ([], s)
      else map_option (\<lambda>(x, r). (c # x, r)) (read_string s))"

text \<open>
  \<open>readCStyleComment\<close> and \<open>readCppStyleComment\<close>. The first looks at the character after a star
  without consuming it; what ends the loop must be a slash.
\<close>

fun c_comment :: "string \<Rightarrow> bool \<times> string" where
  "c_comment (c # d # s) = (if c = CHR ''*'' \<and> d = CHR ''/'' then (True, s) else c_comment (d # s))"
| "c_comment s = (False, [])"

fun cpp_comment :: "string \<Rightarrow> string" where
  "cpp_comment [] = []"
| "cpp_comment (c # s) = (if c = CHR 0x0D \<or> c = CHR 0x0A then s else cpp_comment s)"

definition read_comment :: "string \<Rightarrow> token \<times> string" where
  "read_comment s =
     (case s of
        [] \<Rightarrow> (ErrorToken, [])
      | c # t \<Rightarrow>
          if c = CHR ''*'' then (let (ok, r) = c_comment t in (if ok then CommentToken else ErrorToken, r))
          else if c = CHR ''/'' then (CommentToken, cpp_comment t)
          else (ErrorToken, t))"

definition match_word :: "string \<Rightarrow> token \<Rightarrow> string \<Rightarrow> token \<times> string" where
  "match_word p t s = (if take (length p) s = p then (t, drop (length p) s) else (ErrorToken, s))"

text \<open>
  \<open>readToken\<close>. The text of a string is what stands between its quotes; a string that is not closed
  is an error that takes the rest of the document.
\<close>

definition read_token :: "string \<Rightarrow> token \<times> string" where
  "read_token doc =
     (case skip_spaces doc of
        [] \<Rightarrow> (EndOfStream, [])
      | c # s \<Rightarrow>
          if c = CHR ''{'' then (ObjectBegin, s)
          else if c = CHR ''}'' then (ObjectEnd, s)
          else if c = CHR ''['' then (ArrayBegin, s)
          else if c = CHR '']'' then (ArrayEnd, s)
          else if c = CHR 0x22 then
            (case read_string s of None \<Rightarrow> (ErrorToken, []) | Some (x, r) \<Rightarrow> (StringToken x, r))
          else if c = CHR ''/'' then read_comment s
          else if is_dec c \<or> c = CHR ''-'' then
            (NumberToken (c # takeWhile is_number_char s), dropWhile is_number_char s)
          else if c = CHR ''t'' then match_word ''rue'' TrueToken s
          else if c = CHR ''f'' then match_word ''alse'' FalseToken s
          else if c = CHR ''n'' then match_word ''ull'' NullToken s
          else if c = CHR '','' then (ArraySeparator, s)
          else if c = CHR '':'' then (MemberSeparator, s)
          else if c = CHR 0x00 then (EndOfStream, s)
          else (ErrorToken, s))"

section \<open>Decoding\<close>

definition json_hex :: "char \<Rightarrow> bool" where
  "json_hex c = (is_dec c \<or> c \<in> set ''abcdefABCDEF'')"

text \<open>A unicode escape is checked, but nothing is put into the text for it.\<close>

fun decode_string :: "string \<Rightarrow> string option" where
  "decode_string [] = Some []"
| "decode_string (c # s) =
     (if c = CHR 0x22 then Some []
      else if c = CHR 0x5C then
        (case s of
           [] \<Rightarrow> None
         | e # t \<Rightarrow>
             if e = CHR 0x22 \<or> e = CHR ''/'' \<or> e = CHR 0x5C then map_option (Cons e) (decode_string t)
             else if e = CHR ''b'' then map_option (Cons (CHR 0x08)) (decode_string t)
             else if e = CHR ''f'' then map_option (Cons (CHR 0x0C)) (decode_string t)
             else if e = CHR ''n'' then map_option (Cons (CHR 0x0A)) (decode_string t)
             else if e = CHR ''r'' then map_option (Cons (CHR 0x0D)) (decode_string t)
             else if e = CHR ''t'' then map_option (Cons (CHR 0x09)) (decode_string t)
             else if e = CHR ''u'' then
               (case t of
                  h1 # h2 # h3 # h4 # r \<Rightarrow> if list_all json_hex [h1, h2, h3, h4] then decode_string r else None
                | _ \<Rightarrow> None)
             else None)
      else map_option (Cons c) (decode_string s))"

datatype digits = Digits int | Too_large | No_digit

fun decode_digits :: "int \<Rightarrow> string \<Rightarrow> int \<Rightarrow> digits" where
  "decode_digits th [] v = Digits v"
| "decode_digits th (c # s) v =
     (if \<not> is_dec c then No_digit
      else if th \<le> v then Too_large
      else decode_digits th s (v * 10 + int (dec_digit c)))"

definition is_double :: "string \<Rightarrow> bool" where
  "is_double t = (list_ex (\<lambda>c. c \<in> {CHR ''.'', CHR ''e'', CHR ''E'', CHR ''+''}) t \<or> CHR ''-'' \<in> set (tl t))"

definition decode_double :: "(string \<Rightarrow> rat option) \<Rightarrow> string \<Rightarrow> json option" where
  "decode_double lf t = map_option JReal (lf t)"

text \<open>
  The thresholds are a tenth of the largest magnitude; a number that reaches them with digits
  left is read as a double, also when it would fit.
\<close>

definition decode_number :: "(string \<Rightarrow> rat option) \<Rightarrow> string \<Rightarrow> json option" where
  "decode_number lf t =
     (if is_double t then decode_double lf t
      else (let neg = (t \<noteq> [] \<and> hd t = CHR ''-'') in
        case decode_digits (if neg then (max_int + 1) div 10 else max_uint div 10) (if neg then tl t else t) 0 of
          No_digit \<Rightarrow> None
        | Too_large \<Rightarrow> decode_double lf t
        | Digits v \<Rightarrow> Some (if neg then JInt (- v) else if v \<le> max_int then JInt v else JUInt v)))"

section \<open>Reading a document\<close>

lemma length_skip_spaces: "length (skip_spaces s) \<le> length s"
  by (simp add: skip_spaces_def length_dropWhile_le)

lemma length_read_string: "read_string s = Some (x, r) \<Longrightarrow> length r < length s"
proof (induction s arbitrary: x r rule: read_string.induct)
  case (2 c s)
  show ?case
  proof (cases "c = CHR 0x5C")
    case True
    with "2.prems" obtain d t y where s: "s = d # t" "read_string t = Some (y, r)"
      by (auto split: list.splits)
    from "2.IH"(1) [OF True s] show ?thesis by (simp add: s(1))
  next
    case False
    show ?thesis
    proof (cases "c = CHR 0x22")
      case True
      with "2.prems" show ?thesis by simp
    next
      case no: False
      with "2.prems" False obtain y where "read_string s = Some (y, r)" by auto
      from "2.IH"(2) [OF False no this] show ?thesis by simp
    qed
  qed
qed simp

lemma length_c_comment: "length (snd (c_comment s)) \<le> length s"
  by (induction s rule: c_comment.induct) auto

lemma length_cpp_comment: "length (cpp_comment s) \<le> length s"
  by (induction s) auto

lemma length_read_comment: "length (snd (read_comment s)) \<le> length s"
  using length_c_comment [of "tl s"] length_cpp_comment [of "tl s"]
  by (cases s) (simp_all add: read_comment_def split_def Let_def)

lemma length_match_word: "length (snd (match_word p t s)) \<le> length s"
  by (simp add: match_word_def)

lemma length_snd_if:
  "length (snd x) \<le> n \<Longrightarrow> length (snd y) \<le> n \<Longrightarrow> length (snd (if b then x else y)) \<le> n"
  by simp

text \<open>Every token but the end of the document takes a character.\<close>

lemma read_token_shorter:
  assumes "read_token s = (t, r)" "t \<noteq> EndOfStream"
  shows "length r < length s"
proof (cases "skip_spaces s")
  case Nil
  with assms show ?thesis by (simp add: read_token_def)
next
  case (Cons c u)
  have quote: "length (snd (case read_string u of None \<Rightarrow> (ErrorToken, []) | Some (x, r) \<Rightarrow> (StringToken x, r))) \<le> length u"
    using length_read_string [of u] by (auto split: option.split)
  have "length (snd (read_token s)) \<le> length u"
    unfolding read_token_def Cons list.case
    by (intro length_snd_if quote length_read_comment length_match_word) (simp_all add: length_dropWhile_le)
  moreover have "length u < length s" using length_skip_spaces [of s] Cons by simp
  ultimately show ?thesis using assms(1) by simp
qed

text \<open>\<open>skipCommentTokens\<close>\<close>

function next_token :: "string \<Rightarrow> token \<times> string" where
  "next_token s = (case read_token s of (t, r) \<Rightarrow> if t = CommentToken then next_token r else (t, r))"
  by auto

termination
  by (relation "measure length") (auto dest!: read_token_shorter [OF sym])

declare next_token.simps [simp del]

lemma next_token_shorter: "next_token s = (t, r) \<Longrightarrow> t \<noteq> EndOfStream \<Longrightarrow> length r < length s"
proof (induction s arbitrary: t r rule: next_token.induct)
  case (1 s)
  obtain t1 r1 where tok: "read_token s = (t1, r1)" by fastforce
  show ?case
  proof (cases "t1 = CommentToken")
    case True
    with 1 tok have "length r < length r1" by (simp add: next_token.simps [of s])
    moreover have "length r1 < length s" using read_token_shorter [OF tok] True by simp
    ultimately show ?thesis by simp
  next
    case False
    with 1 tok show ?thesis using read_token_shorter [OF tok] by (simp add: next_token.simps [of s])
  qed
qed

text \<open>
  \<open>readValue\<close>, \<open>readObject\<close> and \<open>readArray\<close>. After an error \<open>recoverFromError\<close> only looks for a place to
  go on at, and every caller answers false as well: an error is a failure of the whole. The first
  argument bounds the number of calls; what it is enough for is shown below.
\<close>

datatype 'a read_result = Parsed 'a string | Failed | Out_of_fuel

definition parsed_or_failed :: "'a option \<Rightarrow> string \<Rightarrow> 'a read_result" where
  "parsed_or_failed x r = (case x of None \<Rightarrow> Failed | Some v \<Rightarrow> Parsed v r)"

fun read_value :: "(string \<Rightarrow> rat option) \<Rightarrow> nat \<Rightarrow> string \<Rightarrow> json read_result"
  and read_members :: "(string \<Rightarrow> rat option) \<Rightarrow> nat \<Rightarrow> string \<Rightarrow> (string, json) smap \<Rightarrow> string \<Rightarrow> json read_result"
  and read_elements :: "(string \<Rightarrow> rat option) \<Rightarrow> nat \<Rightarrow> json list \<Rightarrow> string \<Rightarrow> json read_result" where
  "read_value lf 0 s = Out_of_fuel"
| "read_value lf (Suc n) s =
     (case next_token s of
        (ObjectBegin, r) \<Rightarrow> read_members lf n [] [] r
      | (ArrayBegin, r) \<Rightarrow>
          (case skip_spaces r of
             c # r' \<Rightarrow> if c = CHR '']'' then Parsed (JArray []) r' else read_elements lf n [] (c # r')
           | [] \<Rightarrow> read_elements lf n [] [])
      | (NumberToken t, r) \<Rightarrow> parsed_or_failed (decode_number lf t) r
      | (StringToken t, r) \<Rightarrow> parsed_or_failed (map_option JString (decode_string t)) r
      | (TrueToken, r) \<Rightarrow> Parsed (JBool True) r
      | (FalseToken, r) \<Rightarrow> Parsed (JBool False) r
      | (NullToken, r) \<Rightarrow> Parsed JNull r
      | _ \<Rightarrow> Failed)"
| "read_members lf 0 name ms s = Out_of_fuel"
| "read_members lf (Suc n) name ms s =
     (case next_token s of
        (ObjectEnd, r) \<Rightarrow> if name = [] then Parsed (JObject ms) r else Failed
      | (StringToken t, r) \<Rightarrow>
          (case decode_string t of
             None \<Rightarrow> Failed
           | Some nm \<Rightarrow>
               (case read_token r of
                  (MemberSeparator, r1) \<Rightarrow>
                    (case read_value lf n r1 of
                       Parsed v r2 \<Rightarrow>
                         (case read_token r2 of
                            (ObjectEnd, r3) \<Rightarrow> Parsed (JObject (map_set (c_str nm) v ms)) r3
                          | (ArraySeparator, r3) \<Rightarrow> read_members lf n nm (map_set (c_str nm) v ms) r3
                          | _ \<Rightarrow> Failed)
                     | Failed \<Rightarrow> Failed
                     | Out_of_fuel \<Rightarrow> Out_of_fuel)
                | _ \<Rightarrow> Failed))
      | _ \<Rightarrow> Failed)"
| "read_elements lf 0 xs s = Out_of_fuel"
| "read_elements lf (Suc n) xs s =
     (case read_value lf n s of
        Parsed v r \<Rightarrow>
          (case read_token r of
             (ArraySeparator, r') \<Rightarrow> read_elements lf n (xs @ [v]) r'
           | (ArrayEnd, r') \<Rightarrow> Parsed (JArray (xs @ [v])) r'
           | _ \<Rightarrow> Failed)
      | Failed \<Rightarrow> Failed
      | Out_of_fuel \<Rightarrow> Out_of_fuel)"

text \<open>\<open>Reader::parse\<close>: what follows the first value is not looked at.\<close>

definition json_parse :: "(string \<Rightarrow> rat option) \<Rightarrow> string \<Rightarrow> json option" where
  "json_parse lf doc =
     (case read_value lf (2 * length doc + 1) doc of Parsed v r \<Rightarrow> Some v | _ \<Rightarrow> None)"

section \<open>Writing a document\<close>

text \<open>\<open>valueToQuotedString\<close> escapes nothing; a real is written by \<open>sprintf\<close>, which is a parameter too.\<close>

definition quoted :: "string \<Rightarrow> string" where
  "quoted s = CHR 0x22 # c_str s @ [CHR 0x22]"

fun write_value :: "(rat \<Rightarrow> string) \<Rightarrow> json \<Rightarrow> string" where
  "write_value pf JNull = ''null''"
| "write_value pf (JInt i) = show_int i"
| "write_value pf (JUInt u) = show_int u"
| "write_value pf (JReal r) = pf r"
| "write_value pf (JString s) = quoted s"
| "write_value pf (JBool b) = (if b then ''true'' else ''false'')"
| "write_value pf (JArray xs) = ''[ '' @ sep_by '', '' (map (write_value pf) xs) @ '' ]''"
| "write_value pf (JObject ms) =
     ''{ '' @ sep_by '', '' (map (\<lambda>(n, v). quoted n @ '' : '' @ write_value pf v) ms) @ '' }''"

definition fast_write :: "(rat \<Rightarrow> string) \<Rightarrow> json \<Rightarrow> string" where
  "fast_write pf v = write_value pf v @ [CHR 0x0A]"

end
