(* ===== verification/Handlers.thy ===== *)
theory Handlers
  imports Dispatch Library Json
begin

text \<open>
  The request handlers of the application (\<open>libs/handlers\<close>). A handler works on the reply and on
  the shared state; what it wrote to both before it throws stays written. The streamed
  expressions are taken from left to right (C++ leaves the order in which their operands are
  evaluated open), and an \<open>int\<close> that overflows wraps. The log is open at the level \<open>posix_main.cpp\<close> sets, so the operands of a
  message of level \<open>info\<close> are evaluated; those that can not fail there are left out.

  The parameters of the installation are the record \<open>host\<close>: the site of the server, the disk with
  the music and the number conversion of the JSON reader.
\<close>

record host =
  host_site :: site
  host_disk :: filesystem
  host_lf :: "string \<Rightarrow> rat option"

section \<open>Steps of a handler\<close>

type_synonym 'a act = "(reply \<times> world, 'a) eff"

definition db :: "(world, 'a) eff \<Rightarrow> 'a act" where
  "db m = (\<lambda>(rep, w). case m w of (r, w') \<Rightarrow> (r, (rep, w')))"

definition out :: "(reply \<Rightarrow> reply) \<Rightarrow> unit act" where
  "out f = (\<lambda>(rep, w). (Inr (), (f rep, w)))"

definition put_text :: "string \<Rightarrow> unit act" where
  "put_text s = out (write_content s)"

definition check :: "exn + 'a \<Rightarrow> 'a act" where
  "check r = (\<lambda>s. (r, s))"

definition hdf :: "string \<Rightarrow> string \<Rightarrow> bool act" where
  "hdf key val = (\<lambda>(rep, w). case set_hdf_value key val rep of (r, rep') \<Rightarrow> (r, (rep', w)))"

definition cast_or_throw :: "'a option \<Rightarrow> 'a act" where
  "cast_or_throw x = (case x of None \<Rightarrow> throw Bad_lexical_cast | Some v \<Rightarrow> ret v)"

definition single_id :: "request \<Rightarrow> string \<Rightarrow> int act" where
  "single_id req name = cast_or_throw (single_value_with lexical_cast_id 0 req name)"

definition single_uint :: "request \<Rightarrow> string \<Rightarrow> 32 word act" where
  "single_uint req name = cast_or_throw (single_value_with lexical_cast_uint 0 req name)"

text \<open>\<open>id_t\<close> passed as an \<open>int\<close> or an \<open>unsigned int\<close>; an \<open>unsigned int\<close> passed as an \<open>int\<close> is \<open>sint\<close>.\<close>

definition to_int32 :: "int \<Rightarrow> int" where
  "to_int32 i = sint (word_of_int i :: 32 word)"

definition to_uint32 :: "int \<Rightarrow> nat" where
  "to_uint32 i = unat (word_of_int i :: 32 word)"

text \<open>The object a pointer of the request points to; a null pointer fails an assertion.\<close>

definition deref :: "'a option \<Rightarrow> 'a act" where
  "deref p = (case p of None \<Rightarrow> throw Abort | Some x \<Rightarrow> ret x)"

text \<open>A loop that starts every line with \<open>rep.content << comma\<close>.\<close>

definition put_comma :: "commas \<Rightarrow> commas act" where
  "put_comma c = (case commas_get c of (ch, c') \<Rightarrow> bindE (put_text [ch]) (\<lambda>_. ret c'))"

fun with_rows :: "commas \<Rightarrow> 'a list \<Rightarrow> ('a \<Rightarrow> unit act) \<Rightarrow> commas act" where
  "with_rows c [] f = ret c"
| "with_rows c (x # xs) f = bindE (put_comma c) (\<lambda>c'. bindE (f x) (\<lambda>_. with_rows c' xs f))"

abbreviation "nl \<equiv> [CHR 0x0A]"
abbreviation "sq \<equiv> [CHR 0x27]"
abbreviation "dq \<equiv> [CHR 0x22]"
abbreviation "backslash \<equiv> CHR 0x5C"

definition json_q :: "string \<Rightarrow> string" where
  "json_q s = replace_all (CHR 0x27) [backslash, CHR 0x27] s"

definition escape_dq :: "string \<Rightarrow> string" where
  "escape_dq s = replace_all (CHR 0x22) [backslash, CHR 0x22] s"

definition requireAuth :: "user_obj option \<Rightarrow> Role \<Rightarrow> unit act" where
  "requireAuth user r =
     bindE (deref user) (\<lambda>u.
       if has_at_least u r then ret () else throw (Ews_error ''User Account lacks proper permission''))"

section \<open>Login\<close>

definition login_handle :: "host \<Rightarrow> request \<Rightarrow> request_status act" where
  "login_handle h req =
     (if req_user req = None \<and> \<not> ends_with (url req) ''.gif'' \<and> u2 req = [] then
        bindE (out (\<lambda>rep. snd (set_template (host_site h) ''login.html'' rep))) (\<lambda>_.
        bindE (db (settings_get ''AllowGuests'')) (\<lambda>v.
        bindE (hdf ''AllowGuests'' v) (\<lambda>_.
        bindE (out (set_basic_headers ''html'')) (\<lambda>_. ret Stop))))
      else if u2 req = ''validate'' then
        bindE (db (settings_get ''AllowGuests'')) (\<lambda>mode.
        if mode = ''WithPassword'' \<or> mode = ''WithName'' then ret Continue
        else
          bindE (db (with_login (svalue req ''login''))) (\<lambda>u.
          bindE (db (authen u (svalue req ''pass''))) (\<lambda>(ok, u').
          if ok then
            bindE (out (\<lambda>rep. rep\<lparr>reply_user := Some u'\<rparr>)) (\<lambda>_.
            bindE (out (set_to MovedTemporarily)) (\<lambda>_.
            bindE (out (set_header ''Location'' ''/'')) (\<lambda>_. ret Stop)))
          else bindE (hdf ''FailedAuth'' ''1'') (\<lambda>_. ret Stop))))
      else ret Continue)"

section \<open>Files\<close>

definition request_path :: "string \<Rightarrow> string" where
  "request_path u = (if last u = CHR ''/'' then u @ ''index.html'' else u)"

definition path_extension :: "string \<Rightarrow> string" where
  "path_extension p =
     (case (find_last_of (CHR ''.'') p, find_last_of (CHR ''/'') p) of
        (Some d, Some s) \<Rightarrow> if s < d then drop (Suc d) p else []
      | _ \<Rightarrow> [])"

definition illegal_path :: "string \<Rightarrow> bool" where
  "illegal_path u = (u = [] \<or> hd u \<noteq> CHR ''/'' \<or> contains ''..'' u)"

definition files_handle :: "host \<Rightarrow> request \<Rightarrow> request_status act" where
  "files_handle h req =
     (if illegal_path (url req) then throw (Ews_error ''Illegal (for us) character seq .. in request'')
      else
        let p = request_path (url req) in
        bindE (getS (\<lambda>(rep, w). files w (path_join (host_site h) (doc_root (host_site h)) p))) (\<lambda>f.
        case f of
          None \<Rightarrow> throw (Ews_not_found (c_str (url req)))
        | Some bytes \<Rightarrow>
            bindE (out (\<lambda>rep. rep\<lparr>reply_status := Some Ok\<rparr>)) (\<lambda>_.
            bindE (put_text bytes) (\<lambda>_.
            bindE (out (set_basic_headers (path_extension p))) (\<lambda>_. ret Stop)))))"

section \<open>Users\<close>

definition user_destroy :: "user_obj \<Rightarrow> (world, unit) eff" where
  "user_destroy u =
     (if db_id u = 0 then ret ()
      else sql_exec (\<lambda>w. (Inr (), w\<lparr>users := snd (destroy_obj u (users w))\<rparr>)))"

text \<open>\<open>to_simple_string\<close> of a duration in whole seconds.\<close>

definition two_digits :: "nat \<Rightarrow> string" where
  "two_digits n = (if n < 10 then ''0'' else []) @ show_nat n"

definition duration_text :: "int \<Rightarrow> string" where
  "duration_text t =
     (let n = nat \<bar>t\<bar> in (if t < 0 then ''-'' else []) @ two_digits (n div 3600) @ '':'' @
        two_digits (n div 60 mod 60) @ '':'' @ two_digits (n mod 60))"

definition user_line :: "int \<Rightarrow> user_obj \<Rightarrow> string" where
  "user_line now u = concat [''{ 'id':'', show_int (db_id u), '','login':'' @ sq, escape_dq (login u),
     sq @ '','password':'' @ sq @ ''********'' @ sq @ '','last_visit':'' @ sq,
     duration_text (now - last_visit u), sq @ '','role':'' @ sq, show_int (role u), sq @ ''}'' @ nl]"

definition json_text :: "json \<Rightarrow> string \<Rightarrow> exn + string" where
  "json_text j name = (case json_member j name of Inl e \<Rightarrow> Inl e | Inr v \<Rightarrow> as_string v)"

definition json_uint :: "json \<Rightarrow> string \<Rightarrow> exn + int" where
  "json_uint j name = (case json_member j name of Inl e \<Rightarrow> Inl e | Inr v \<Rightarrow> as_uint v)"

text \<open>The body of the loop of \<open>save\<close>. The log message reads the three texts first.\<close>

definition save_json_user :: "json \<Rightarrow> unit act" where
  "save_json_user j =
     bindE (check (json_uint j ''id'')) (\<lambda>uid.
     bindE (check (json_text j ''login'')) (\<lambda>l.
     bindE (check (json_text j ''password'')) (\<lambda>pw.
     bindE (check (json_text j ''role'')) (\<lambda>rt.
     if uid \<noteq> 0 then
       bindE (db (user_load uid)) (\<lambda>u.
       bindE (cast_or_throw (lexical_cast_int rt)) (\<lambda>rn.
       let u' = u\<lparr>login := l\<rparr>; u'' = (if pw \<noteq> ''********'' then set_password pw u' else u')
       in bindE (db (user_save (set_role rn u''))) (\<lambda>_. ret ())))
     else
       bindE (getS (\<lambda>(rep, w). user_create w l pw)) (\<lambda>u.
       bindE (cast_or_throw (lexical_cast_int rt)) (\<lambda>rn.
       bindE (db (user_save (set_role rn u))) (\<lambda>_. ret ())))))))"

definition users_list_handle :: "request \<Rightarrow> unit act" where
  "users_list_handle req =
     bindE (getS (\<lambda>(rep, w). clock w)) (\<lambda>now.
     bindE (single_uint req ''page'') (\<lambda>page.
     bindE (single_uint req ''pageSize'') (\<lambda>num.
     bindE (db (user_list (sint ((page - 1) * num)) (sint num)
        (if svalue req ''sortColumn'' = ''3'' then SortLastVisit else SortLogin)
        (svalue req ''sortDir'' = ''DESC''))) (\<lambda>us.
     bindE (put_text (''{ Users:  [ '' @ nl)) (\<lambda>_.
     bindE (with_rows commas_init us (\<lambda>u. put_text (user_line now u))) (\<lambda>_.
     put_text ('']}'' @ nl)))))))"

definition users_save_handle :: "host \<Rightarrow> request \<Rightarrow> unit act" where
  "users_save_handle h req =
     (let data = svalue req ''data'' in
      case (if data = [] then None else json_parse (host_lf h) data) of
        Some (JArray us) \<Rightarrow> forE us save_json_user
      | _ \<Rightarrow> throw (Ews_error ''Malformed JSON data received''))"

definition users_handle :: "host \<Rightarrow> request \<Rightarrow> request_status act" where
  "users_handle h req =
     (if u1 req \<noteq> ''users'' then ret Continue
      else
        bindE (requireAuth (req_user req) AdminRole) (\<lambda>_.
        bindE (out (set_basic_headers ''json'')) (\<lambda>_.
        bindE (if u2 req = ''list'' then users_list_handle req
               else if u2 req = ''del'' then
                 bindE (single_id req ''uid'') (\<lambda>i. bindE (db (user_load i)) (\<lambda>u. db (user_destroy u)))
               else if u2 req = ''save'' then users_save_handle h req
               else ret ()) (\<lambda>_. ret Stop))))"

section \<open>Info\<close>

definition info_find_handle :: "request \<Rightarrow> unit act" where
  "info_find_handle req =
     bindE (single_uint req ''page'') (\<lambda>page.
     bindE (single_uint req ''pageSize'') (\<lambda>num.
     bindE (db (song_find (svalue req ''q'') (sint ((page - 1) * num)) (sint num))) (\<lambda>ss.
     bindE (put_text ''{ TotalCount:'') (\<lambda>_.
     bindE (db (song_num_matching (svalue req ''q''))) (\<lambda>n.
     bindE (put_text (show_nat n @ '','' @ nl @ ''Songs: [ '' @ nl)) (\<lambda>_.
     bindE (with_rows commas_init ss (\<lambda>s. put_text (concat [''{ 'id':'', show_int (db_id s),
        '','title':'' @ sq, json_q (title s), sq @ ''}'' @ nl]))) (\<lambda>_.
     put_text ('']}'' @ nl))))))))"

definition info_handle :: "host \<Rightarrow> request \<Rightarrow> request_status act" where
  "info_handle h req =
     (if u1 req \<noteq> ''info'' then ret Continue
      else
        bindE (if u2 req = ''song'' then
                 bindE (cast_or_throw (lexical_cast_id (u3 req))) (\<lambda>i.
                 bindE (db (song_load i)) (\<lambda>s.
                 if u4 req = ''artist'' then
                   bindE (db (song_artist s)) (\<lambda>a. put_text (obj_name a))
                 else ret ()))
               else if u2 req = ''find'' then info_find_handle req
               else ret ()) (\<lambda>_.
        bindE (out (set_basic_headers ''json'')) (\<lambda>_. ret Stop)))"

section \<open>Song files\<close>

definition one_day :: int where
  "one_day = 24 * 60 * 60"

definition song_handle :: "host \<Rightarrow> request \<Rightarrow> request_status act" where
  "song_handle h req =
     (if u1 req \<noteq> ''song'' then ret Continue
      else if u3 req = [] \<or> u4 req = [] then throw (Ews_error ''Unable to determine user ticket or song'')
      else
        bindE (db (with_ticket (u3 req))) (\<lambda>u.
        bindE (getS (\<lambda>(rep, w). clock w)) (\<lambda>now.
        if last_visit u < now - one_day then
          throw (Ews_forbidden ''Access has timed out, please log in again'')
        else
          bindE (cast_or_throw (lexical_cast_id (u4 req))) (\<lambda>i.
          bindE (db (song_load i)) (\<lambda>s.
          if u2 req = ''dl'' then
            bindE (out (set_header ''Content-disposition''
              (''attachment; filename='' @ dq @ title s @ ''.mp3'' @ dq))) (\<lambda>_.
            bindE (db (song_path s)) (\<lambda>p.
            case fs_bytes (host_disk h) p of
              None \<Rightarrow> throw (Ews_not_found ''Unable to find song on disk.  Perhaps it was moved?'')
            | Some bytes \<Rightarrow>
                bindE (put_text bytes) (\<lambda>_.
                bindE (out (set_basic_headers ''mp3'')) (\<lambda>_. ret Stop))))
          else ret Stop)))))"

section \<open>Playlists for players\<close>

definition xspf_song :: "request \<Rightarrow> int \<times> song_obj \<Rightarrow> unit act" where
  "xspf_song req ns =
     (let n = fst ns; s = snd ns in
      bindE (deref (req_user req)) (\<lambda>u.
      bindE (put_text (concat [''  '', show_int n, '' {'', nl, ''     url=/song/dl/'', ticket u, ''/'', show_int (db_id s)])) (\<lambda>_.
      bindE (db (song_album_name s)) (\<lambda>al.
      bindE (put_text (nl @ ''     album='' @ escape_dq al)) (\<lambda>_.
      bindE (db (song_artist_name s)) (\<lambda>ar.
      put_text (concat [nl, ''     artist='', escape_dq ar, nl, ''     title='', escape_dq (title s),
        nl, ''     length='', show_int (to_int32 (song_length s * 1000)),
        nl, ''     image=/song/img/'', ticket u, ''/'', show_int (db_id s), nl, ''    }'', nl])))))))"

definition xspf_handle :: "host \<Rightarrow> request \<Rightarrow> request_status act" where
  "xspf_handle h req =
     (if u1 req \<noteq> ''xspf'' then ret Continue
      else
        bindE (out (set_basic_headers ''txt'')) (\<lambda>_.
        bindE (cast_or_throw (lexical_cast_id (u2 req))) (\<lambda>i.
        bindE (db (pl_load i)) (\<lambda>p.
        bindE (out (\<lambda>rep. snd (set_template (host_site h) ''xspf.html'' rep))) (\<lambda>_.
        bindE (hdf ''name'' (pl_name (ptr_base p))) (\<lambda>_.
        bindE (hdf ''description'' (pl_description (ptr_base p))) (\<lambda>_.
        bindE (put_text (''Songs {'' @ nl)) (\<lambda>_.
        bindE (db (ptr_songs p 0 0)) (\<lambda>ss.
        bindE (forE (number 1 ss) (xspf_song req)) (\<lambda>_.
        bindE (put_text (''}'' @ nl)) (\<lambda>_. ret Stop)))))))))))"

end
