(* ===== verification/Pages.thy ===== *)
theory Pages
  imports Handlers
begin

text \<open>
  The handlers of the pages and lists (\<open>libs/handlers/pl.cpp\<close>, \<open>index.cpp\<close>, \<open>tree.cpp\<close>) and
  \<open>link_up\<close> (\<open>libs/handlers/shared.cpp\<close>), which registers all nine.
\<close>

section \<open>Editing playlists\<close>

text \<open>\<open>boost::all( name, is_digit() )\<close> holds for an empty name too.\<close>

definition for_digit_names :: "request \<Rightarrow> (int \<Rightarrow> int \<Rightarrow> unit act) \<Rightarrow> unit act" where
  "for_digit_names req f =
     forE (varibles req) (\<lambda>(name, vals).
       if list_all is_dec name then
         bindE (cast_or_throw (lexical_cast_id name)) (\<lambda>i.
         bindE (deref (case vals of [] \<Rightarrow> None | v # _ \<Rightarrow> Some v)) (\<lambda>v.
         bindE (cast_or_throw (lexical_cast_int v)) (\<lambda>n. f i n)))
       else ret ())"

text \<open>In the last case the pointer that is loaded hides the parameter of the same name.\<close>

definition add_something :: "playlist_ptr \<Rightarrow> string \<Rightarrow> int \<Rightarrow> int \<Rightarrow> unit act" where
  "add_something p kind i pos =
     (if kind = ''song'' then
        bindE (db (song_load i)) (\<lambda>s. db (pl_insert_song (ptr_id p) s (to_int32 pos)))
      else if kind = ''dir'' then
        bindE (db (md_load i)) (\<lambda>d. db (pl_insert_dir (ptr_id p) d (to_int32 pos)))
      else if kind = ''artist'' then
        bindE (db (artist_load i)) (\<lambda>a. db (pl_insert_artist (ptr_id p) a (to_int32 pos)))
      else if kind = ''pl'' then
        bindE (db (pl_load i)) (\<lambda>p'. db (pl_insert_playlist (ptr_base p') p' (to_int32 pos)))
      else ret ())"

definition song_line :: "song_obj \<Rightarrow> unit act" where
  "song_line s =
     bindE (put_text (concat [''{ 'id':'', show_int (db_id s), '','tr':'', show_int (track s),
        '','tt':'' @ sq, json_q (title s), sq @ '', '', sq @ ''at':'' @ sq])) (\<lambda>_.
     bindE (db (song_artist_name s)) (\<lambda>ar.
     bindE (put_text (concat [json_q ar, sq @ '', '', sq @ ''al':'' @ sq])) (\<lambda>_.
     bindE (db (song_album_name s)) (\<lambda>al.
     put_text (concat [json_q al, sq @ '','ln':'', show_int (song_length s), ''}'' @ nl])))))"

definition pl_list_songs :: "request \<Rightarrow> playlist_ptr \<Rightarrow> unit act" where
  "pl_list_songs req p =
     bindE (if map_find (varibles req) ''sort'' \<noteq> None then
              db (ptr_set_order p (svalue req ''sort'') (svalue req ''dir'' = ''DESC''))
            else ret p) (\<lambda>p'.
     bindE (single_id req ''start'') (\<lambda>start.
     bindE (single_id req ''limit'') (\<lambda>limit.
     bindE (db (ptr_songs p' (to_uint32 start) (to_uint32 limit))) (\<lambda>ss.
     bindE (put_text (''{ Songs:  [ '' @ nl)) (\<lambda>_.
     bindE (with_rows commas_init ss song_line) (\<lambda>_.
     bindE (put_text ''], Size: '') (\<lambda>_.
     bindE (db (ptr_size p')) (\<lambda>n. put_text (show_nat n @ '' }'' @ nl)))))))))"

fun add_songs :: "playlist_ptr \<Rightarrow> string list \<Rightarrow> int \<Rightarrow> unit act" where
  "add_songs p [] pos = ret ()"
| "add_songs p (t # ts) pos =
     bindE (cast_or_throw (lexical_cast_id t)) (\<lambda>i.
     bindE (db (pl_load_song i)) (\<lambda>s.
     bindE (db (pl_insert_song (ptr_id p) s (to_int32 pos))) (\<lambda>_. add_songs p ts (pos + 1))))"

definition pl_songs_handle :: "request \<Rightarrow> unit act" where
  "pl_songs_handle req =
     bindE (single_id req ''pl_id'') (\<lambda>pl_id.
     bindE (db (pl_load pl_id)) (\<lambda>p.
     if u3 req = ''list'' then pl_list_songs req p
     else if u3 req = ''reorder'' then
       bindE (for_digit_names req (\<lambda>i n. db (pl_set_song_order (ptr_id p) i n))) (\<lambda>_.
       bindE (db (ptr_set_order p ''playlist_songs'' True)) (\<lambda>_. ret ()))
     else if u3 req = ''addsongs'' then
       (case map_find (varibles req) ''song_id'' of
          None \<Rightarrow> ret ()
        | Some ids \<Rightarrow> bindE (single_id req ''pos'') (add_songs p ids))
     else if u3 req = ''add'' then
       bindE (single_id req ''id'') (\<lambda>i. bindE (single_id req ''pos'') (add_something p (u4 req) i))
     else if u3 req = ''rm'' then
       bindE (single_id req ''song_id'') (\<lambda>i. db (pl_remove (ptr_id p) i))
     else if u3 req = ''addpl'' then
       (case map_find (varibles req) ''pl_id'' of
          None \<Rightarrow> ret ()
        | Some ids \<Rightarrow> forE ids (\<lambda>t.
            bindE (cast_or_throw (lexical_cast_id t)) (\<lambda>i.
            bindE (db (pl_load i)) (\<lambda>p'.
            bindE (single_id req ''position'') (\<lambda>pos.
            db (pl_insert_playlist (ptr_base p) p' (to_int32 pos)))))))
     else ret ()))"

definition pl_line :: "playlist_obj \<Rightarrow> unit act" where
  "pl_line p = put_text (concat [nl, ''    {'', dq, ''id'', dq, '':'', show_int (db_id p),
     '','', dq, ''name'', dq, '':'', dq, json_q (pl_name p), dq,
     '','', dq, ''description'', dq, '':'', dq, json_q (pl_description p), dq, ''}''])"

definition pl_list_handle :: "unit act" where
  "pl_list_handle =
     bindE (put_text ''{Playlists: ['') (\<lambda>_.
     bindE (db pl_all) (\<lambda>ps.
     bindE (with_rows commas_init ps pl_line) (\<lambda>_. put_text '']}'')))"

definition pl_update_handle :: "request \<Rightarrow> unit act" where
  "pl_update_handle req =
     bindE (if svalue req ''pl_id'' = ''0'' then
              bindE (db (pl_create ''New Playlist'' [])) (\<lambda>p. ret (StoredPL p))
            else bindE (single_id req ''pl_id'') (\<lambda>i. db (pl_load i))) (\<lambda>p.
     let r = ptr_base p in
     bindE (db (ptr_put p (if u3 req = ''name'' then r\<lparr>pl_name := svalue req ''text''\<rparr>
                           else r\<lparr>pl_description := svalue req ''text''\<rparr>))) (\<lambda>p'.
     bindE (db (ptr_save p')) (\<lambda>_. ret ())))"

definition pl_handle :: "host \<Rightarrow> request \<Rightarrow> request_status act" where
  "pl_handle h req =
     (if u1 req \<noteq> ''pl'' then ret Continue
      else
        bindE (if u2 req = ''songs'' then pl_songs_handle req
               else if u2 req = ''list'' then pl_list_handle
               else if u2 req = ''update'' then pl_update_handle req
               else if u2 req = ''reorder'' then
                 for_digit_names req (\<lambda>i n. db (pl_set_present_order i n))
               else ret ()) (\<lambda>_.
        bindE (out (set_header ''X-HANDLED-BY'' ''Playlists'')) (\<lambda>_.
        bindE (out (set_basic_headers ''json'')) (\<lambda>_. ret Stop))))"

section \<open>The start page\<close>

definition hdf_item :: "int \<Rightarrow> string \<Rightarrow> string \<Rightarrow> nat \<Rightarrow> char \<Rightarrow> string" where
  "hdf_item num ident label children kind = concat [''  '', show_int num, '' {'',
     nl, ''     label='', escape_dq label, nl, ''     id='', ident, nl, ''     type='', [kind],
     nl, ''     ch='', show_nat children, nl, ''    }'', nl]"

definition hdf_dir :: "int \<times> music_dir_obj \<Rightarrow> unit act" where
  "hdf_dir nd = (let d = snd nd in
     bindE (db (md_num_children d)) (\<lambda>c.
     bindE (db (md_num_songs d)) (\<lambda>n.
     put_text (hdf_item (fst nd) (show_int (db_id d)) (dir_name d) (c + n) (CHR ''a'')))))"

definition hdf_song :: "int \<times> song_obj \<Rightarrow> unit act" where
  "hdf_song ns = put_text (hdf_item (fst ns) (show_int (db_id (snd ns))) (title (snd ns)) 0 (CHR ''s''))"

definition hdf_char :: "char \<Rightarrow> int \<times> char \<times> nat \<Rightarrow> unit act" where
  "hdf_char kind nc = (case nc of (num, c, n) \<Rightarrow> put_text (hdf_item num [c] [c] n kind))"

definition hdf_insert_dirs :: "unit act" where
  "hdf_insert_dirs =
     bindE (put_text (''RootDirectories {'' @ nl)) (\<lambda>_.
     bindE (db md_roots) (\<lambda>rs.
     bindE (case rs of [d] \<Rightarrow> bindE (db (md_children_of (db_id d))) (\<lambda>ds. ret (ds, Some d))
                     | _ \<Rightarrow> ret (rs, None)) (\<lambda>(ds, top).
     bindE (forE (number 0 ds) hdf_dir) (\<lambda>_.
     bindE (case top of
              None \<Rightarrow> ret ()
            | Some d \<Rightarrow> bindE (db (md_songs d)) (\<lambda>ss. forE (number (int (length ds)) ss) hdf_song)) (\<lambda>_.
     put_text (''}'' @ nl))))))"

definition hdf_insert_albums :: "unit act" where
  "hdf_insert_albums =
     bindE (put_text (''Albums {'' @ nl)) (\<lambda>_.
     bindE (db album_count) (\<lambda>n.
     bindE (if 100 < n then
              bindE (db album_starting_chars) (\<lambda>cs. forE (number 0 cs) (hdf_char (CHR ''e'')))
            else
              bindE (db album_all) (\<lambda>as. forE (number 0 as) (\<lambda>(num, a).
                bindE (db (album_num_songs (a, None))) (\<lambda>k.
                put_text (hdf_item num (show_int (db_id a)) (obj_name a) k (CHR ''f'')))))) (\<lambda>_.
     put_text (''}'' @ nl))))"

definition hdf_insert_artists :: "unit act" where
  "hdf_insert_artists =
     bindE (put_text (''Artists {'' @ nl)) (\<lambda>_.
     bindE (db artist_count) (\<lambda>n.
     bindE (if 100 < n then
              bindE (db artist_starting_chars) (\<lambda>cs. forE (number 0 cs) (hdf_char (CHR ''b'')))
            else
              bindE (db artist_all) (\<lambda>as. forE (number 0 as) (\<lambda>(num, a).
                bindE (db (artist_num_songs a)) (\<lambda>k.
                put_text (hdf_item num (show_int (db_id a)) (obj_name a) k (CHR ''d'')))))) (\<lambda>_.
     put_text (''}'' @ nl))))"

definition index_handle :: "host \<Rightarrow> request \<Rightarrow> request_status act" where
  "index_handle h req =
     (if u1 req \<noteq> [] then ret Continue
      else
        bindE (out (set_basic_headers ''html'')) (\<lambda>_.
        bindE (deref (req_user req)) (\<lambda>u.
        if has_modify_role u then
          bindE (out (\<lambda>rep. snd (set_template (host_site h) ''full.html'' rep))) (\<lambda>_.
          bindE hdf_insert_dirs (\<lambda>_.
          bindE hdf_insert_albums (\<lambda>_.
          bindE hdf_insert_artists (\<lambda>_.
          bindE (hdf ''isAdmin'' (show_int (if is_admin u then 1 else 0))) (\<lambda>_.
          bindE (db artist_count) (\<lambda>na.
          bindE (hdf ''NumArtists'' (show_int (to_int32 (int na)))) (\<lambda>_.
          bindE (db album_count) (\<lambda>nb.
          bindE (hdf ''NumAlbums'' (show_int (to_int32 (int nb)))) (\<lambda>_.
          bindE (db song_count) (\<lambda>ns.
          bindE (hdf ''NumSongs'' (show_int (to_int32 (int ns)))) (\<lambda>_. ret Stop)))))))))))
        else ret Stop)))"

section \<open>The tree\<close>

definition tree_item :: "int \<Rightarrow> string \<Rightarrow> nat \<Rightarrow> string \<Rightarrow> string" where
  "tree_item i label children kind = concat [nl, ''    {'', dq, ''id'', dq, '':'', show_int i,
     '','', dq, ''text'', dq, '':'', dq, escape_dq label, dq, '','', dq, ''leaf'', dq, '':'',
     (if children \<noteq> 0 then ''false'' else ''true''), '','', dq, ''cls'', dq, '':'', dq, kind, dq, '' }'']"

definition tree_node :: "string \<Rightarrow> string \<Rightarrow> string \<Rightarrow> string" where
  "tree_node ident label kind = concat [nl, ''    {'', dq, ''id'', dq, '':'', dq, ident, dq,
     '','', dq, ''text'', dq, '':'', dq, label, dq, '','', dq, ''leaf'', dq, '':false,'',
     dq, ''cls'', dq, '':'', dq, kind, dq, '' }'']"

definition tree_song :: "song_obj \<Rightarrow> unit act" where
  "tree_song s = put_text (tree_item (db_id s)
     (if track s \<noteq> 0 then show_int (track s) @ ''-'' @ title s else title s) 0 ''song'')"

text \<open>The counts are arguments of the call that writes the comma, so they are there before it.\<close>

fun tree_dirs :: "commas \<Rightarrow> music_dir_obj list \<Rightarrow> commas act" where
  "tree_dirs c [] = ret c"
| "tree_dirs c (d # ds) =
     bindE (db (md_num_children d)) (\<lambda>k.
     bindE (db (md_num_songs d)) (\<lambda>n.
     bindE (put_comma c) (\<lambda>c'.
     bindE (put_text (tree_item (db_id d) (dir_name d) (k + n) ''dir'')) (\<lambda>_. tree_dirs c' ds))))"

definition tree_starting_artist :: "char \<times> nat \<Rightarrow> unit act" where
  "tree_starting_artist cn = put_text (tree_node (''a'' @ [fst cn]) [fst cn] ''artist'')"

definition tree_artist :: "named_obj \<Rightarrow> unit act" where
  "tree_artist a = put_text (tree_node (''b'' @ show_int (db_id a)) (escape_dq (obj_name a)) ''artist'')"

definition tree_album :: "named_obj \<Rightarrow> unit act" where
  "tree_album a = put_text (tree_node (''c'' @ show_int (db_id a)) (escape_dq (obj_name a)) ''album'')"

definition tree_dir_handle :: "request \<Rightarrow> commas act" where
  "tree_dir_handle req =
     bindE (single_id req ''node'') (\<lambda>i.
     bindE (db (md_children_of i)) (\<lambda>rs.
     bindE (case rs of
              [d] \<Rightarrow> if i = 0 then db (md_children_of (db_id d)) else ret rs
            | _ \<Rightarrow> ret rs) (\<lambda>ds.
     bindE (tree_dirs commas_init ds) (\<lambda>c.
     if i \<noteq> 0 then
       bindE (db (md_load i)) (\<lambda>d. bindE (db (md_songs d)) (\<lambda>ss. with_rows c ss tree_song))
     else ret c))))"

definition tree_tag_handle :: "request \<Rightarrow> commas act" where
  "tree_tag_handle req =
     (let node = svalue req ''node'' in
      if node = ''0'' then
        bindE (db artist_count) (\<lambda>n.
        if 100 < n then
          bindE (db artist_starting_chars) (\<lambda>cs. with_rows commas_init cs tree_starting_artist)
        else bindE (db artist_all) (\<lambda>as. with_rows commas_init as tree_artist))
      else
        (case node of
           t # c # rest \<Rightarrow>
             if t = CHR ''a'' then
               bindE (db (artist_name_starts_with (c # rest))) (\<lambda>as. with_rows commas_init as tree_artist)
             else if t = CHR ''b'' then
               bindE (cast_or_throw (lexical_cast_id (c # rest))) (\<lambda>i.
               bindE (db (artist_load i)) (\<lambda>a.
               bindE (db (artist_albums a)) (\<lambda>as. with_rows commas_init as tree_album)))
             else if t = CHR ''c'' then
               bindE (cast_or_throw (lexical_cast_id (c # rest))) (\<lambda>i.
               bindE (db (album_load i)) (\<lambda>a.
               bindE (db (album_songs a)) (\<lambda>ss. with_rows commas_init ss tree_song)))
             else ret commas_init
         | _ \<Rightarrow> throw (Ews_error ''Unable to load data'')))"

definition tree_handle :: "host \<Rightarrow> request \<Rightarrow> request_status act" where
  "tree_handle h req =
     (if u1 req \<noteq> ''tree'' then ret Continue
      else
        bindE (put_text ''['') (\<lambda>_.
        bindE (if u2 req = ''dir'' then tree_dir_handle req
               else if u2 req = ''tag'' then tree_tag_handle req
               else ret commas_init) (\<lambda>_.
        bindE (put_text (nl @ '']'')) (\<lambda>_.
        bindE (out (set_basic_headers ''json'')) (\<lambda>_. ret Stop)))))"

section \<open>All handlers\<close>

definition mk_handler :: "string \<Rightarrow> request_phase \<Rightarrow> (request \<Rightarrow> request_status act) \<Rightarrow> handler" where
  "mk_handler name phase f = \<lparr>h_name = name, h_phase = phase, h_handle = (\<lambda>req rep w. f req (rep, w))\<rparr>"

definition link_up :: "host \<Rightarrow> registry" where
  "link_up h = register_all
     [mk_handler ''Playlists'' Middle (pl_handle h), mk_handler ''Index'' Middle (index_handle h),
      mk_handler ''Tree'' Middle (tree_handle h), mk_handler ''Filesystem'' Last (files_handle h),
      mk_handler ''Login'' Beginning (login_handle h), mk_handler ''Users'' Beginning (users_handle h),
      mk_handler ''Info'' Middle (info_handle h), mk_handler ''Xspf'' Beginning (xspf_handle h),
      mk_handler ''Song'' Beginning (song_handle h)]"

text \<open>The answer of the application to a request.\<close>

definition serve :: "host \<Rightarrow> request \<Rightarrow> world \<Rightarrow> (exn + bool) \<times> reply \<times> world" where
  "serve h req w = handle_request (link_up h) req new_reply w"

end
