(* ===== verification/Json_Correct.thy ===== *)
theory Json_Correct
  imports Json
begin

text \<open>
  The reader always ends, its fuel is enough, and it reads back what the writer writes.
\<close>

section \<open>The reader ends\<close>

lemma parsed_or_failed_simps [simp]:
  "parsed_or_failed x r \<noteq> Out_of_fuel"
  "(parsed_or_failed x r = Parsed v r') = (x = Some v \<and> r' = r)"
  by (auto simp: parsed_or_failed_def split: option.split)

lemma skip_spaces_Cons_length: "skip_spaces s = c # r \<Longrightarrow> length r < length s"
  using length_skip_spaces [of s] by simp

text \<open>How each of the three readers comes to a result.\<close>

lemma read_members_Parsed:
  assumes "read_members lf (Suc n) name ms s = Parsed v r"
  shows "(next_token s = (ObjectEnd, r) \<and> name = [] \<and> v = JObject ms) \<or>
    (\<exists>t u nm r1 x r2. next_token s = (StringToken t, u) \<and> decode_string t = Some nm \<and>
       read_token u = (MemberSeparator, r1) \<and> read_value lf n r1 = Parsed x r2 \<and>
       (read_token r2 = (ObjectEnd, r) \<and> v = JObject (map_set (c_str nm) x ms) \<or>
        (\<exists>r3. read_token r2 = (ArraySeparator, r3) \<and> read_members lf n nm (map_set (c_str nm) x ms) r3 = Parsed v r)))"
proof -
  obtain t u where tok: "next_token s = (t, u)" by fastforce
  show ?thesis
  proof (cases t)
    case (StringToken x)
    with assms tok obtain nm where nm: "decode_string x = Some nm" by (cases "decode_string x") auto
    obtain t1 r1 where sep: "read_token u = (t1, r1)" by fastforce
    with assms tok StringToken nm have t1: "t1 = MemberSeparator" by (cases t1) auto
    from assms tok StringToken nm sep t1 obtain y r2 where y: "read_value lf n r1 = Parsed y r2"
      by (cases "read_value lf n r1") auto
    obtain t2 r3 where comma: "read_token r2 = (t2, r3)" by fastforce
    from assms tok StringToken nm sep t1 y comma show ?thesis by (cases t2) auto
  qed (use assms tok in \<open>auto split: if_splits\<close>)
qed

lemma read_elements_Parsed:
  assumes "read_elements lf (Suc n) xs s = Parsed v r"
  shows "\<exists>x u. read_value lf n s = Parsed x u \<and>
    (read_token u = (ArrayEnd, r) \<and> v = JArray (xs @ [x]) \<or>
     (\<exists>r'. read_token u = (ArraySeparator, r') \<and> read_elements lf n (xs @ [x]) r' = Parsed v r))"
proof -
  from assms obtain x u where x: "read_value lf n s = Parsed x u" by (cases "read_value lf n s") auto
  obtain t r' where tok: "read_token u = (t, r')" by fastforce
  from assms x tok show ?thesis by (cases t) auto
qed

lemma read_value_Parsed:
  assumes "read_value lf (Suc n) s = Parsed v r"
  obtains (Object) u where "next_token s = (ObjectBegin, u)" "read_members lf n [] [] u = Parsed v r"
  | (EmptyArray) u where "next_token s = (ArrayBegin, u)" "skip_spaces u = CHR '']'' # r" "v = JArray []"
  | (Array) u where "next_token s = (ArrayBegin, u)" "read_elements lf n [] (skip_spaces u) = Parsed v r"
  | (Leaf) t where "next_token s = (t, r)" "t \<noteq> EndOfStream"
proof -
  obtain t u where tok: "next_token s = (t, u)" by fastforce
  show thesis
  proof (cases t)
    case ArrayBegin
    with assms tok that(2,3) show thesis by (cases "skip_spaces u") (auto split: if_splits)
  qed (use assms tok that(1,4) in auto)
qed

lemma read_shorter:
  "(\<forall>s v r. read_value lf n s = Parsed v r \<longrightarrow> length r < length s) \<and>
   (\<forall>name ms s v r. read_members lf n name ms s = Parsed v r \<longrightarrow> length r < length s) \<and>
   (\<forall>xs s v r. read_elements lf n xs s = Parsed v r \<longrightarrow> length r < length s)"
proof (induction n)
  case (Suc n)
  note ih = Suc.IH [THEN conjunct1, rule_format] Suc.IH [THEN conjunct2, THEN conjunct1, rule_format]
    Suc.IH [THEN conjunct2, THEN conjunct2, rule_format]
  have "length r < length s" if "read_value lf (Suc n) s = Parsed v r" for s v r
    using that
  proof (cases rule: read_value_Parsed)
    case (Object u)
    with next_token_shorter [OF Object(1)] ih(2) [OF Object(2)] show ?thesis by simp
  next
    case (EmptyArray u)
    with next_token_shorter [OF EmptyArray(1)] skip_spaces_Cons_length [OF EmptyArray(2)] show ?thesis by simp
  next
    case (Array u)
    with next_token_shorter [OF Array(1)] ih(3) [OF Array(2)] length_skip_spaces [of u] show ?thesis by simp
  next
    case (Leaf t)
    with next_token_shorter [OF Leaf(1)] show ?thesis by simp
  qed
  moreover have "length r < length s" if "read_members lf (Suc n) name ms s = Parsed v r" for name ms s v r
    using read_members_Parsed [OF that]
    by (auto dest!: next_token_shorter read_token_shorter ih)
  moreover have "length r < length s" if "read_elements lf (Suc n) xs s = Parsed v r" for xs s v r
    using read_elements_Parsed [OF that]
    by (auto dest!: read_token_shorter ih)
  ultimately show ?case by blast
qed simp

text \<open>A bound on the calls that is never reached.\<close>

lemma fuel_enough:
  "(\<forall>s. 2 * length s < n \<longrightarrow> read_value lf n s \<noteq> Out_of_fuel) \<and>
   (\<forall>name ms s. 2 * length s < n \<longrightarrow> read_members lf n name ms s \<noteq> Out_of_fuel) \<and>
   (\<forall>xs s. 2 * length s + 1 < n \<longrightarrow> read_elements lf n xs s \<noteq> Out_of_fuel)"
proof (induction n)
  case (Suc n)
  note ih = Suc.IH [THEN conjunct1, rule_format] Suc.IH [THEN conjunct2, THEN conjunct1, rule_format]
    Suc.IH [THEN conjunct2, THEN conjunct2, rule_format]
  have "read_value lf (Suc n) s \<noteq> Out_of_fuel" if len: "2 * length s < Suc n" for s
  proof -
    obtain t u where tok: "next_token s = (t, u)" by fastforce
    have u: "t \<noteq> EndOfStream \<Longrightarrow> 2 * length u + 1 < n" using next_token_shorter [OF tok] len by simp
    have sp: "t \<noteq> EndOfStream \<Longrightarrow> 2 * length (skip_spaces u) + 1 < n"
      using u length_skip_spaces [of u] by simp
    show ?thesis
    proof (cases t)
      case ArrayBegin
      then show ?thesis using tok ih(3) [OF sp] by (cases "skip_spaces u") auto
    next
      case ObjectBegin
      then show ?thesis using tok ih(2) u by simp
    qed (use tok in simp_all)
  qed
  moreover have "read_members lf (Suc n) name ms s \<noteq> Out_of_fuel" if len: "2 * length s < Suc n" for name ms s
  proof -
    obtain t u where tok: "next_token s = (t, u)" by fastforce
    show ?thesis
    proof (cases t)
      case (StringToken x)
      then have u: "length u < length s" using next_token_shorter [OF tok] by simp
      obtain t1 r1 where sep: "read_token u = (t1, r1)" by fastforce
      show ?thesis
      proof (cases "decode_string x = None \<or> t1 \<noteq> MemberSeparator")
        case True
        then show ?thesis using tok StringToken sep by (cases "decode_string x"; cases t1) simp_all
      next
        case False
        then obtain nm where nm: "decode_string x = Some nm" and t1: "t1 = MemberSeparator" by auto
        have r1: "length r1 < length u" using read_token_shorter [OF sep] t1 by simp
        have value_ok: "read_value lf n r1 \<noteq> Out_of_fuel" using len u r1 by (intro ih(1)) simp
        show ?thesis
        proof (cases "read_value lf n r1")
          case (Parsed y r2)
          then have r2: "length r2 < length r1" using read_shorter [of lf n] by blast
          obtain t2 r3 where comma: "read_token r2 = (t2, r3)" by fastforce
          have "t2 \<noteq> EndOfStream \<Longrightarrow> 2 * length r3 < n" using read_token_shorter [OF comma] len u r1 r2 by simp
          then show ?thesis
            using tok StringToken nm sep t1 Parsed comma ih(2) [of r3] by (cases t2) simp_all
        qed (use tok StringToken nm sep t1 value_ok in simp_all)
      qed
    qed (use tok in simp_all)
  qed
  moreover have "read_elements lf (Suc n) xs s \<noteq> Out_of_fuel" if len: "2 * length s + 1 < Suc n" for xs s
  proof -
    have value_ok: "read_value lf n s \<noteq> Out_of_fuel" using len by (intro ih(1)) simp
    show ?thesis
    proof (cases "read_value lf n s")
      case (Parsed y u)
      then have u: "length u < length s" using read_shorter [of lf n] by blast
      obtain t r' where tok: "read_token u = (t, r')" by fastforce
      have "t \<noteq> EndOfStream \<Longrightarrow> 2 * length r' + 1 < n" using read_token_shorter [OF tok] len u by simp
      then show ?thesis using Parsed tok ih(3) [of r'] by (cases t) simp_all
    qed (use value_ok in simp_all)
  qed
  ultimately show ?case by blast
qed simp

lemma fuel_more_step:
  "(\<forall>s. read_value lf n s \<noteq> Out_of_fuel \<longrightarrow> read_value lf (Suc n) s = read_value lf n s) \<and>
   (\<forall>name ms s. read_members lf n name ms s \<noteq> Out_of_fuel \<longrightarrow>
      read_members lf (Suc n) name ms s = read_members lf n name ms s) \<and>
   (\<forall>xs s. read_elements lf n xs s \<noteq> Out_of_fuel \<longrightarrow> read_elements lf (Suc n) xs s = read_elements lf n xs s)"
proof (induction n)
  case (Suc n)
  note ih = Suc.IH [THEN conjunct1, rule_format] Suc.IH [THEN conjunct2, THEN conjunct1, rule_format]
    Suc.IH [THEN conjunct2, THEN conjunct2, rule_format]
  have "read_value lf (Suc (Suc n)) s = read_value lf (Suc n) s" if run: "read_value lf (Suc n) s \<noteq> Out_of_fuel" for s
  proof -
    obtain t u where tok: "next_token s = (t, u)" by fastforce
    show ?thesis
    proof (cases t)
      case ArrayBegin
      then show ?thesis
        using tok run ih(3) by (subst (1 2) read_value.simps) (auto split: list.splits)
    next
      case ObjectBegin
      then show ?thesis using tok run ih(2) by (subst (1 2) read_value.simps) simp
    qed (use tok in \<open>simp_all\<close>)
  qed
  moreover have "read_members lf (Suc (Suc n)) name ms s = read_members lf (Suc n) name ms s"
    if run: "read_members lf (Suc n) name ms s \<noteq> Out_of_fuel" for name ms s
  proof -
    obtain t u where tok: "next_token s = (t, u)" by fastforce
    show ?thesis
    proof (cases t)
      case (StringToken x)
      obtain t1 r1 where sep: "read_token u = (t1, r1)" by fastforce
      show ?thesis
      proof (cases "decode_string x = None \<or> t1 \<noteq> MemberSeparator")
        case True
        then show ?thesis using tok StringToken sep
          by (subst (1 2) read_members.simps) (cases "decode_string x"; cases t1; simp)
      next
        case False
        then obtain nm where nm: "decode_string x = Some nm" and t1: "t1 = MemberSeparator" by auto
        have value_ok: "read_value lf n r1 \<noteq> Out_of_fuel" using run tok StringToken nm sep t1 by auto
        obtain res where res: "read_value lf n r1 = res" "read_value lf (Suc n) r1 = res"
          using ih(1) [OF value_ok] by simp
        show ?thesis
        proof (cases res)
          case (Parsed y r2)
          obtain t2 r3 where comma: "read_token r2 = (t2, r3)" by fastforce
          show ?thesis
            using run tok StringToken nm sep t1 res Parsed comma ih(2) [of nm "map_set (c_str nm) y ms" r3]
            by (subst (1 2) read_members.simps, subst (asm) read_members.simps) (cases t2; simp)
        qed (use tok StringToken nm sep t1 res in
            \<open>subst (1 2) read_members.simps, simp\<close>)+
      qed
    qed (use tok in simp_all)
  qed
  moreover have "read_elements lf (Suc (Suc n)) xs s = read_elements lf (Suc n) xs s"
    if run: "read_elements lf (Suc n) xs s \<noteq> Out_of_fuel" for xs s
  proof -
    have value_ok: "read_value lf n s \<noteq> Out_of_fuel" using run by auto
    obtain res where res: "read_value lf n s = res" "read_value lf (Suc n) s = res"
      using ih(1) [OF value_ok] by simp
    show ?thesis
    proof (cases res)
      case (Parsed y u)
      obtain t r' where tok: "read_token u = (t, r')" by fastforce
      show ?thesis
        using run res Parsed tok ih(3) [of "xs @ [y]" r']
        by (subst (1 2) read_elements.simps, subst (asm) read_elements.simps) (cases t; simp)
    qed (use res in \<open>subst (1 2) read_elements.simps, simp\<close>)+
  qed
  ultimately show ?case by blast
qed simp

lemma fuel_more:
  "read_value lf n s \<noteq> Out_of_fuel \<Longrightarrow> n \<le> m \<Longrightarrow> read_value lf m s = read_value lf n s"
proof (induction m)
  case (Suc m)
  then show ?case using fuel_more_step [of lf m] by (cases "n = Suc m") auto
qed simp

text \<open>
  Reading a document always comes to an end: a number of calls that is linear in the length
  of the document is enough, and more of them give the same answer.
\<close>

theorem json_reader_terminates:
  "2 * length doc < n \<Longrightarrow>
     read_value lf n doc \<noteq> Out_of_fuel \<and>
     json_parse lf doc = (case read_value lf n doc of Parsed v r \<Rightarrow> Some v | _ \<Rightarrow> None)"
proof -
  assume n: "2 * length doc < n"
  have ok: "read_value lf (2 * length doc + 1) doc \<noteq> Out_of_fuel" using fuel_enough [of "2 * length doc + 1" lf] by simp
  from fuel_more [OF this, of n] n have "read_value lf n doc = read_value lf (2 * length doc + 1) doc" by simp
  with ok show ?thesis by (simp add: json_parse_def del: read_value.simps)
qed

theorem json_reader_terminates_witness:
  "read_value (\<lambda>_. None) 7 ''[1]'' = Parsed (JArray [JInt 1]) [] \<and> json_parse (\<lambda>_. None) ''[1]'' = Some (JArray [JInt 1])"
proof -
  have run: "read_value (\<lambda>_. None) 7 ''[1]'' = Parsed (JArray [JInt 1]) []" by code_simp
  with json_reader_terminates [of "''[1]''" 7 "\<lambda>_. None"] show ?thesis by simp
qed

section \<open>What is written is read\<close>

definition plain_text :: "string \<Rightarrow> bool" where
  "plain_text s = (CHR 0x22 \<notin> set s \<and> CHR 0x5C \<notin> set s \<and> CHR 0x00 \<notin> set s)"

text \<open>
  Texts without quotes, backslashes and NUL, no reals, and integers the reader makes of their
  digits: from -2147483639 to 2147483647, and above that unsigned ones below 4294967290.
\<close>

fun plain_json :: "json \<Rightarrow> bool" where
  "plain_json JNull = True"
| "plain_json (JInt i) = (- 2147483639 \<le> i \<and> i \<le> 2147483647)"
| "plain_json (JUInt u) = (2147483647 < u \<and> u < 4294967290)"
| "plain_json (JReal r) = False"
| "plain_json (JString s) = plain_text s"
| "plain_json (JBool b) = True"
| "plain_json (JArray xs) = list_all plain_json xs"
| "plain_json (JObject ms) = (map_ok ms \<and> list_all (\<lambda>(n, v). plain_text n \<and> plain_json v) ms)"

lemma plain_text_c_str [simp]: "plain_text s \<Longrightarrow> c_str s = s"
  by (auto simp: plain_text_def c_str_def takeWhile_eq_all_conv)

lemma decode_plain [simp]: "plain_text s \<Longrightarrow> decode_string s = Some s"
proof (induction s)
  case (Cons c s)
  then have "plain_text s" "c \<noteq> CHR 0x22" "c \<noteq> CHR 0x5C" by (auto simp: plain_text_def)
  with Cons.IH show ?case by simp
qed simp

lemma read_string_plain [simp]: "plain_text s \<Longrightarrow> read_string (s @ CHR 0x22 # r) = Some (s, r)"
proof (induction s)
  case (Cons c s)
  then have "plain_text s" "c \<noteq> CHR 0x22" "c \<noteq> CHR 0x5C" by (auto simp: plain_text_def)
  with Cons.IH show ?case by simp
qed simp

lemma skip_blank [simp]: "skip_spaces (CHR '' '' # s) = skip_spaces s"
  by (simp add: skip_spaces_def is_blank_def)

lemma read_token_blank [simp]: "read_token (CHR '' '' # s) = read_token s"
  by (simp add: read_token_def)

lemma next_token_blank [simp]: "next_token (CHR '' '' # s) = next_token s"
  by (simp add: next_token.simps [of "CHR '' '' # s"] next_token.simps [of s])

lemma read_value_blank [simp]: "read_value lf n (CHR '' '' # s) = read_value lf n s"
  by (cases n) simp_all

lemma read_token_marks [simp]:
  "read_token (CHR ''{'' # s) = (ObjectBegin, s)" "read_token (CHR ''}'' # s) = (ObjectEnd, s)"
  "read_token (CHR ''['' # s) = (ArrayBegin, s)" "read_token (CHR '']'' # s) = (ArrayEnd, s)"
  "read_token (CHR '','' # s) = (ArraySeparator, s)" "read_token (CHR '':'' # s) = (MemberSeparator, s)"
  by (simp_all add: read_token_def skip_spaces_def is_blank_def is_dec_def)

lemma read_token_words [simp]:
  "read_token (CHR ''n'' # CHR ''u'' # CHR ''l'' # CHR ''l'' # s) = (NullToken, s)"
  "read_token (CHR ''t'' # CHR ''r'' # CHR ''u'' # CHR ''e'' # s) = (TrueToken, s)"
  "read_token (CHR ''f'' # CHR ''a'' # CHR ''l'' # CHR ''s'' # CHR ''e'' # s) = (FalseToken, s)"
  by (simp_all add: read_token_def skip_spaces_def is_blank_def is_dec_def match_word_def)

lemma read_token_quoted [simp]: "plain_text s \<Longrightarrow> read_token (quoted s @ r) = (StringToken s, r)"
  by (simp add: quoted_def read_token_def skip_spaces_def is_blank_def)

lemma next_token_plain [simp]: "fst (read_token s) \<noteq> CommentToken \<Longrightarrow> next_token s = read_token s"
  by (cases "read_token s") (simp add: next_token.simps [of s])

section \<open>Numbers\<close>

definition stops_number :: "string \<Rightarrow> bool" where
  "stops_number s = (s = [] \<or> \<not> is_number_char (hd s))"

lemma digits_number: "list_all is_dec ds \<Longrightarrow> stops_number r \<Longrightarrow>
   takeWhile is_number_char (ds @ r) = ds \<and> dropWhile is_number_char (ds @ r) = r"
proof (induction ds)
  case Nil
  then show ?case by (cases r) (auto simp: stops_number_def)
qed (auto simp: is_number_char_def)

lemma number_token:
  assumes "is_dec c \<or> c = CHR ''-''" "list_all is_dec ds" "stops_number r"
  shows "read_token (c # ds @ r) = (NumberToken (c # ds), r)"
proof -
  have "\<not> is_blank c" "c \<notin> {CHR ''{'', CHR ''}'', CHR ''['', CHR '']'', CHR 0x22, CHR ''/''}"
    using assms(1) by (auto simp: is_blank_def is_dec_def)
  with digits_number [OF assms(2,3)] assms(1) show ?thesis
    by (auto simp: read_token_def skip_spaces_def)
qed

lemma digits_foldl_ge: "(v::nat) \<le> foldl (\<lambda>n c. n * 10 + dec_digit c) v s"
proof (induction s arbitrary: v)
  case (Cons c s)
  from Cons [of "v * 10 + dec_digit c"] show ?case by simp
qed simp

lemma decode_digits_value:
  "list_all is_dec s \<Longrightarrow> int (foldl (\<lambda>n c. n * 10 + dec_digit c) v s) div 10 < th \<Longrightarrow>
   decode_digits th s (int v) = Digits (int (foldl (\<lambda>n c. n * 10 + dec_digit c) v s))"
proof (induction s arbitrary: v)
  case (Cons c s)
  let ?v = "v * 10 + dec_digit c"
  have "?v \<le> foldl (\<lambda>n c. n * 10 + dec_digit c) v (c # s)" using digits_foldl_ge [of ?v s] by simp
  then have "int v \<le> int (foldl (\<lambda>n c. n * 10 + dec_digit c) v (c # s)) div 10" by linarith
  then have small: "int v < th" using Cons.prems(2) by linarith
  from Cons.IH [of ?v] Cons.prems small show ?case by simp
qed simp

lemma decode_show_nat: "int n div 10 < th \<Longrightarrow> decode_digits th (show_nat n) 0 = Digits (int n)"
  using decode_digits_value [of "show_nat n" 0 th] dec_value_show_nat [of n] by (simp add: dec_value_def)

lemma digits_not_double: "list_all is_dec ds \<Longrightarrow> \<not> list_ex (\<lambda>c. c \<in> {CHR ''.'', CHR ''e'', CHR ''E'', CHR ''+''}) ds \<and> CHR ''-'' \<notin> set ds"
  by (induction ds) (auto simp: is_dec_def)

lemma tl_digits: "list_all is_dec ds \<Longrightarrow> list_all is_dec (tl ds)"
  by (cases ds) simp_all

lemma read_natural:
  assumes "int n < 4294967290" "stops_number r"
  shows "read_token (show_nat n @ r) = (NumberToken (show_nat n), r) \<and>
    decode_number lf (show_nat n) = Some (if int n \<le> max_int then JInt (int n) else JUInt (int n))"
proof -
  obtain c ds where s: "show_nat n = c # ds" using show_nat_nonempty by (meson list.exhaust)
  have dec: "is_dec c" "list_all is_dec ds" using show_nat_digits [of n] s by simp_all
  have tok: "read_token (show_nat n @ r) = (NumberToken (show_nat n), r)"
    using number_token [OF _ dec(2) assms(2), of c] dec(1) s by simp
  have "\<not> is_double (show_nat n)"
    using digits_not_double [OF show_nat_digits [of n]] digits_not_double [OF tl_digits [OF show_nat_digits [of n]]]
    by (simp add: is_double_def)
  moreover have "c \<noteq> CHR ''-''" using dec(1) is_dec_not_sign by blast
  moreover have "decode_digits (max_uint div 10) (show_nat n) 0 = Digits (int n)"
    using assms(1) by (intro decode_show_nat) (simp add: max_uint_def)
  ultimately have "decode_number lf (show_nat n) = Some (if int n \<le> max_int then JInt (int n) else JUInt (int n))"
    using s by (simp add: decode_number_def Let_def)
  with tok show ?thesis by blast
qed

lemma read_negative:
  assumes "0 < n" "int n < 2147483640" "stops_number r"
  shows "read_token (CHR ''-'' # show_nat n @ r) = (NumberToken (CHR ''-'' # show_nat n), r) \<and>
    decode_number lf (CHR ''-'' # show_nat n) = Some (JInt (- int n))"
proof -
  have tok: "read_token (CHR ''-'' # show_nat n @ r) = (NumberToken (CHR ''-'' # show_nat n), r)"
    using number_token [OF _ show_nat_digits assms(3)] by simp
  have "\<not> is_double (CHR ''-'' # show_nat n)"
    using digits_not_double [OF show_nat_digits [of n]] by (simp add: is_double_def)
  moreover have "decode_digits ((max_int + 1) div 10) (show_nat n) 0 = Digits (int n)"
    using assms(2) by (intro decode_show_nat) (simp add: max_int_def)
  ultimately show ?thesis using tok by (simp add: decode_number_def Let_def)
qed

section \<open>Documents\<close>

lemma read_value_mono: "read_value lf n s = Parsed v r \<Longrightarrow> n \<le> m \<Longrightarrow> read_value lf m s = Parsed v r"
  using fuel_more [of lf n s m] by simp

lemma map_set_last:
  "sorted_wrt (<) (map fst ms @ [n]) \<Longrightarrow> map_set n v ms = ms @ [(n, v)]"
  by (induction n v ms rule: map_set.induct) auto

lemma written_start:
  "plain_json v \<Longrightarrow> \<exists>c s. write_value pf v = c # s \<and> \<not> is_blank c \<and> c \<noteq> CHR '']''"
proof (cases v)
  case (JInt i)
  obtain c ds where "show_nat (nat i) = c # ds" "is_dec c"
    using show_nat_nonempty [of "nat i"] show_nat_digits [of "nat i"] by (cases "show_nat (nat i)") auto
  with JInt show ?thesis by (auto simp: show_int_def is_blank_def is_dec_def)
next
  case (JUInt i)
  obtain c ds where "show_nat (nat i) = c # ds" "is_dec c"
    using show_nat_nonempty [of "nat i"] show_nat_digits [of "nat i"] by (cases "show_nat (nat i)") auto
  with JUInt show ?thesis by (auto simp: show_int_def is_blank_def is_dec_def)
qed (auto simp: is_blank_def quoted_def)

lemma stops_simps [simp]:
  "stops_number []" "stops_number (CHR '','' # s)" "stops_number (CHR '' '' # s)" "stops_number [CHR 0x0A]"
  by (simp_all add: stops_number_def is_number_char_def is_dec_def)

lemma read_elements_mono:
  "read_elements lf n xs s = Parsed v r \<Longrightarrow> n \<le> m \<Longrightarrow> read_elements lf m xs s = Parsed v r"
proof (induction m)
  case (Suc m)
  then show ?case using fuel_more_step [of lf m] by (cases "n = Suc m") auto
qed simp

lemma read_members_mono:
  "read_members lf n nm ms s = Parsed v r \<Longrightarrow> n \<le> m \<Longrightarrow> read_members lf m nm ms s = Parsed v r"
proof (induction m)
  case (Suc m)
  then show ?case using fuel_more_step [of lf m] by (cases "n = Suc m") auto
qed simp

section \<open>Texts of a value\<close>

text \<open>
  What a value can look like: the marks and words of its tokens with any white space in front of them.
  The writers differ in the white space only.
\<close>

definition blank :: "string \<Rightarrow> bool" where
  "blank b = list_all is_blank b"

fun is_leaf :: "json \<Rightarrow> bool" where
  "is_leaf (JArray xs) = False"
| "is_leaf (JObject ms) = False"
| "is_leaf v = True"

inductive spells :: "(rat \<Rightarrow> string) \<Rightarrow> json \<Rightarrow> string \<Rightarrow> bool"
  and spells_items :: "(rat \<Rightarrow> string) \<Rightarrow> json list \<Rightarrow> string \<Rightarrow> bool"
  and spells_members :: "(rat \<Rightarrow> string) \<Rightarrow> (string \<times> json) list \<Rightarrow> string \<Rightarrow> bool"
  for pf :: "rat \<Rightarrow> string" where
  Leaf: "blank b \<Longrightarrow> is_leaf v \<Longrightarrow> spells pf v (b @ write_value pf v)"
| Empty_array: "blank b \<Longrightarrow> blank c \<Longrightarrow> spells pf (JArray []) (b @ CHR ''['' # c @ '']'')"
| Array: "blank b \<Longrightarrow> spells_items pf vs s \<Longrightarrow> blank c \<Longrightarrow> spells pf (JArray vs) (b @ CHR ''['' # s @ c @ '']'')"
| Empty_object: "blank b \<Longrightarrow> blank c \<Longrightarrow> spells pf (JObject []) (b @ CHR ''{'' # c @ ''}'')"
| Object: "blank b \<Longrightarrow> spells_members pf ms s \<Longrightarrow> blank c \<Longrightarrow> spells pf (JObject ms) (b @ CHR ''{'' # s @ c @ ''}'')"
| Item: "spells pf v s \<Longrightarrow> spells_items pf [v] s"
| Items: "spells pf v s \<Longrightarrow> spells_items pf vs t \<Longrightarrow> spells_items pf (v # vs) (s @ CHR '','' # t)"
| Member: "blank b \<Longrightarrow> blank c \<Longrightarrow> spells pf v s \<Longrightarrow> spells_members pf [(n, v)] (b @ quoted n @ c @ CHR '':'' # s)"
| Members: "blank b \<Longrightarrow> blank c \<Longrightarrow> spells pf v s \<Longrightarrow> spells_members pf ms t \<Longrightarrow>
    spells_members pf ((n, v) # ms) (b @ quoted n @ c @ CHR '':'' # s @ CHR '','' # t)"

lemma blank_Nil [simp]: "blank []"
  by (simp add: blank_def)

lemma blank_Cons [simp]: "blank (c # b) = (is_blank c \<and> blank b)"
  by (simp add: blank_def)

lemma blank_append [simp]: "blank (b @ c) = (blank b \<and> blank c)"
  by (simp add: blank_def)

lemma skip_blanks [simp]: "blank b \<Longrightarrow> skip_spaces (b @ s) = skip_spaces s"
  by (induction b) (simp_all add: skip_spaces_def)

lemma read_token_blanks [simp]: "blank b \<Longrightarrow> read_token (b @ s) = read_token s"
  by (simp add: read_token_def)

lemma read_token_skipped [simp]: "read_token (skip_spaces s) = read_token s"
  by (simp add: read_token_def skip_spaces_def)

lemma next_token_cong: "read_token s = read_token t \<Longrightarrow> next_token s = next_token t"
  by (simp add: next_token.simps [of s] next_token.simps [of t])

lemma read_value_cong: "read_token s = read_token t \<Longrightarrow> read_value lf n s = read_value lf n t"
  by (cases n) (simp_all add: next_token_cong [of s t])

lemma read_elements_skipped [simp]: "read_elements lf n vs (skip_spaces s) = read_elements lf n vs s"
  by (cases n) (simp_all add: read_value_cong [of "skip_spaces s" s])

lemma stops_blank: "blank c \<Longrightarrow> d \<in> {CHR '']'', CHR ''}'', CHR '',''} \<Longrightarrow> stops_number (c @ d # r)"
  by (cases c) (auto simp: stops_number_def is_number_char_def is_dec_def is_blank_def)

text \<open>A text of a value starts, behind white space, with what is not the end of an array.\<close>

definition starts_value :: "string \<Rightarrow> bool" where
  "starts_value s = (\<forall>r. \<exists>c t. skip_spaces (s @ r) = c # t \<and> c \<noteq> CHR '']'')"

lemma starts_valueI: "blank b \<Longrightarrow> \<not> is_blank c \<Longrightarrow> c \<noteq> CHR '']'' \<Longrightarrow> starts_value (b @ c # t)"
  by (simp add: starts_value_def) (simp add: skip_spaces_def)

lemma starts_value_append: "starts_value s \<Longrightarrow> starts_value (s @ t)"
  by (simp add: starts_value_def)

lemma spelled_start:
  "spells pf v s \<Longrightarrow> plain_json v \<Longrightarrow> starts_value s"
  "spells_items pf vs s \<Longrightarrow> list_all plain_json vs \<Longrightarrow> starts_value s"
  "spells_members pf ms s \<Longrightarrow> True"
proof (induction v s and vs s and ms s rule: spells_spells_items_spells_members.inducts)
  case (Leaf b v)
  obtain c t where "write_value pf v = c # t" "\<not> is_blank c" "c \<noteq> CHR '']''"
    using written_start [OF Leaf.prems] by blast
  with Leaf.hyps(1) show ?case by (simp add: starts_valueI)
qed (auto simp: starts_valueI is_blank_def starts_value_append)

text \<open>What reading a text leads to.\<close>

definition reads_as :: "(string \<Rightarrow> rat option) \<Rightarrow> string \<Rightarrow> json \<Rightarrow> bool" where
  "reads_as lf s v = (\<forall>r. stops_number r \<longrightarrow> (\<exists>n. read_value lf n (s @ r) = Parsed v r))"

lemma reads_asD: "reads_as lf s v \<Longrightarrow> stops_number r \<Longrightarrow> \<exists>n. read_value lf n (s @ r) = Parsed v r"
  by (simp add: reads_as_def)

lemma reads_as_blanks: "blank b \<Longrightarrow> reads_as lf s v \<Longrightarrow> reads_as lf (b @ s) v"
  using read_value_cong [of "b @ s @ r" "s @ r" lf for r] by (simp add: reads_as_def)

lemma reads_as_leaf: "is_leaf v \<Longrightarrow> plain_json v \<Longrightarrow> reads_as lf (write_value pf v) v"
  unfolding reads_as_def
proof (intro allI impI exI [of _ "Suc 0"])
  fix r assume v: "is_leaf v" "plain_json v" and r: "stops_number r"
  show "read_value lf (Suc 0) (write_value pf v @ r) = Parsed v r"
  proof (cases v)
    case (JInt i)
    show ?thesis
    proof (cases "i < 0")
      case True
      have "0 < nat (- i)" "int (nat (- i)) < 2147483640" using JInt True v by auto
      from read_negative [OF this r, of lf] True JInt show ?thesis by (simp add: show_int_def)
    next
      case False
      have "int (nat i) < 4294967290" using JInt False v by auto
      from read_natural [OF this r, of lf] False JInt v show ?thesis by (simp add: show_int_def max_int_def)
    qed
  next
    case (JUInt u)
    have "int (nat u) < 4294967290" using JUInt v by auto
    from read_natural [OF this r, of lf] JUInt v show ?thesis by (simp add: show_int_def max_int_def)
  next
    case (JBool b)
    then show ?thesis by (cases b) simp_all
  qed (use v in simp_all)
qed

text \<open>One element and one member, and what follows them.\<close>

lemma read_element:
  assumes "reads_as lf s v" "stops_number r" "read_token r = (t, r')"
  shows "\<exists>n. \<forall>m acc. n \<le> m \<longrightarrow> read_elements lf (Suc m) acc (s @ r) =
    (case t of ArraySeparator \<Rightarrow> read_elements lf m (acc @ [v]) r' | ArrayEnd \<Rightarrow> Parsed (JArray (acc @ [v])) r' | _ \<Rightarrow> Failed)"
proof -
  from reads_asD [OF assms(1,2)] obtain n where "read_value lf n (s @ r) = Parsed v r" by blast
  then have "n \<le> m \<Longrightarrow> read_value lf m (s @ r) = Parsed v r" for m by (rule read_value_mono)
  with assms(3) show ?thesis by (intro exI [of _ n]) (cases t; simp)
qed

lemma read_member:
  assumes "plain_text nm" "blank b" "blank c" "reads_as lf s v" "stops_number r" "read_token r = (t, r')"
  shows "\<exists>n. \<forall>m name ms. n \<le> m \<longrightarrow> read_members lf (Suc m) name ms (b @ quoted nm @ c @ CHR '':'' # s @ r) =
    (case t of ArraySeparator \<Rightarrow> read_members lf m nm (map_set nm v ms) r'
     | ObjectEnd \<Rightarrow> Parsed (JObject (map_set nm v ms)) r' | _ \<Rightarrow> Failed)"
proof -
  from reads_asD [OF assms(4,5)] obtain n where "read_value lf n (s @ r) = Parsed v r" by blast
  then have "n \<le> m \<Longrightarrow> read_value lf m (s @ r) = Parsed v r" for m by (rule read_value_mono)
  with assms show ?thesis by (intro exI [of _ n]) (cases t; simp)
qed

lemma read_element_before:
  assumes "reads_as lf s v"
  shows comma_after_element: "\<exists>n. \<forall>m acc. n \<le> m \<longrightarrow>
      read_elements lf (Suc m) acc (s @ CHR '','' # r) = read_elements lf m (acc @ [v]) r"
    and end_after_element: "blank c \<Longrightarrow> \<exists>n. \<forall>m acc. n \<le> m \<longrightarrow>
      read_elements lf (Suc m) acc (s @ c @ CHR '']'' # r) = Parsed (JArray (acc @ [v])) r"
  using read_element [OF assms, of "CHR '','' # r" ArraySeparator r]
    read_element [OF assms, of "c @ CHR '']'' # r" ArrayEnd r] by (simp_all add: stops_blank del: read_elements.simps)

lemma read_member_before:
  assumes "plain_text nm" "blank b" "blank d" "reads_as lf s v"
  shows comma_after_member: "\<exists>n. \<forall>m name ms. n \<le> m \<longrightarrow>
      read_members lf (Suc m) name ms (b @ quoted nm @ d @ CHR '':'' # s @ CHR '','' # r) = read_members lf m nm (map_set nm v ms) r"
    and end_after_member: "blank c \<Longrightarrow> \<exists>n. \<forall>m name ms. n \<le> m \<longrightarrow>
      read_members lf (Suc m) name ms (b @ quoted nm @ d @ CHR '':'' # s @ c @ CHR ''}'' # r) = Parsed (JObject (map_set nm v ms)) r"
  using read_member [OF assms, of "CHR '','' # r" ArraySeparator r]
    read_member [OF assms, of "c @ CHR ''}'' # r" ObjectEnd r] by (simp_all add: stops_blank del: read_members.simps)

lemma spelled_reads:
  "spells pf v s \<Longrightarrow> plain_json v \<Longrightarrow> reads_as lf s v"
  "spells_items pf vs s \<Longrightarrow> list_all plain_json vs \<Longrightarrow> blank c \<Longrightarrow>
     \<exists>n. read_elements lf n acc (s @ c @ CHR '']'' # r) = Parsed (JArray (acc @ vs)) r"
  "spells_members pf ms s \<Longrightarrow> list_all (\<lambda>(n, v). plain_text n \<and> plain_json v) ms \<Longrightarrow>
     sorted_wrt (<) (map fst (before @ ms)) \<Longrightarrow> blank c \<Longrightarrow>
     \<exists>n. read_members lf n name before (s @ c @ CHR ''}'' # r) = Parsed (JObject (before @ ms)) r"
proof (induction v s and vs s and ms s arbitrary: and acc c r and before c r name rule: spells_spells_items_spells_members.inducts)
  case (Leaf b v)
  then show ?case by (intro reads_as_blanks reads_as_leaf)
next
  case (Empty_array b c)
  have "read_value lf (Suc 0) (CHR ''['' # c @ CHR '']'' # r) = Parsed (JArray []) r" for r
  proof -
    have "skip_spaces (CHR '']'' # r) = CHR '']'' # r" by (simp add: skip_spaces_def is_blank_def)
    with Empty_array show ?thesis by simp
  qed
  then have "reads_as lf (CHR ''['' # c @ '']'') (JArray [])"
    unfolding reads_as_def append_Cons append_assoc append_Nil by blast
  with Empty_array show ?case by (intro reads_as_blanks)
next
  case (Array b vs s c)
  have plain: "list_all plain_json vs" and items: "blank b" "spells_items pf vs s" "blank c" using Array by simp_all
  have "\<exists>n. read_value lf n (CHR ''['' # s @ c @ CHR '']'' # r) = Parsed (JArray vs) r" for r
  proof -
    from Array.IH(2) [OF plain items(3), of "[]" r] obtain n where
      n: "read_elements lf n [] (s @ c @ CHR '']'' # r) = Parsed (JArray vs) r" by auto
    from spelled_start(2) [OF items(2) plain] obtain d u where
      start: "skip_spaces (s @ c @ CHR '']'' # r) = d # u" "d \<noteq> CHR '']''"
      unfolding starts_value_def by blast
    have "read_value lf (Suc n) (CHR ''['' # s @ c @ CHR '']'' # r) = read_elements lf n [] (skip_spaces (s @ c @ CHR '']'' # r))"
      using start by simp
    also have "\<dots> = Parsed (JArray vs) r" by (simp only: read_elements_skipped n)
    finally show ?thesis by (rule exI)
  qed
  then have "reads_as lf (CHR ''['' # s @ c @ '']'') (JArray vs)" unfolding reads_as_def by simp
  with items(1) show ?case by (rule reads_as_blanks)
next
  case (Empty_object b c)
  have "read_value lf (Suc (Suc 0)) (CHR ''{'' # c @ CHR ''}'' # r) = Parsed (JObject []) r" for r
    using Empty_object by simp
  then have "reads_as lf (CHR ''{'' # c @ ''}'') (JObject [])"
    unfolding reads_as_def append_Cons append_assoc append_Nil by blast
  with Empty_object show ?case by (intro reads_as_blanks)
next
  case (Object b ms s c)
  have "\<exists>n. read_value lf n (CHR ''{'' # s @ c @ CHR ''}'' # r) = Parsed (JObject ms) r" for r
  proof -
    from Object.IH(2) [of "[]" c "[]" r] Object obtain n where
      "read_members lf n [] [] (s @ c @ CHR ''}'' # r) = Parsed (JObject ms) r" by (auto simp: map_ok_def)
    then show ?thesis by (intro exI [of _ "Suc n"]) simp
  qed
  then have "reads_as lf (CHR ''{'' # s @ c @ ''}'') (JObject ms)" unfolding reads_as_def by simp
  with Object.hyps(1) show ?case by (rule reads_as_blanks)
next
  case (Item v s)
  then show ?case using end_after_element [of lf s v c r] by (auto simp del: read_elements.simps)
next
  case (Items v s vs t)
  from Items.IH(4) [OF _ Items.prems(2), of "acc @ [v]" r] Items.prems(1) obtain n where
    n: "read_elements lf n (acc @ [v]) (t @ c @ CHR '']'' # r) = Parsed (JArray (acc @ v # vs)) r" by auto
  have "reads_as lf s v" using Items.IH(2) Items.prems(1) by simp
  then obtain k where k: "\<forall>m acc. k \<le> m \<longrightarrow> read_elements lf (Suc m) acc (s @ CHR '','' # t @ c @ CHR '']'' # r) =
      read_elements lf m (acc @ [v]) (t @ c @ CHR '']'' # r)" using comma_after_element by blast
  with read_elements_mono [OF n, of "max k n"] show ?case
    by (intro exI [of _ "Suc (max k n)"]) (simp del: read_elements.simps)
next
  case (Member b d v s n)
  then have "reads_as lf s v" "plain_text n" "blank b" "blank d" by simp_all
  then obtain k where k: "\<forall>m name ms. k \<le> m \<longrightarrow> read_members lf (Suc m) name ms
      (b @ quoted n @ d @ CHR '':'' # s @ c @ CHR ''}'' # r) = Parsed (JObject (map_set n v ms)) r"
    using end_after_member Member.prems(3) by blast
  have "map_set n v before = before @ [(n, v)]" using Member.prems(2) by (intro map_set_last) simp
  with k show ?case by (intro exI [of _ "Suc k"]) (simp del: read_members.simps)
next
  case (Members b d v s ms t n)
  have set: "map_set n v before = before @ [(n, v)]"
    using Members.prems(2) by (intro map_set_last) (simp add: sorted_wrt_append)
  from Members.IH(4) [of "before @ [(n, v)]" c n r] Members.prems obtain k where
    k: "read_members lf k n (before @ [(n, v)]) (t @ c @ CHR ''}'' # r) = Parsed (JObject (before @ (n, v) # ms)) r" by auto
  have "plain_text n" "blank b" "blank d" "reads_as lf s v" using Members by simp_all
  then obtain j where j: "\<forall>m name ms. j \<le> m \<longrightarrow>
      read_members lf (Suc m) name ms (b @ quoted n @ d @ CHR '':'' # s @ CHR '','' # t @ c @ CHR ''}'' # r) =
      read_members lf m n (map_set n v ms) (t @ c @ CHR ''}'' # r)" using comma_after_member by blast
  with read_members_mono [OF k, of "max j k"] show ?case
    by (intro exI [of _ "Suc (max j k)"]) (simp add: set del: read_members.simps)
qed

lemma parse_spelled:
  assumes "spells pf v s" "plain_json v" "stops_number junk"
  shows "json_parse lf (s @ junk) = Some v"
proof -
  let ?doc = "s @ junk"
  from reads_asD [OF spelled_reads(1) [OF assms(1,2)] assms(3)] obtain n where
    n: "read_value lf n ?doc = Parsed v junk" by blast
  let ?m = "max n (2 * length ?doc + 1)"
  have "read_value lf ?m ?doc = Parsed v junk" by (rule read_value_mono [OF n]) simp
  moreover have "read_value lf ?m ?doc = read_value lf (2 * length ?doc + 1) ?doc"
    using fuel_enough [of "2 * length ?doc + 1" lf] by (intro fuel_more) auto
  ultimately have "read_value lf (2 * length ?doc + 1) ?doc = Parsed v junk" by simp
  then show ?thesis unfolding json_parse_def by (simp only: read_result.case)
qed

section \<open>What is written is read\<close>

lemma spells_blanks: "spells pf v s \<Longrightarrow> blank b \<Longrightarrow> spells pf v (b @ s)"
proof (erule spells.cases)
  fix d vs t c assume "blank b" "s = d @ CHR ''['' # t @ c @ '']''" "v = JArray vs" "blank d" "spells_items pf vs t" "blank c"
  then show ?thesis using Array [of "b @ d" pf vs t c] by simp
next
  fix d ms t c assume "blank b" "s = d @ CHR ''{'' # t @ c @ ''}''" "v = JObject ms" "blank d" "spells_members pf ms t" "blank c"
  then show ?thesis using Object [of "b @ d" pf ms t c] by simp
qed (simp_all flip: append_assoc add: spells_spells_items_spells_members.intros)

lemma written_items:
  "vs \<noteq> [] \<Longrightarrow> (\<And>v. v \<in> set vs \<Longrightarrow> spells pf v (write_value pf v)) \<Longrightarrow> blank b \<Longrightarrow>
   spells_items pf vs (b @ sep_by '', '' (map (write_value pf) vs))"
proof (induction vs arbitrary: b)
  case (Cons v vs)
  have v: "spells pf v (b @ write_value pf v)" using Cons.prems(2,3) by (simp add: spells_blanks)
  show ?case
  proof (cases vs)
    case Nil
    with v show ?thesis by (simp add: Item)
  next
    case (Cons w ws)
    with Cons.IH [of "'' ''"] Cons.prems(2) have "spells_items pf vs (CHR '' '' # sep_by '', '' (map (write_value pf) vs))"
      by (simp add: is_blank_def)
    from Items [OF v this] Cons show ?thesis by simp
  qed
qed simp

lemma written_members:
  "ms \<noteq> [] \<Longrightarrow> (\<And>n v. (n, v) \<in> set ms \<Longrightarrow> spells pf v (write_value pf v)) \<Longrightarrow> blank b \<Longrightarrow>
   spells_members pf ms (b @ sep_by '', '' (map (\<lambda>(n, v). quoted n @ '' : '' @ write_value pf v) ms))"
proof (induction ms arbitrary: b)
  case (Cons m ms)
  obtain n v where m: "m = (n, v)" by fastforce
  have v: "spells pf v (CHR '' '' # write_value pf v)"
    using Cons.prems(2) [of n v] spells_blanks [of pf v "write_value pf v" "'' ''"] m by (simp add: is_blank_def)
  show ?case
  proof (cases ms)
    case Nil
    with Member [OF Cons.prems(3) _ v, of "'' ''" n] m show ?thesis by (simp add: is_blank_def)
  next
    case (Cons w ws)
    then have "spells_members pf ms ('' '' @ sep_by '', '' (map (\<lambda>(n, v). quoted n @ '' : '' @ write_value pf v) ms))"
      using Cons.prems(2) by (intro Cons.IH) (auto simp: is_blank_def)
    then have "spells_members pf ms (CHR '' '' # sep_by '', '' (map (\<lambda>(n, v). quoted n @ '' : '' @ write_value pf v) ms))"
      by simp
    from Members [OF Cons.prems(3) _ v this, of "'' ''" n] Cons m show ?thesis by (simp add: is_blank_def)
  qed
qed simp

lemma written_is_spelled: "spells pf v (write_value pf v)"
proof (induction v)
  case (JArray vs)
  show ?case
  proof (cases "vs = []")
    case False
    from Array [OF _ written_items [OF this JArray, where b = "'' ''"], where b = "[]" and c = "'' ''"] show ?thesis by (simp add: is_blank_def)
  qed (use Empty_array [of "[]" "''  ''" pf] in \<open>simp add: is_blank_def\<close>)
next
  case (JObject ms)
  show ?case
  proof (cases "ms = []")
    case False
    have "spells pf v (write_value pf v)" if "(n, v) \<in> set ms" for n v
      using JObject that by (auto simp: snds.simps)
    from Object [OF _ written_members [OF False this, where b = "'' ''"], where b = "[]" and c = "'' ''"] show ?thesis by (simp add: is_blank_def)
  qed (use Empty_object [of "[]" "''  ''" pf] in \<open>simp add: is_blank_def\<close>)
qed (use Leaf [of "[]" _ pf] in \<open>simp_all only: is_leaf.simps blank_Nil append_Nil\<close>)

lemma parse_written:
  assumes "plain_json v"
  shows "json_parse lf (fast_write pf v @ junk) = Some v"
proof -
  have "stops_number (CHR 0x0A # junk)" by (simp add: stops_number_def is_number_char_def is_dec_def)
  from parse_spelled [OF written_is_spelled assms this] show ?thesis by (simp add: fast_write_def)
qed

text \<open>
  A value that is written is read back as it was, whatever follows it in the document, when
  its texts hold no quote, backslash or NUL byte (the writer escapes nothing) and its integers are
  below the bounds at which the reader makes doubles of them.
\<close>

theorem written_json_is_read:
  assumes "plain_json v"
  shows "json_parse lf (fast_write pf v @ junk) = Some v"
  using assms by (rule parse_written)

theorem written_json_is_read_witness:
  "json_parse (\<lambda>_. None) (fast_write (\<lambda>_. []) (JArray [JObject [(''id'', JInt 7), (''login'', JString ''Bob'')], JNull]) @ ''}'') =
     Some (JArray [JObject [(''id'', JInt 7), (''login'', JString ''Bob'')], JNull])"
  by (rule written_json_is_read) (simp add: map_ok_def plain_text_def)

section \<open>The range of numbers\<close>

lemma decode_digits_range:
  "decode_digits th s v = Digits n \<Longrightarrow> 0 \<le> v \<Longrightarrow> v < 10 * th \<Longrightarrow> 0 \<le> n \<and> n < 10 * th"
proof (induction th s v rule: decode_digits.induct)
  case (2 th c s v)
  then have c: "is_dec c" "v < th" by (auto split: if_splits)
  then have "dec_digit c \<le> 9" unfolding is_dec_def dec_digit_def by auto
  with 2 c show ?case by simp
qed simp

text \<open>
  The integers the reader makes fit the 32 bits it computes in: a signed one is between
  -2147483639 and 2147483647, an unsigned one above that and below 4294967290; no step of the
  conversion wraps around.
\<close>

theorem json_integers_in_range:
  "(decode_number lf t = Some (JInt i) \<longrightarrow> - 2147483639 \<le> i \<and> i \<le> 2147483647) \<and>
   (decode_number lf t = Some (JUInt u) \<longrightarrow> 2147483647 < u \<and> u < 4294967290)"
proof -
  have neg: "0 \<le> n \<and> n < 2147483640" if "decode_digits ((max_int + 1) div 10) s 0 = Digits n" for s n
    using decode_digits_range [OF that] by (simp add: max_int_def)
  have pos: "0 \<le> n \<and> n < 4294967290" if "decode_digits (max_uint div 10) s 0 = Digits n" for s n
    using decode_digits_range [OF that] by (simp add: max_uint_def)
  show ?thesis
    using neg pos
    by (auto simp: decode_number_def decode_double_def max_int_def Let_def split: if_splits digits.splits)
       fastforce+
qed

theorem json_integers_in_range_witness:
  "decode_number (\<lambda>_. None) ''4294967289'' = Some (JUInt 4294967289) \<and> (4294967289::int) < 4294967290"
proof -
  have "decode_number (\<lambda>_. None) ''4294967289'' = Some (JUInt 4294967289)" by code_simp
  with json_integers_in_range [of "\<lambda>_. None" "''4294967289''" 0 4294967289] show ?thesis by simp
qed

end
