(* ===== verification/Site.thy ===== *)
theory Site
  imports Pages Json_Correct
begin

text \<open>
  What the handlers of \<open>Handlers\<close> and \<open>Pages\<close> do together, for the order \<open>link_up\<close> registers them
  in: which requests need a user, which change the stored data, and what the files, the downloads
  and the saved users look like.
\<close>

section \<open>Finding the handler of a request\<close>

abbreviation "phases \<equiv> [Beginning, Middle, End, Last]"

lemma linked_handlers:
  "concat (map (link_up h) phases) =
     [mk_handler ''Login'' Beginning (login_handle h), mk_handler ''Users'' Beginning (users_handle h),
      mk_handler ''Xspf'' Beginning (xspf_handle h), mk_handler ''Song'' Beginning (song_handle h),
      mk_handler ''Playlists'' Middle (pl_handle h), mk_handler ''Index'' Middle (index_handle h),
      mk_handler ''Tree'' Middle (tree_handle h), mk_handler ''Info'' Middle (info_handle h),
      mk_handler ''Filesystem'' Last (files_handle h)]"
  by (simp add: link_up_def register_all_phase mk_handler_def)

text \<open>The request gets past the login page.\<close>

definition past_login :: "request \<Rightarrow> bool" where
  "past_login req = ((req_user req \<noteq> None \<or> ends_with (url req) ''.gif'' \<or> u2 req \<noteq> []) \<and> u2 req \<noteq> ''validate'')"

lemma skips:
  "past_login req \<Longrightarrow> login_handle h req s = (Inr Continue, s)"
  "u1 req \<noteq> ''users'' \<Longrightarrow> users_handle h req s = (Inr Continue, s)"
  "u1 req \<noteq> ''xspf'' \<Longrightarrow> xspf_handle h req s = (Inr Continue, s)"
  "u1 req \<noteq> ''song'' \<Longrightarrow> song_handle h req s = (Inr Continue, s)"
  "u1 req \<noteq> ''pl'' \<Longrightarrow> pl_handle h req s = (Inr Continue, s)"
  "u1 req \<noteq> [] \<Longrightarrow> index_handle h req s = (Inr Continue, s)"
  "u1 req \<noteq> ''tree'' \<Longrightarrow> tree_handle h req s = (Inr Continue, s)"
  "u1 req \<noteq> ''info'' \<Longrightarrow> info_handle h req s = (Inr Continue, s)"
  by (auto simp: login_handle_def users_handle_def xspf_handle_def song_handle_def pl_handle_def
      index_handle_def tree_handle_def info_handle_def past_login_def)

lemma try_mk:
  "try_handler (mk_handler n p f) req rep w =
     (case f req (rep, w) of
        (Inr Stop, rep', w') \<Rightarrow> (Inr Stop, set_header ''X-HANDLED-BY'' n rep', w')
      | (Inr Continue, rep', w') \<Rightarrow> (Inr Continue, rep', w')
      | (Inl e, rep', w') \<Rightarrow> if e = Abort then (Inl Abort, rep', w') else (Inr Stop, catch_reply e rep', w'))"
  by (simp add: try_handler_def mk_handler_def split: prod.split sum.split request_status.split)

lemma run_skip:
  "f req (rep, w) = (Inr Continue, (rep, w)) \<Longrightarrow>
   run_handlers (mk_handler n p f # hs) req rep w = run_handlers hs req rep w"
  by (simp add: try_mk)

lemma run_stops:
  "fst (f req (rep, w)) \<noteq> Inr Continue \<Longrightarrow>
   run_handlers (mk_handler n p f # hs) req rep w = try_handler (mk_handler n p f) req rep w"
  by (auto simp: try_mk split: prod.splits sum.splits request_status.splits)

named_theorems stops \<open>steps that never end with \<open>Continue\<close>\<close>

lemma stops_bind [stops]: "(\<And>x t. fst (k x t) \<noteq> Inr Continue) \<Longrightarrow> fst (bindE m k s) \<noteq> Inr Continue"
  by (auto simp: bindE_def split: prod.splits sum.splits)

lemma stops_if [stops]:
  "(P \<Longrightarrow> fst (a s) \<noteq> Inr Continue) \<Longrightarrow> (\<not> P \<Longrightarrow> fst (b s) \<noteq> Inr Continue) \<Longrightarrow>
   fst ((if P then a else b) s) \<noteq> Inr Continue"
  by simp

lemma stops_option [stops]:
  "fst (a s) \<noteq> Inr Continue \<Longrightarrow> (\<And>x. fst (b x s) \<noteq> Inr Continue) \<Longrightarrow>
   fst ((case v of None \<Rightarrow> a | Some x \<Rightarrow> b x) s) \<noteq> Inr Continue"
  by (cases v) simp_all

lemma stops_leaf [stops]: "fst (ret Stop s) \<noteq> Inr Continue" "fst (throw e s) \<noteq> Inr Continue"
  by simp_all

lemma act_simps [simp]:
  "db m (rep, w) = (case m w of (r, w') \<Rightarrow> (r, (rep, w')))"
  "out f (rep, w) = (Inr (), (f rep, w))"
  "check r s = (r, s)"
  by (simp_all add: db_def out_def check_def)

lemma run_site: "run_phases phases (link_up h) req rep w = run_handlers (concat (map (link_up h) phases)) req rep w"
  by (rule run_phases_flat)

lemma run_users:
  "past_login req \<Longrightarrow> u1 req = ''users'' \<Longrightarrow>
   run_phases phases (link_up h) req rep w = try_handler (mk_handler ''Users'' Beginning (users_handle h)) req rep w"
  unfolding run_site linked_handlers
  by (simp add: run_skip skips del: run_handlers.simps)
    (rule run_stops, unfold users_handle_def, intro stops, simp_all)

lemma run_xspf:
  "past_login req \<Longrightarrow> u1 req = ''xspf'' \<Longrightarrow>
   run_phases phases (link_up h) req rep w = try_handler (mk_handler ''Xspf'' Beginning (xspf_handle h)) req rep w"
  unfolding run_site linked_handlers
  by (simp add: run_skip skips del: run_handlers.simps)
    (rule run_stops, unfold xspf_handle_def, intro stops, simp_all)

lemma run_song:
  "past_login req \<Longrightarrow> u1 req = ''song'' \<Longrightarrow>
   run_phases phases (link_up h) req rep w = try_handler (mk_handler ''Song'' Beginning (song_handle h)) req rep w"
  unfolding run_site linked_handlers
  by (simp add: run_skip skips del: run_handlers.simps)
    (rule run_stops, unfold song_handle_def, intro stops, simp_all)

lemma run_pl:
  "past_login req \<Longrightarrow> u1 req = ''pl'' \<Longrightarrow>
   run_phases phases (link_up h) req rep w = try_handler (mk_handler ''Playlists'' Middle (pl_handle h)) req rep w"
  unfolding run_site linked_handlers
  by (simp add: run_skip skips del: run_handlers.simps)
    (rule run_stops, unfold pl_handle_def, intro stops, simp_all)

lemma run_files:
  "past_login req \<Longrightarrow> u1 req \<notin> {[], ''users'', ''xspf'', ''song'', ''pl'', ''tree'', ''info''} \<Longrightarrow>
   run_phases phases (link_up h) req rep w = try_handler (mk_handler ''Filesystem'' Last (files_handle h)) req rep w"
  unfolding run_site linked_handlers
  by (simp add: run_skip skips del: run_handlers.simps)
    (rule run_stops, unfold files_handle_def Let_def, intro stops)

declare run_phases.simps [simp del]

section \<open>Who may do what\<close>


lemma other_user_simps [simp]:
  "u1 (req\<lparr>req_user := x\<rparr>) = u1 req" "varibles (req\<lparr>req_user := x\<rparr>) = varibles req"
  by simp_all

lemma pl_handle_ignores_user: "pl_handle h (req\<lparr>req_user := x\<rparr>) = pl_handle h req"
proof -
  have vals: "svalue (req\<lparr>req_user := x\<rparr>) = svalue req" "single_id (req\<lparr>req_user := x\<rparr>) = single_id req"
    "for_digit_names (req\<lparr>req_user := x\<rparr>) = for_digit_names req"
    by (simp_all add: fun_eq_iff svalue_def single_id_def single_value_with_def for_digit_names_def)
  then show ?thesis
    by (simp add: pl_handle_def pl_songs_handle_def pl_list_songs_def pl_update_handle_def
        cong: if_cong option.case_cong)
qed


text \<open>
  C30: asking for the player's list of a playlist that has a song, without a user, ends the
  process: the handler reads the ticket of a user that is not there.
\<close>

theorem stranger_ends_the_process:
  assumes "u1 req = ''xspf''" "u2 req = show_int i" "- (2 ^ 63) \<le> i" "i < 2 ^ 63" "req_user req = None"
    and "pl_load i w = (Inr p, w)" "ptr_songs p 0 0 w = (Inr (s # ss), w')"
    and "path_join (host_site h) (tmpl_root (host_site h)) ''xspf.html'' \<noteq> []"
  shows "fst (serve h req w) = Inl Abort"
proof -
  have "show_int i \<noteq> []" by (simp add: show_int_def show_nat_nonempty)
  moreover have "show_int i \<noteq> ''validate''"
    using lexical_cast_id_show [OF assms(3,4)]
    by (auto simp: lexical_cast_id_def lexical_cast_signed_def scan_integer_def Let_def is_dec_def)
  ultimately have "past_login req" using assms(2) by (simp add: past_login_def)
  moreover have "fst (xspf_handle h req (new_reply, w)) = Inl Abort"
    using assms lexical_cast_id_show [OF assms(3,4)]
    by (simp add: xspf_handle_def cast_or_throw_def hdf_def set_hdf_value_def set_template_def new_reply_def
        set_basic_headers_def set_header_def put_text_def write_content_def bindE_def xspf_song_def deref_def Let_def)
  ultimately have "fst (run_phases phases (link_up h) req new_reply w) = Inl Abort"
    using assms(1) by (auto simp: run_xspf try_mk split: prod.splits)
  then show ?thesis by (auto simp: serve_def handle_request_def split: prod.splits)
qed

section \<open>Files\<close>

lemma contains_dots_split:
  "contains ''..'' (a @ CHR ''/'' # b) \<longleftrightarrow> contains ''..'' a \<or> contains ''..'' b"
proof (induction a)
  case Nil
  then show ?case by simp
next
  case (Cons x a)
  then show ?case by (cases a) auto
qed

lemma contains_append: "contains p s \<Longrightarrow> contains p (u @ s @ v)"
  unfolding contains_iff by (metis append.assoc)

lemma split_slash_contains: "x \<in> set (split_slash s) \<Longrightarrow> contains x s"
proof (induction s rule: split_slash.induct)
  case (1 s)
  let ?tok = "takeWhile (\<lambda>c. c \<noteq> CHR ''/'') s" and ?rest = "dropWhile (\<lambda>c. c \<noteq> CHR ''/'') s"
  let ?more = "dropWhile (\<lambda>c. c = CHR ''/'') ?rest"
  have parts: "s = ?tok @ takeWhile (\<lambda>c. c = CHR ''/'') ?rest @ ?more" by simp
  consider "x = ?tok" | "?rest \<noteq> []" "x \<in> set (split_slash ?more)"
    using "1.prems" by (subst (asm) split_slash.simps) (auto simp: Let_def split: if_splits)
  then show ?case
  proof cases
    case 1
    then show ?thesis unfolding contains_iff by (metis append_Nil takeWhile_dropWhile_id)
  next
    case 2
    with "1.IH" have "contains x ?more" by simp
    from contains_append [OF this, of "?tok @ takeWhile (\<lambda>c. c = CHR ''/'') ?rest" "[]"] parts
    show ?thesis by simp
  qed
qed

lemma legal_path_segments:
  assumes "\<not> illegal_path u"
  shows "''..'' \<notin> set (split_slash (request_path u))"
proof
  assume "''..'' \<in> set (split_slash (request_path u))"
  then have dots: "contains ''..'' (request_path u)" by (rule split_slash_contains)
  have u: "u \<noteq> []" "\<not> contains ''..'' u" using assms by (simp_all add: illegal_path_def)
  show False
  proof (cases "last u = CHR ''/''")
    case True
    with u have "u = butlast u @ [CHR ''/'']" by (metis append_butlast_last_id)
    then have "request_path u = butlast u @ CHR ''/'' # ''index.html''"
      using True by (metis append.assoc append_Cons append_Nil request_path_def)
    moreover have "\<not> contains ''..'' (butlast u)"
      using u contains_append [of "''..''" "butlast u" "[]" "[last u]"] by auto
    moreover have "\<not> contains ''..'' ''index.html''" by simp
    ultimately show False using dots contains_dots_split by metis
  next
    case False
    with dots u show False by (simp add: request_path_def)
  qed
qed


section \<open>Downloads\<close>

lemma reply_status_texts [simp]:
  "reply_status (write_content t rep) = reply_status rep" "reply_status (clear_contents rep) = reply_status rep"
  by (simp_all add: write_content_def clear_contents_def)

lemma catch_reply_not_ok: "reply_status (catch_reply e rep) \<noteq> Some Ok"
  by (cases e) (simp_all add: write_content_def clear_contents_def)

text \<open>
  C13: a song is only sent to someone who knows the ticket of a user that was seen within the last
  24 hours. The bytes sent are those of the file the song's directory and name give, with the
  right length.
\<close>

theorem download_needs_fresh_ticket:
  assumes "u1 req = ''song''" "u2 req = ''dl''"
    and call: "run_phases phases (link_up h) req new_reply w = (r, rep, w')"
    and ok: "reply_status rep = Some Ok"
  shows "\<exists>u i s p. u \<in> set (users w) \<and> ticket u = store_text w (u3 req) \<and>
      clock w \<le> last_visit u + 24 * 60 * 60 \<and>
      lexical_cast_id (u4 req) = Some i \<and> row_lookup (songs w) i = Some s \<and>
      fst (song_path s w) = Inr p \<and> fs_bytes (host_disk h) p = Some (content rep) \<and> framed rep"
proof -
  have "past_login req" using assms(2) by (simp add: past_login_def)
  then have c: "try_handler (mk_handler ''Song'' Beginning (song_handle h)) req new_reply w = (r, rep, w')"
    using call assms(1) by (simp add: run_song)
  have ready: "\<not> stale_cmd w" and given: "u3 req \<noteq> []" "u4 req \<noteq> []"
    using c ok assms(1) catch_reply_not_ok
    by (auto simp: try_mk song_handle_def bindE_def with_ticket_def load_row_def sql_load_def split: if_splits)
  obtain u where u: "row_find (\<lambda>u. ticket u = store_text w (u3 req)) (users w) = Some u"
    using c ok assms(1) given ready catch_reply_not_ok
    by (cases "row_find (\<lambda>u. ticket u = store_text w (u3 req)) (users w)")
      (auto simp: try_mk song_handle_def bindE_def with_ticket_def load_row_def load_one_def)
  then have wt: "with_ticket (u3 req) w = (Inr u, w)"
    using ready by (simp add: with_ticket_def load_row_def load_one_def)
  have fresh: "\<not> last_visit u < clock w - one_day"
    using c ok assms(1) given wt catch_reply_not_ok by (auto simp: try_mk song_handle_def bindE_def)
  obtain i where i: "lexical_cast_id (u4 req) = Some i"
    using c ok assms(1) given wt fresh catch_reply_not_ok
    by (cases "lexical_cast_id (u4 req)") (auto simp: try_mk song_handle_def bindE_def cast_or_throw_def)
  obtain s where s: "row_lookup (songs w) i = Some s"
    using c ok assms(1) given wt fresh i ready catch_reply_not_ok
    by (cases "row_lookup (songs w) i")
      (auto simp: try_mk song_handle_def bindE_def cast_or_throw_def song_load_def load_row_def load_one_def row_lookup_def)
  then have sl: "song_load i w = (Inr s, w)"
    using ready by (simp add: song_load_def load_row_def load_one_def row_lookup_def)
  obtain pr w1 where p: "song_path s w = (pr, w1)" by fastforce
  from c ok given wt fresh i sl p assms(1,2) obtain path where path: "pr = Inr path"
    using catch_reply_not_ok
    by (cases pr) (auto simp: try_mk song_handle_def bindE_def cast_or_throw_def new_reply_def set_header_def split: if_splits)
  from c ok given wt fresh i sl p path assms(1,2) obtain bytes where bytes: "fs_bytes (host_disk h) path = Some bytes"
    using catch_reply_not_ok
    by (cases "fs_bytes (host_disk h) path") (auto simp: try_mk song_handle_def bindE_def cast_or_throw_def)
  from c given wt fresh i sl p path bytes assms(1,2) have "content rep = bytes" "framed rep"
    by (auto simp: try_mk song_handle_def bindE_def cast_or_throw_def put_text_def framed_def set_basic_headers_def
        set_header_def write_content_def new_reply_def)
  then show ?thesis
    using u fresh i s p path bytes row_find_SomeD [OF u]
    by (intro exI [of _ u] exI [of _ i] exI [of _ s] exI [of _ path]) (auto simp: one_day_def)
qed

section \<open>Saving users\<close>

type_synonym user_post = "int \<times> string \<times> string \<times> Role"

text \<open>One user as the page of the administrator posts it, and the change to the rows it asks for.\<close>

definition user_json :: "user_post \<Rightarrow> json" where
  "user_json = (\<lambda>(i, l, p, r). JObject [(''id'', JInt i), (''login'', JString l), (''password'', JString p),
     (''role'', JString (show_int (role_int r)))])"

definition post_user :: "world \<Rightarrow> user_post \<Rightarrow> user_obj list \<Rightarrow> user_obj list" where
  "post_user w = (\<lambda>(i, l, p, r) t.
     if i = 0 then row_insert (norm_user w (set_role (role_int r) (user_create w l p))) t
     else (case row_lookup t i of
             None \<Rightarrow> t
           | Some u \<Rightarrow> row_put i (norm_user w (u\<lparr>login := l,
               password := if p = ''********'' then password u else p, role := role_int r\<rparr>)) t))"

definition post_ok :: "user_obj list \<Rightarrow> user_post \<Rightarrow> bool" where
  "post_ok t = (\<lambda>(i, l, p, r). plain_text l \<and> plain_text p \<and> 0 \<le> i \<and> i \<le> 2147483647 \<and>
     (i \<noteq> 0 \<longrightarrow> row_lookup t i \<noteq> None))"

lemma show_nat_dec: "\<not> is_dec c \<Longrightarrow> c \<notin> set (show_nat n)"
  using show_nat_digits [of n] by (auto simp: list_all_iff)

lemma role_text: "plain_text (show_int (role_int r)) \<and> lexical_cast_int (show_int (role_int r)) = Some (role_int r)"
proof
  have "- (2 ^ 31) \<le> role_int r" "role_int r < 2 ^ 31" by (cases r; simp)+
  then show "lexical_cast_int (show_int (role_int r)) = Some (role_int r)"
    by (simp add: lexical_cast_int_def lexical_cast_signed_show)
  show "plain_text (show_int (role_int r))"
    by (simp add: plain_text_def show_int_def show_nat_dec is_dec_def)
qed

lemma user_json_fields:
  assumes "post_ok t (i, l, p, r)"
  shows "plain_json (user_json (i, l, p, r))" "json_uint (user_json (i, l, p, r)) ''id'' = Inr i"
    "json_text (user_json (i, l, p, r)) ''login'' = Inr l" "json_text (user_json (i, l, p, r)) ''password'' = Inr p"
    "json_text (user_json (i, l, p, r)) ''role'' = Inr (show_int (role_int r))"
proof -
  have names: "plain_text ''id''" "plain_text ''login''" "plain_text ''password''" "plain_text ''role''"
    by (simp_all add: plain_text_def)
  have texts: "plain_text l" "plain_text p" "plain_text (show_int (role_int r))" "0 \<le> i" "i \<le> 2147483647"
    using assms role_text by (auto simp: post_ok_def)
  then show "plain_json (user_json (i, l, p, r))"
    using names by (simp add: user_json_def map_ok_def)
  show "json_uint (user_json (i, l, p, r)) ''id'' = Inr i"
    "json_text (user_json (i, l, p, r)) ''login'' = Inr l" "json_text (user_json (i, l, p, r)) ''password'' = Inr p"
    "json_text (user_json (i, l, p, r)) ''role'' = Inr (show_int (role_int r))"
    using names texts by (simp_all add: json_uint_def json_text_def user_json_def map_find_def)
qed

lemma save_posted:
  assumes "\<not> stale_cmd w" "post_ok (users w) x"
  shows "save_json_user (user_json x) (rep, w) = (Inr (), (rep, w\<lparr>users := post_user w x (users w)\<rparr>))"
proof -
  obtain i l p r where x: "x = (i, l, p, r)" by (cases x)
  note f = user_json_fields [OF assms(2) [unfolded x]]
  show ?thesis
  proof (cases "i = 0")
    case True
    then show ?thesis
      using assms(1) f role_text
      by (simp add: x save_json_user_def cast_or_throw_def post_user_def user_save_def save_row_def save_obj_def
          set_role_def user_create_def)
  next
    case False
    with assms(2) x obtain u where u: "row_lookup (users w) i = Some u" by (auto simp: post_ok_def)
    then have "db_id u = i" using row_lookup_SomeD by blast
    with u False show ?thesis
      using assms(1) f role_text
      by (simp add: x save_json_user_def cast_or_throw_def post_user_def user_load_def load_row_def load_one_def
          row_lookup_def user_save_def save_row_def save_obj_def set_role_def set_password_def Let_def)
  qed
qed

lemma post_user_keeps:
  assumes "rows_ok t"
  shows "rows_ok (post_user w x t)" "row_lookup t i \<noteq> None \<Longrightarrow> row_lookup (post_user w x t) i \<noteq> None"
  using assms
  by (auto simp: post_user_def rows.valid_add rows.valid_put rows.lookup_add rows.lookup_put split: prod.split option.split)

lemma post_user_env [simp]: "post_user (w\<lparr>users := t\<rparr>) = post_user w"
  by (simp add: post_user_def norm_user_def user_create_def fun_eq_iff split: option.split)

lemma save_all_posted:
  assumes "\<not> stale_cmd w" "rows_ok (users w)" "\<forall>x \<in> set xs. post_ok (users w) x"
  shows "forE (map user_json xs @ rest) save_json_user (rep, w) =
    forE rest save_json_user (rep, w\<lparr>users := fold (post_user w) xs (users w)\<rparr>)"
  using assms
proof (induction xs arbitrary: w)
  case (Cons x xs)
  let ?w = "w\<lparr>users := post_user w x (users w)\<rparr>"
  have "\<forall>y \<in> set xs. post_ok (users ?w) y"
    using Cons.prems post_user_keeps(2) by (auto simp: post_ok_def)
  with Cons.IH [of ?w] Cons.prems post_user_keeps(1) show ?case by (simp add: save_posted)
qed simp

lemma users_save_posted:
  assumes "svalue req ''data'' = fast_write pf (JArray (map user_json xs @ rest))"
    and "\<forall>x \<in> set xs. post_ok (users w) x" "list_all plain_json rest" "\<not> stale_cmd w" "rows_ok (users w)"
  shows "users_save_handle h req (rep, w) =
    forE rest save_json_user (rep, w\<lparr>users := fold (post_user w) xs (users w)\<rparr>)"
proof -
  have "plain_json (user_json x)" if "x \<in> set xs" for x
  proof -
    obtain i l p r where x: "x = (i, l, p, r)" by (cases x)
    show ?thesis unfolding x by (rule user_json_fields(1)) (use that assms(2) x in blast)
  qed
  then have "plain_json (JArray (map user_json xs @ rest))"
    using assms(3) by (auto simp: list_all_iff)
  from parse_written [OF this, of "host_lf h" pf "[]"]
  have "json_parse (host_lf h) (svalue req ''data'') = Some (JArray (map user_json xs @ rest))"
    by (simp add: assms(1))
  moreover have "svalue req ''data'' \<noteq> []" by (simp add: assms(1) fast_write_def)
  ultimately show ?thesis
    by (simp add: users_save_handle_def Let_def save_all_posted [OF assms(4,5,2)])
qed

lemma users_admin:
  assumes "u1 req = ''users''" "u2 req = ''save''" "req_user req = Some u" "is_admin u"
  shows "run_phases phases (link_up h) req rep w =
    (case users_save_handle h req (set_basic_headers ''json'' rep, w) of
       (Inr _, rep', w') \<Rightarrow> (Inr Stop, set_header ''X-HANDLED-BY'' ''Users'' rep', w')
     | (Inl e, rep', w') \<Rightarrow> if e = Abort then (Inl Abort, rep', w') else (Inr Stop, catch_reply e rep', w'))"
proof -
  have "past_login req" using assms by (simp add: past_login_def)
  with assms show ?thesis
    by (auto simp: run_users try_mk users_handle_def requireAuth_def deref_def is_admin_def bindE_def
        split: prod.split sum.split)
qed


text \<open>
  Saving users is not atomic: when the page posts a user that is not stored, the ones before
  it are saved all the same, those after it are not, and the answer is the 404 page.
\<close>

theorem failed_save_keeps_the_first:
  assumes "u1 req = ''users''" "u2 req = ''save''" "req_user req = Some u" "is_admin u"
    and "svalue req ''data'' = fast_write pf (JArray (map user_json (xs @ (i, l, p, r) # ys)))"
    and "\<forall>x \<in> set xs. post_ok (users w) x" "\<not> stale_cmd w" "rows_ok (users w)"
    and bad: "0 < i" "i \<le> 2147483647" "row_lookup (fold (post_user w) xs (users w)) i = None"
      "plain_text l" "plain_text p" "\<forall>(j, l, p, r) \<in> set ys. plain_text l \<and> plain_text p \<and> 0 \<le> j \<and> j \<le> 2147483647"
  shows "\<exists>rep'. run_phases phases (link_up h) req rep w =
      (Inr Stop, rep', w\<lparr>users := fold (post_user w) xs (users w)\<rparr>) \<and> reply_status rep' = Some NotFound"
proof -
  let ?t = "fold (post_user w) xs (users w)"
  have fields: "post_ok [\<lparr>db_id = i, login = [], password = [], ticket = [], last_visit = 0, role = 0\<rparr>] (i, l, p, r)"
    using bad by (simp add: post_ok_def row_lookup_def row_find_def)
  note f = user_json_fields [OF this]
  have "plain_json (user_json y)" if "y \<in> set ys" for y
  proof -
    obtain j l' p' r' where y: "y = (j, l', p', r')" by (cases y)
    have "post_ok [\<lparr>db_id = j, login = [], password = [], ticket = [], last_visit = 0, role = 0\<rparr>] y"
      using bad(6) that y by (auto simp: post_ok_def row_lookup_def row_find_def)
    then show ?thesis unfolding y by (rule user_json_fields(1))
  qed
  then have rest: "list_all plain_json (map user_json ((i, l, p, r) # ys))"
    using f(1) by (auto simp: list_all_iff)
  have data: "svalue req ''data'' = fast_write pf (JArray (map user_json xs @ map user_json ((i, l, p, r) # ys)))"
    using assms(5) by simp
  have "save_json_user (user_json (i, l, p, r)) (rep1, w\<lparr>users := ?t\<rparr>) =
      (Inl (Sqlite_not_found '' failed''), (rep1, w\<lparr>users := ?t\<rparr>))" for rep1
    using f(2-5) bad(1,3) assms(7)
    by (simp add: save_json_user_def user_load_def load_row_def load_one_def row_lookup_def)
  with users_save_posted [OF data assms(6) rest assms(7,8), of h "set_basic_headers ''json'' rep"]
  have "users_save_handle h req (set_basic_headers ''json'' rep, w) =
      (Inl (Sqlite_not_found '' failed''), (set_basic_headers ''json'' rep, w\<lparr>users := ?t\<rparr>))"
    by simp
  with assms(1-4) show ?thesis by (simp add: users_admin set_to_def)
qed

section \<open>The properties on an installation\<close>

definition sample_host :: host where
  "sample_host = \<lparr>host_site = sample_site,
     host_disk = \<lparr>fs_exists = (\<lambda>_. True), fs_entries = (\<lambda>_. None), fs_is_dir = (\<lambda>_. False), fs_tag = (\<lambda>_. None),
       fs_bytes = (\<lambda>p. if p = [''/m'', ''a.mp3''] then Some ''ID3'' else None)\<rparr>,
     host_lf = (\<lambda>_. None)\<rparr>"

definition guest :: user_obj where
  "guest = sample_user\<lparr>db_id := 2, login := ''Guest'', role := 0, ticket := ''visitor''\<rparr>"

definition site_world :: world where
  "site_world = (playlist_world two_entries)\<lparr>users := [sample_user, guest],
     music_dirs := [\<lparr>db_id = 1, parent_id = 0, dir_name = ''/m''\<rparr>],
     files := (\<lambda>p. if p = ''/srv//docs/a/index.html'' then Some ''<p>'' else None)\<rparr>"

definition site_request :: "string \<Rightarrow> string \<Rightarrow> user_obj option \<Rightarrow> request" where
  "site_request a b u = new_request\<lparr>u1 := a, u2 := b, req_user := u\<rparr>"

lemma site_facts:
  "\<not> stale_cmd site_world" "rows_ok (users site_world)" "users site_world = [sample_user, guest]"
  "\<not> is_admin guest" "is_admin sample_user" "clock site_world = 0"
  "store_text site_world = integer_affinity" "dice site_world = (\<lambda>_. 97)"
  by (simp_all add: site_world_def playlist_world_def empty_world_def rows_ok_def sample_user_def guest_def
      is_admin_def has_at_least_def)

lemma site_request_simps [simp]:
  "u1 (site_request a b u) = a" "u2 (site_request a b u) = b" "req_user (site_request a b u) = u"
  "u3 (site_request a b u) = []" "varibles (site_request a b u) = []"
  by (simp_all add: site_request_def new_request_def)


definition rename_request :: "user_obj option \<Rightarrow> request" where
  "rename_request u = (site_request ''pl'' ''update'' u)\<lparr>u3 := ''name'', varibles := [(''pl_id'', [''5'']), (''text'', [''Mine''])]\<rparr>"

lemma rename_effect:
  "map pl_name (playlists (snd (snd (run_phases phases (link_up sample_host) (rename_request (Some sample_user)) new_reply
     site_world)))) = [''Mine'']"
  by code_simp


theorem stranger_ends_the_process_witness:
  "fst (serve sample_host (site_request ''xspf'' ''5'' None) site_world) = Inl Abort"
proof -
  have "show_int 5 = ''5''" by code_simp
  moreover have "pl_load 5 site_world = (Inr (StoredPL sample_playlist), site_world)"
    by (simp add: pl_load_def load_row_def load_one_def row_find_def site_world_def playlist_world_def empty_world_def
        playlist_world_facts(8) bindE_def)
  moreover have "fst (ptr_songs (StoredPL sample_playlist) 0 0 site_world) = Inr (sample_song 2 # [sample_song 1])"
    by code_simp
  then obtain w' where "ptr_songs (StoredPL sample_playlist) 0 0 site_world = (Inr (sample_song 2 # [sample_song 1]), w')"
    by (metis prod.collapse)
  ultimately show ?thesis
    using stranger_ends_the_process [of "site_request ''xspf'' ''5'' None" 5 site_world "StoredPL sample_playlist"
        "sample_song 2" "[sample_song 1]" w' sample_host]
    by (simp add: sample_host_def sample_site_def)
qed


definition download_request :: request where
  "download_request = (site_request ''song'' ''dl'' None)\<lparr>u3 := ''visitor'', u4 := ''1''\<rparr>"

lemma download_answer:
  "reply_status (fst (snd (run_phases phases (link_up sample_host) download_request new_reply site_world))) = Some Ok"
  by code_simp

theorem download_needs_fresh_ticket_witness:
  "\<exists>u p. u \<in> set (users site_world) \<and> ticket u = ''visitor'' \<and> fs_bytes (host_disk sample_host) p =
     Some (content (fst (snd (run_phases phases (link_up sample_host) download_request new_reply site_world))))"
proof -
  obtain r rep w' where call: "run_phases phases (link_up sample_host) download_request new_reply site_world = (r, rep, w')"
    by (cases "run_phases phases (link_up sample_host) download_request new_reply site_world")
  have "integer_affinity ''visitor'' = ''visitor''" by (simp add: integer_affinity_words is_dec_def)
  with download_needs_fresh_ticket [OF _ _ call] download_answer call show ?thesis
    by (fastforce simp: download_request_def site_facts)
qed

definition two_posts :: "user_post list" where
  "two_posts = [(0, ''Bob'', ''pw'', ModifyRole), (2, ''Guest'', ''********'', ReadOnlyRole)]"

definition save_request :: "user_post list \<Rightarrow> request" where
  "save_request xs = (site_request ''users'' ''save'' (Some sample_user))
     \<lparr>varibles := [(''data'', [fast_write (\<lambda>_. []) (JArray (map user_json xs))])]\<rparr>"

lemma save_request_data: "svalue (save_request xs) ''data'' = fast_write (\<lambda>_. []) (JArray (map user_json xs))"
  by (simp add: svalue_def save_request_def map_find_def)

lemma two_posts_ok: "\<forall>x \<in> set two_posts. post_ok (users site_world) x"
  by (simp add: two_posts_def post_ok_def plain_text_def site_facts row_lookup_def row_find_def guest_def sample_user_def)

lemma two_posts_effect: "map login (fold (post_user site_world) two_posts (users site_world)) = [''Admin'', ''Guest'', ''Bob'']"
  by (simp add: two_posts_def post_user_def norm_user_def user_create_def set_role_def site_facts row_lookup_def row_find_def
     row_insert_def row_put_def row_update_def guest_def sample_user_def next_rowid_def integer_affinity_words is_dec_def)


theorem failed_save_keeps_the_first_witness:
  "\<exists>rep' w'. run_phases phases (link_up sample_host) (save_request (two_posts @ [(9, ''Eve'', ''x'', AdminRole)])) new_reply
     site_world = (Inr Stop, rep', w') \<and> map login (users w') = [''Admin'', ''Guest'', ''Bob''] \<and>
     reply_status rep' = Some NotFound"
proof -
  have "row_lookup (fold (post_user site_world) two_posts (users site_world)) 9 = None"
    by code_simp
  moreover have "\<forall>x \<in> set two_posts. post_ok (users site_world) x" by (rule two_posts_ok)
  ultimately obtain rep' where "run_phases phases (link_up sample_host) (save_request (two_posts @ [(9, ''Eve'', ''x'', AdminRole)]))
      new_reply site_world = (Inr Stop, rep', site_world\<lparr>users := fold (post_user site_world) two_posts (users site_world)\<rparr>) \<and>
      reply_status rep' = Some NotFound"
    using failed_save_keeps_the_first [of "save_request (two_posts @ [(9, ''Eve'', ''x'', AdminRole)])" sample_user
        "\<lambda>_. []" two_posts 9 "''Eve''" "''x''" AdminRole "[]" site_world sample_host new_reply]
      save_request_data [of "two_posts @ [(9, ''Eve'', ''x'', AdminRole)]"] site_facts(1,2,5)
    by (auto simp: save_request_def plain_text_def)
  then show ?thesis using two_posts_effect by auto
qed

end
