(* ===== verification/Session.thy ===== *)
theory Session
  imports Connections Site
begin

text \<open>
  The program seen from a client: a connection is accepted, the bytes of a request arrive in
  buffers, the handlers of the application answer, and the client reads the bytes of the reply.
  The lemmas put the parser, the connections, the dispatcher, the handlers and the replies
  together.
\<close>

section \<open>Buffers as steps of the server\<close>

definition buffers_ok :: "string list \<Rightarrow> bool" where
  "buffers_ok bs = list_all (\<lambda>b. b \<noteq> [] \<and> length b \<le> 8192) bs"

lemma read_step:
  assumes "\<not> crashed s" "conns s i = Some c" "c_pending c = Reading" "c_open c" "b \<noteq> []" "length b \<le> 8192"
  shows "server_step st reg s (read_bytes st reg i c b s)"
proof -
  have "may_complete c (Success b)" using assms by (simp add: may_complete_def)
  with assms(1-3) have "server_step st reg s (conn_handle_read st reg i c (Success b) s)"
    by (rule server_step.Read)
  then show ?thesis by (simp add: conn_handle_read_def)
qed

lemma feed_reachable:
  assumes "reachable st reg w s" "conns s i = Some c" "c_open c" "buffers_ok bs"
  shows "reachable st reg w (feed st reg i bs s)"
  using assms
proof (induction bs arbitrary: s c)
  case (Cons b bs)
  let ?s1 = "read_bytes st reg i c b s"
  show ?case
  proof (cases "c_pending c = Reading \<and> \<not> crashed s")
    case True
    with Cons.prems have "reachable st reg w ?s1"
      by (intro reachable.Step [OF Cons.prems(1)] read_step) (auto simp: buffers_ok_def)
    moreover have "\<exists>c'. conns ?s1 i = Some c' \<and> c_open c'"
      using Cons.prems(3)
      by (auto simp: read_bytes_def start_write_def Let_def split: prod.splits sum.splits tribool.splits)
    ultimately show ?thesis using Cons.IH Cons.prems True by (auto simp: buffers_ok_def)
  next
    case False
    with Cons.prems show ?thesis by auto
  qed
qed simp

section \<open>One request over a fresh connection\<close>

text \<open>A client connects and sends these buffers; nobody else sends anything meanwhile.\<close>

definition browse :: "host \<Rightarrow> string list \<Rightarrow> server \<Rightarrow> server" where
  "browse h bs s = feed (host_site h) (link_up h) (waiting s) bs (server_handle_accept False s)"

text \<open>What the client of a connection reads in the reply it was sent.\<close>

definition received :: "nat \<Rightarrow> server \<Rightarrow> (string \<times> (string \<times> string) list \<times> string) option" where
  "received i s = (case map_of (sent s) i of None \<Rightarrow> None | Some bytes \<Rightarrow> read_reply bytes)"

text \<open>The characters a browser leaves unencoded in a URI, and the request it writes.\<close>

definition uri_safe :: "(char \<Rightarrow> bool) \<Rightarrow> bool" where
  "uri_safe safe = (form_safe safe \<and> (\<forall>c. safe c \<longrightarrow> \<not> is_ctl c \<and> c \<noteq> CHR '' ''))"

definition get_request :: "string \<Rightarrow> (string \<times> string) list \<Rightarrow> string" where
  "get_request u hs = render_request ''GET'' u ''1'' ''0'' hs []"

definition cookieless :: "(string \<times> string) list \<Rightarrow> bool" where
  "cookieless hs = ((\<forall>h \<in> set hs. header_ok h) \<and> map_find (stored_headers hs) ''COOKIE'' = None)"

lemma hex_out_visible: "is_hex_out c \<Longrightarrow> \<not> is_ctl c \<and> c \<noteq> CHR '' ''"
  by (auto simp: is_hex_out_def hex_digit_def is_ctl_def char_int_def Let_def split: if_splits)

lemma syntax_visible [char_class]:
  "\<not> is_ctl CHR ''/''" "\<not> is_ctl CHR ''?''" "\<not> is_ctl CHR ''=''" "\<not> is_ctl CHR ''&''" "\<not> is_ctl CHR ''%''"
  by (simp_all add: is_ctl_def char_int_def)

lemma url_encode_visible: "uri_safe safe \<Longrightarrow> visible (url_encode safe lower s)"
  by (auto simp: list_all_iff uri_safe_def char_class dest!: set_url_encode dest: hex_out_visible)

lemma join_slash_visible: "\<forall>x \<in> set xs. visible x \<Longrightarrow> visible (join_slash xs)"
  by (induction xs rule: join_slash.induct) (auto simp: char_class)

lemma query_text_visible: "uri_safe safe \<Longrightarrow> visible (query_text safe lower ps)"
  by (induction safe lower ps rule: query_text.induct) (auto simp: url_encode_visible char_class)

lemma encoded_uri_visible:
  assumes "uri_safe safe"
  shows "visible (encoded_uri safe lower es ps)"
proof -
  have "visible (join_slash ([] # map (url_encode safe lower) es))"
    by (rule join_slash_visible) (auto simp: url_encode_visible [OF assms])
  then show ?thesis using query_text_visible [OF assms] by (simp add: encoded_uri_def char_class)
qed

lemma parse_get:
  assumes "uri_safe safe" "cookieless hs"
  shows "parse (get_request (encoded_uri safe lower es ps) hs) MethodStart new_request w =
    finish ExpectingNewline3 (head_request ''GET'' (encoded_uri safe lower es ps) ''1'' ''0'' hs []) [] w"
proof -
  have "line_ok ''GET'' (encoded_uri safe lower es ps) ''1'' ''0''"
    using encoded_uri_visible [OF assms(1)]
    by (simp add: line_ok_def is_char_def is_ctl_def is_tspecial_def is_digit_def char_int_def)
  from parse_rendered [OF this, of hs "[]" "[]" w] assms(2) show ?thesis
    by (simp add: get_request_def cookieless_def)
qed

text \<open>
  The request the parser hands to the application for the names of a path and the pairs of a
  query: a request without a user.
\<close>

lemma get_decoded:
  assumes "uri_safe safe" "cookieless hs"
    and es: "\<forall>e \<in> set es. CHR ''/'' \<notin> set e \<and> CHR ''?'' \<notin> set e \<and> e \<noteq> []" "1 \<le> length es" "length es \<le> 5"
    and call: "perform_final_decode (head_request ''GET'' (encoded_uri safe lower es ps) ''1'' ''0'' hs []) w = (res, r, w')"
  shows "res = Inr True" "w' = w" "url r = join_slash ([] # es)" "req_user r = None"
    "\<And>k. 1 \<le> k \<Longrightarrow> k \<le> length es \<Longrightarrow> element r k = es ! (k - 1)"
    "\<And>n. svalue r n = (case filter (\<lambda>p. fst p = n) ps of [] \<Rightarrow> [] | p # _ \<Rightarrow> snd p)"
proof -
  let ?r = "head_request ''GET'' (encoded_uri safe lower es ps) ''1'' ''0'' hs []"
  have r: "uri ?r = encoded_uri safe lower es ps" "body ?r = []" "varibles ?r = []" "get_header ?r ''COOKIE'' = []"
    using assms(2) by (simp_all add: head_request_def new_request_def get_header_def cookieless_def)
  have safe: "form_safe safe" using assms(1) by (simp add: uri_safe_def)
  from final_decode_encoded [OF safe es r call]
  show "res = Inr True" "w' = w" "url r = join_slash ([] # es)"
    "\<And>k. 1 \<le> k \<Longrightarrow> k \<le> length es \<Longrightarrow> element r k = es ! (k - 1)"
    "\<And>n. svalue r n = (case filter (\<lambda>p. fst p = n) ps of [] \<Rightarrow> [] | p # _ \<Rightarrow> snd p)"
    by (auto simp: svalue_def Let_def split: list.split)
  have "get_header (?r\<lparr>url := x, varibles := y\<rparr>) ''COOKIE'' = []" for x y
    using r(4) by (simp add: get_header_def)
  then have "read_cookies (?r\<lparr>url := x, varibles := y\<rparr>) w = (Inr (), ?r\<lparr>url := x, varibles := y\<rparr>, w)" for x y
    by (rule read_cookies_none)
  with call show "req_user r = None"
    by (auto simp: perform_final_decode_def Let_def set_url_elements_def head_request_def new_request_def)
qed

text \<open>The server takes connections.\<close>

definition serving :: "host \<Rightarrow> world \<Rightarrow> server \<Rightarrow> bool" where
  "serving h w0 s = (reachable (host_site h) (link_up h) w0 s \<and> \<not> crashed s \<and> accepting s)"

lemma browse_reachable:
  assumes "serving h w0 s" "buffers_ok bs"
  shows "reachable (host_site h) (link_up h) w0 (browse h bs s)"
proof -
  let ?s1 = "server_handle_accept False s"
  have up: "reachable (host_site h) (link_up h) w0 s" "\<not> crashed s" "accepting s"
    using assms(1) by (simp_all add: serving_def)
  have "conns s (waiting s) = Some new_connection" using reachable_ok [OF up(1)] by (simp add: server_ok_def)
  then have c: "conns ?s1 (waiting s) = Some (conn_start new_connection)" "c_open (conn_start new_connection)"
    by (simp_all add: server_handle_accept_def manager_start_def Let_def conn_start_def new_connection_def)
  have "reachable (host_site h) (link_up h) w0 ?s1"
    by (rule reachable.Step [OF up(1) server_step.Accept [OF up(2,3)]])
  then show ?thesis unfolding browse_def by (rule feed_reachable [OF _ c assms(2)])
qed

lemma browse_answers:
  assumes "serving h w0 s" "buffers_ok bs" "concat bs = get_request (encoded_uri safe lower es ps) hs"
    and "uri_safe safe" "cookieless hs"
    and dec: "perform_final_decode (head_request ''GET'' (encoded_uri safe lower es ps) ''1'' ''0'' hs []) (srv_world s) =
      (Inr True, r, w)"
    and answer: "serve h r w = (Inr True, rep, w')"
    and s': "s' = browse h bs s"
  shows "serving h w0 s'" "srv_world s' = w'"
    "received (waiting s) s' = read_reply (reply_bytes (host_site h) rep)"
proof -
  let ?s1 = "server_handle_accept False s"
  let ?i = "waiting s"
  let ?c = "conn_start new_connection"
  have up: "\<not> crashed s" "accepting s" "server_ok s" using assms(1) reachable_ok by (auto simp: serving_def)
  then have new: "conns s ?i = Some new_connection" and unsent: "?i \<notin> fst ` set (sent s)"
    by (auto simp: server_ok_def)
  have c: "conns ?s1 ?i = Some ?c" "c_pending ?c = Reading" "\<not> crashed ?s1"
    "srv_world ?s1 = srv_world s" "sent ?s1 = sent s" "accepting ?s1 = accepting s"
    using new up(1)
    by (simp_all add: server_handle_accept_def manager_start_def Let_def conn_start_def new_connection_def)
  have "bs \<noteq> []" using assms(3) by (auto simp: get_request_def render_request_def)
  then have s'1: "s' = read_bytes (host_site h) (link_up h) ?i ?c (concat bs) ?s1"
    unfolding s' browse_def using c by (intro feed_concat) simp_all
  have "parse (concat bs) (c_parser ?c) (c_request ?c) (srv_world ?s1) = (Inr (TTrue, []), ExpectingNewline3, r, w)"
    using parse_get [OF assms(4,5)] dec
    by (simp add: assms(3) c conn_start_def new_connection_def finish_def)
  moreover have "handle_request (link_up h) r (c_reply ?c) w = (Inr True, rep, w')"
    using answer by (simp add: serve_def conn_start_def new_connection_def)
  moreover have "\<not> c_detached ?c" by (simp add: conn_start_def new_connection_def)
  ultimately have eqs: "\<not> crashed s'" "accepting s'" "srv_world s' = w'"
    "sent s' = sent s @ [(?i, reply_bytes (host_site h) rep)]"
    using c up(2)
    by (simp_all add: s'1 read_bytes_def Let_def start_write_def split_def reply_bytes_def)
  then show "serving h w0 s'" "srv_world s' = w'"
    using browse_reachable [OF assms(1,2)] s' by (simp_all add: serving_def)
  have "map_of (sent s) ?i = None" using unsent by (simp add: map_of_eq_None_iff)
  then show "received ?i s' = read_reply (reply_bytes (host_site h) rep)"
    by (simp add: received_def eqs(4) map_add_def map_of_append)
qed

text \<open>
  A client asks for a path of these names with these query pairs: it writes them into a request,
  encoded and cut into buffers in any of the ways it may.
\<close>

definition asks :: "string list \<Rightarrow> (string \<times> string) list \<Rightarrow> string list \<Rightarrow> bool" where
  "asks es ps bs = (es \<noteq> [] \<and> length es \<le> 5 \<and> (\<forall>e \<in> set es. CHR ''/'' \<notin> set e \<and> CHR ''?'' \<notin> set e \<and> e \<noteq> []) \<and>
     buffers_ok bs \<and> (\<exists>safe lower hs. uri_safe safe \<and> cookieless hs \<and>
       concat bs = get_request (encoded_uri safe lower es ps) hs))"

lemma browse_asks:
  assumes "serving h w0 s" "asks es ps bs"
  shows "\<exists>r. url r = join_slash ([] # es) \<and> req_user r = None \<and>
    (\<forall>k. 1 \<le> k \<and> k \<le> length es \<longrightarrow> element r k = es ! (k - 1)) \<and>
    (\<forall>n. svalue r n = (case filter (\<lambda>p. fst p = n) ps of [] \<Rightarrow> [] | p # _ \<Rightarrow> snd p)) \<and>
    (\<forall>rep w'. serve h r (srv_world s) = (Inr True, rep, w') \<longrightarrow>
       serving h w0 (browse h bs s) \<and> srv_world (browse h bs s) = w' \<and>
       received (waiting s) (browse h bs s) = read_reply (reply_bytes (host_site h) rep))"
proof -
  from assms(2) obtain safe lower hs where a: "uri_safe safe" "cookieless hs"
    "concat bs = get_request (encoded_uri safe lower es ps) hs" "buffers_ok bs"
    and es: "\<forall>e \<in> set es. CHR ''/'' \<notin> set e \<and> CHR ''?'' \<notin> set e \<and> e \<noteq> []" "1 \<le> length es" "length es \<le> 5"
    by (auto simp: asks_def Suc_le_eq)
  obtain res r w where dec: "perform_final_decode
      (head_request ''GET'' (encoded_uri safe lower es ps) ''1'' ''0'' hs []) (srv_world s) = (res, r, w)"
    by (rule prod_cases3)
  note got = get_decoded [OF a(1,2) es dec]
  have "serving h w0 (browse h bs s) \<and> srv_world (browse h bs s) = w' \<and>
      received (waiting s) (browse h bs s) = read_reply (reply_bytes (host_site h) rep)"
    if "serve h r (srv_world s) = (Inr True, rep, w')" for rep w'
    using browse_answers [OF assms(1) a(4,3,1,2) _ that refl] dec got(1,2) by simp
  with got(3-6) show ?thesis by blast
qed

declare run_phases.simps [simp del]

section \<open>Reading the reply\<close>

lemma read_plain_reply:
  assumes "template_file rep = []" "reply_status rep = Some st" "status_string st = line @ crlf"
    and "\<forall>h \<in> set (reply_headers rep). plain_header h"
  shows "read_reply (reply_bytes s rep) = Some (line, reply_headers rep, content rep)"
proof -
  obtain bufs rep' where b: "to_buffers s rep = (bufs, rep')" by fastforce
  with assms(1) have "rep' = rep" by (simp add: to_buffers_def Let_def)
  with read_reply_bytes [OF b] assms show ?thesis by (auto simp: status_buffer_def)
qed

lemma status_lines:
  "status_string Ok = ''HTTP/1.0 200 OK'' @ crlf"
  "status_string MovedTemporarily = ''HTTP/1.0 302 Moved Temporarily'' @ crlf"
  by simp_all

lemma number_plain: "CHR 0x0D \<notin> set (show_nat n)"
  by (rule show_nat_dec) (simp add: is_dec_def)

lemma type_plain: "CHR 0x0D \<notin> set (extension_to_type ext)"
proof -
  have "\<forall>m \<in> set mime_mappings. CHR 0x0D \<notin> set (snd m)" by (simp add: mime_mappings_def)
  then have "CHR 0x0D \<notin> set (snd m)" if "find (\<lambda>m. fst m = ext) mime_mappings = Some m" for m
    using that by (metis find_Some_iff nth_mem)
  then show ?thesis by (auto simp: extension_to_type_def split: option.split)
qed

text \<open>The headers every sent content has, and how the answer of a handler without a user ends.\<close>

definition basic_headers :: "string \<Rightarrow> string \<Rightarrow> (string \<times> string) list" where
  "basic_headers ext bytes = [(''Connection'', ''close''), (''Content-Length'', show_nat (length bytes)),
     (''Content-Type'', extension_to_type ext)]"

lemma basic_headers_plain: "\<forall>h \<in> set (basic_headers ext bytes). plain_header h"
  by (simp add: basic_headers_def plain_header_def number_plain type_plain)

lemma serve_stop:
  assumes "run_phases phases (link_up h) r new_reply w = (Inr Stop, rep, w')" "req_user r = None" "reply_user rep = None"
  shows "serve h r w = (Inr True, rep, w')"
proof -
  have "rep\<lparr>reply_user := None\<rparr> = rep" using assms(3) by simp
  then show ?thesis by (simp add: serve_def handle_request_def assms)
qed

section \<open>A file\<close>

lemma serve_file:
  assumes "past_login r" "u1 r \<notin> {[], ''users'', ''xspf'', ''song'', ''pl'', ''tree'', ''info''}" "req_user r = None"
    and "\<not> illegal_path (url r)"
    and stored: "files w (path_join (host_site h) (doc_root (host_site h)) (request_path (url r))) = Some bytes"
  shows "\<exists>rep. serve h r w = (Inr True, rep, w) \<and> template_file rep = [] \<and> reply_status rep = Some Ok \<and>
    content rep = bytes \<and>
    reply_headers rep = basic_headers (path_extension (request_path (url r))) bytes @ [(''X-HANDLED-BY'', ''Filesystem'')]"
proof -
  let ?rep = "set_header ''X-HANDLED-BY'' ''Filesystem'' (set_basic_headers (path_extension (request_path (url r)))
      (write_content bytes (new_reply\<lparr>reply_status := Some Ok\<rparr>)))"
  have "run_phases phases (link_up h) r new_reply w = (Inr Stop, ?rep, w)"
    using assms by (simp add: run_files try_mk files_handle_def Let_def put_text_def)
  then have "serve h r w = (Inr True, ?rep, w)"
    using assms(3) by (intro serve_stop) (simp_all add: write_content_def new_reply_def)
  then show ?thesis
    by (intro exI [of _ ?rep])
      (simp add: write_content_def new_reply_def set_basic_headers_def basic_headers_def map_insert_def map_find_def)
qed

lemma join_slash_last: "xs \<noteq> [] \<Longrightarrow> last xs \<noteq> [] \<Longrightarrow> last (join_slash xs) = last (last xs) \<and> join_slash xs \<noteq> []"
  by (induction xs rule: join_slash.induct) auto


definition browser_bytes :: "string list \<Rightarrow> (string \<times> string) list \<Rightarrow> string list" where
  "browser_bytes es ps = (let bytes = get_request (encoded_uri (\<lambda>_. False) False es ps) [] in [take 9 bytes, drop 9 bytes])"

lemma site_serving:
  "serving h w (start_server w)" "waiting (start_server w) = 0" "srv_world (start_server w) = w"
  using reachable.Start by (simp_all add: serving_def start_server_def)

lemma browser_asks:
  assumes "buffers_ok (browser_bytes es ps)" "es \<noteq> []" "length es \<le> 5"
    "\<forall>e \<in> set es. CHR ''/'' \<notin> set e \<and> CHR ''?'' \<notin> set e \<and> e \<noteq> []"
  shows "asks es ps (browser_bytes es ps)"
proof -
  have "uri_safe (\<lambda>_. False)" "cookieless []"
    by (simp_all add: uri_safe_def form_safe_def cookieless_def stored_headers_def map_find_def)
  moreover have "concat (browser_bytes es ps) = get_request (encoded_uri (\<lambda>_. False) False es ps) []"
    by (simp add: browser_bytes_def Let_def)
  ultimately show ?thesis using assms unfolding asks_def by blast
qed


section \<open>Login and download\<close>

lemma row_find_update:
  assumes "\<And>r. P (f r) = P r"
  shows "row_find P (row_update Q f t) = map_option (\<lambda>r. if Q r then f r else r) (row_find P t)"
  using assms by (induction t) (auto simp: row_find_def row_update_def)

lemma show_zero: "show_nat 0 = ''0''"
  by code_simp

text \<open>The answer to a login with the right password.\<close>

lemma serve_login:
  assumes ready: "rows_ok (users w)" "\<not> stale_cmd w" "keeps_words w" "fair_dice w"
    and r: "u2 r = ''validate''" "req_user r = None"
    and mode: "settings_get ''AllowGuests'' w = (Inr m, w)" "m \<noteq> ''WithPassword''" "m \<noteq> ''WithName''"
    and user: "row_find (\<lambda>u. login u = store_text w (svalue r ''login'')) (users w) = Some u" "password u = svalue r ''pass''"
    and tk: "tk = generate_new_ticket (dice w)"
    and fresh: "\<forall>x \<in> set (users w). ticket x = tk \<longrightarrow> db_id x = db_id u"
  shows "\<exists>rep t. serve h r w = (Inr True, rep, w\<lparr>users := t\<rparr>) \<and>
    template_file rep = [] \<and> reply_status rep = Some MovedTemporarily \<and>
    content rep = stock_reply MovedTemporarily \<and> reply_headers rep = [(''Connection'', ''close''), (''Content-Length'', ''0''),
      (''Content-Type'', ''text/html; charset=utf-8''), (''Location'', ''/''),
      (''Set-Cookie'', ''Ticket='' @ tk @ ''; path=/;''), (''X-HANDLED-BY'', ''Login'')] \<and>
    (\<exists>v. row_find (\<lambda>x. ticket x = tk) t = Some v \<and> db_id v = db_id u \<and> last_visit v = clock w) \<and> rows_ok t"
proof -
  have u: "u \<in> set (users w)" using row_find_SomeD [OF user(1)] by simp
  then have row: "row_lookup (users w) (db_id u) = Some u" "db_id u \<noteq> 0"
    using row_lookup_in [OF ready(1)] ready(1) by (auto simp: rows_ok_def)
  let ?u = "u\<lparr>ticket := tk\<rparr>"
  obtain res w1 where call: "authen u (svalue r ''pass'') w = (res, w1)" by fastforce
  have authen: "res = Inr (True, ?u)" "length tk = 25" "fst (with_ticket tk w1) = Inr (norm_user w ?u)"
    using authen_ticket [OF ready _ row(2) _ call] row(1) fresh user(2) by (simp_all add: tk Let_def)
  have w1: "w1 = w\<lparr>users := row_put (db_id u) (norm_user w ?u) (users w)\<rparr>"
    using call user(2) row(2) ready(2) by (auto simp: authen_def user_save_ready save_obj_def tk)
  have kept: "store_text w tk = tk" unfolding tk by (rule ticket_kept [OF ready(3,4)])
  have found: "row_find (\<lambda>x. ticket x = tk) (users w1) = Some (norm_user w ?u)"
    using authen(3) ready(2) kept by (auto simp: with_ticket_def load_row_simps load_one_def w1 split: option.splits)
  let ?t = "row_update (\<lambda>r. db_id r = db_id u) (\<lambda>r. r\<lparr>last_visit := clock w\<rparr>) (users w1)"
  have t: "row_find (\<lambda>x. ticket x = tk) ?t = Some ((norm_user w ?u)\<lparr>last_visit := clock w\<rparr>)"
    by (subst row_find_update) (simp_all add: found)
  have okt: "rows_ok ?t" using ready(1) by (intro rows_ok_update) (simp_all add: w1)
  have wl: "with_login (svalue r ''login'') w = (Inr u, w)"
    using ready(2) user(1) by (simp add: with_login_def load_row_simps load_one_def)
  let ?rep = "set_header ''X-HANDLED-BY'' ''Login'' (set_header ''Location'' ''/''
      (set_to MovedTemporarily (new_reply\<lparr>reply_user := Some ?u\<rparr>)))"
  have "run_phases phases (link_up h) r new_reply w = (Inr Stop, ?rep, w1)"
    unfolding run_site linked_handlers
    using r mode wl call authen(1) by (simp add: try_mk login_handle_def)
  moreover have "reply_user ?rep = Some ?u" by simp
  moreover have "update_access_time ?u w1 = (Inr (?u\<lparr>last_visit := clock w\<rparr>), w1\<lparr>users := ?t\<rparr>)"
    using ready(2) by (simp add: update_access_time_def w1)
  ultimately have "serve h r w = (Inr True, (set_header ''Set-Cookie'' (session_cookie ?u) ?rep)
      \<lparr>reply_user := Some (?u\<lparr>last_visit := clock w\<rparr>)\<rparr>, w\<lparr>users := ?t\<rparr>)"
    by (simp add: serve_def handle_request_def w1)
  moreover have "reply_headers (set_header ''Set-Cookie'' (session_cookie ?u) ?rep) =
      [(''Connection'', ''close''), (''Content-Length'', ''0''),
       (''Content-Type'', ''text/html; charset=utf-8''), (''Location'', ''/''),
       (''Set-Cookie'', ''Ticket='' @ tk @ ''; path=/;''), (''X-HANDLED-BY'', ''Login'')]"
    using show_zero
    by (simp add: set_to_def set_basic_headers_def set_header_def map_insert_def map_find_def session_cookie_def
        new_reply_def extension_to_type_def mime_mappings_def)
  moreover have "\<exists>v. row_find (\<lambda>x. ticket x = tk) ?t = Some v \<and> db_id v = db_id u \<and> last_visit v = clock w"
    using t by simp
  ultimately show ?thesis
    using okt
    by (intro exI [of _ "(set_header ''Set-Cookie'' (session_cookie ?u) ?rep)
        \<lparr>reply_user := Some (?u\<lparr>last_visit := clock w\<rparr>)\<rparr>"] exI [of _ ?t] conjI) (simp_all add: new_reply_def)
qed

text \<open>The answer to a download with a ticket seen within a day.\<close>

lemma serve_download:
  assumes "\<not> stale_cmd w" "store_text w tk = tk" "tk \<noteq> []"
    and r: "u1 r = ''song''" "u2 r = ''dl''" "u3 r = tk" "u4 r = show_int i" "req_user r = None" "- (2 ^ 63) \<le> i" "i < 2 ^ 63"
    and user: "row_find (\<lambda>x. ticket x = tk) (users w) = Some v" "clock w \<le> last_visit v + one_day"
    and song: "row_lookup (songs w) i = Some sg" "song_path sg w = (Inr p, w)" "fs_bytes (host_disk h) p = Some bytes"
  shows "\<exists>rep. serve h r w = (Inr True, rep, w) \<and> template_file rep = [] \<and> reply_status rep = Some Ok \<and>
    content rep = bytes \<and>
    reply_headers rep = basic_headers ''mp3'' bytes @
      [(''Content-disposition'', ''attachment; filename='' @ dq @ title sg @ ''.mp3'' @ dq), (''X-HANDLED-BY'', ''Song'')]"
proof -
  let ?rep = "set_header ''X-HANDLED-BY'' ''Song'' (set_basic_headers ''mp3'' (write_content bytes
      (set_header ''Content-disposition'' (''attachment; filename='' @ dq @ title sg @ ''.mp3'' @ dq) new_reply)))"
  have "with_ticket tk w = (Inr v, w)"
    using assms(1,2) user(1) by (simp add: with_ticket_def load_row_simps load_one_def)
  moreover have "song_load i w = (Inr sg, w)"
    using assms(1) song(1) by (simp add: song_load_def load_row_def load_one_def row_lookup_def)
  moreover have "show_int i \<noteq> []" by (simp add: show_int_def show_nat_nonempty)
  moreover have "past_login r" using r(2) by (simp add: past_login_def)
  ultimately have "run_phases phases (link_up h) r new_reply w = (Inr Stop, ?rep, w)"
    using assms lexical_cast_id_show [OF r(6,7)]
    by (simp add: run_song try_mk song_handle_def cast_or_throw_def put_text_def)
  then have "serve h r w = (Inr True, ?rep, w)"
    using r(5) by (intro serve_stop) (simp_all add: write_content_def new_reply_def)
  then show ?thesis
    by (intro exI [of _ ?rep])
      (simp add: write_content_def new_reply_def set_basic_headers_def set_header_def basic_headers_def map_insert_def map_find_def)
qed


definition session_start :: server where
  "session_start = browse sample_host
     (browser_bytes [''auth'', ''validate''] [(''login'', ''Admin''), (''pass'', ''secret'')]) (start_server site_world)"

lemma site_mode: "settings_get ''AllowGuests'' site_world = (Inr [], site_world)"
  using site_facts(1) by (simp add: settings_get_def row_find_def site_world_def playlist_world_def empty_world_def)

lemma site_song_path: "song_path (sample_song 1) (site_world\<lparr>users := t\<rparr>) = (Inr [''/m'', ''a.mp3''], site_world\<lparr>users := t\<rparr>)"
proof -
  have "music_dirs (site_world\<lparr>users := t\<rparr>) = [\<lparr>db_id = 1, parent_id = 0, dir_name = ''/m''\<rparr>]"
    "\<not> stale_cmd (site_world\<lparr>users := t\<rparr>)"
    using site_facts(1) by (simp_all add: site_world_def)
  moreover have "dir_id (sample_song 1) = 1" "file_name (sample_song 1) = ''a.mp3''"
    by (simp_all add: sample_song_def)
  ultimately show ?thesis
    by (simp add: song_path_def md_load_def load_row_simps load_one_def row_find_def md_path_def is_root_def)
qed


end
