(* ===== verification/Directories.thy ===== *)
theory Directories
  imports Library
begin

text \<open>
  The tree of directories: the invariant of its table, the walk to the root and the removal of
  a subtree.
\<close>

section \<open>The invariant\<close>

text \<open>
  A directory is stored below a stored one and gets a larger identifier than all rows, so a
  parent has a smaller identifier than its children; every parent is a root or a stored row.
\<close>

definition falling :: "music_dir_obj list \<Rightarrow> bool" where
  "falling t = (rows_ok t \<and> (\<forall>x \<in> set t. 0 \<le> parent_id x \<and> parent_id x < db_id x))"

definition parent_known :: "music_dir_obj list \<Rightarrow> music_dir_obj \<Rightarrow> bool" where
  "parent_known t d = (parent_id d = 0 \<or> row_lookup t (parent_id d) \<noteq> None)"

definition tree_ok :: "music_dir_obj list \<Rightarrow> bool" where
  "tree_ok t = (falling t \<and> (\<forall>x \<in> set t. parent_known t x))"

lemma fallingD: "falling t \<Longrightarrow> x \<in> set t \<Longrightarrow> 0 \<le> parent_id x \<and> parent_id x < db_id x \<and> 0 < db_id x"
  by (auto simp: falling_def rows_ok_def)

lemma falling_filter [simp]: "falling t \<Longrightarrow> falling (filter P t)"
  using rows_ok_delete [of t "\<lambda>x. \<not> P x"] by (simp add: falling_def row_delete_def)

lemma md_load_ready:
  "\<not> stale_cmd w \<Longrightarrow> row_lookup (music_dirs w) i = Some d \<Longrightarrow> md_load i w = (Inr d, w)"
  by (simp add: md_load_def load_row_def load_one_def row_lookup_def)

text \<open>How far up a walk can still go.\<close>

definition room_above :: "music_dir_obj list \<Rightarrow> music_dir_obj \<Rightarrow> nat" where
  "room_above t d = card {x \<in> set t. db_id x \<le> parent_id d}"

lemma room_above_less:
  assumes "falling t" "row_lookup t (parent_id d) = Some p"
  shows "room_above t p < room_above t d"
proof -
  have p: "p \<in> set t" "db_id p = parent_id d" using assms(2) by (auto dest: row_lookup_SomeD)
  have less: "parent_id p < parent_id d" using p fallingD [OF assms(1) p(1)] by simp
  have "p \<in> {x \<in> set t. db_id x \<le> parent_id d}" "p \<notin> {x \<in> set t. db_id x \<le> parent_id p}"
    using p less by simp_all
  moreover have "{x \<in> set t. db_id x \<le> parent_id p} \<subseteq> {x \<in> set t. db_id x \<le> parent_id d}"
    using less by auto
  ultimately have "{x \<in> set t. db_id x \<le> parent_id p} \<subset> {x \<in> set t. db_id x \<le> parent_id d}" by blast
  then show ?thesis unfolding room_above_def by (intro psubset_card_mono) auto
qed

lemma room_above_length: "room_above t d \<le> length t"
  unfolding room_above_def by (rule le_trans [OF card_mono [of "set t"]]) (auto simp: card_length)

lemma names_upward_more:
  "names_upward n d w = (Inr ns, w') \<Longrightarrow> n \<le> m \<Longrightarrow> names_upward m d w = (Inr ns, w')"
proof (induction n arbitrary: d w ns m)
  case (Suc n)
  then obtain k where m: "m = Suc k" "n \<le> k" by (cases m) auto
  show ?case
  proof (cases "is_root d")
    case False
    with Suc.prems(1) obtain p w1 ms where
      p: "md_load (parent_id d) w = (Inr p, w1)" "names_upward n p w1 = (Inr ms, w')" "ns = dir_name d # ms"
      by (auto simp: bindE_eq_Inr)
    with Suc.IH [OF p(2) m(2)] False show ?thesis by (simp add: m(1))
  qed (use Suc.prems(1) m(1) in simp)
qed simp

lemma names_upward_returns:
  assumes "\<not> stale_cmd w" "tree_ok (music_dirs w)"
  shows "parent_known (music_dirs w) d \<Longrightarrow> room_above (music_dirs w) d < n \<Longrightarrow>
    \<exists>ns. names_upward n d w = (Inr ns, w)"
proof (induction n arbitrary: d)
  case (Suc n)
  show ?case
  proof (cases "is_root d")
    case False
    with Suc.prems(1) obtain p where p: "row_lookup (music_dirs w) (parent_id d) = Some p"
      by (auto simp: parent_known_def is_root_def)
    then have "p \<in> set (music_dirs w)" by (auto dest: row_lookup_SomeD)
    then have "parent_known (music_dirs w) p" using assms(2) by (simp add: tree_ok_def)
    moreover have "room_above (music_dirs w) p < n"
      using room_above_less [OF _ p] assms(2) Suc.prems(2) by (simp add: tree_ok_def)
    ultimately obtain ns where "names_upward n p w = (Inr ns, w)" using Suc.IH by blast
    with False md_load_ready [OF assms(1) p] show ?thesis by simp
  qed simp
qed simp

lemma path_of:
  assumes "\<not> stale_cmd w" "tree_ok (music_dirs w)" "parent_known (music_dirs w) d"
  shows "\<exists>p. md_path d w = (Inr p, w) \<and> (is_root d \<longrightarrow> p = [dir_name d]) \<and>
    (\<forall>up. \<not> is_root d \<longrightarrow> row_lookup (music_dirs w) (parent_id d) = Some up \<longrightarrow>
       (\<exists>q. md_path up w = (Inr q, w) \<and> p = q @ [dir_name d]))"
proof -
  let ?n = "length (music_dirs w)"
  have room: "room_above (music_dirs w) x < Suc ?n" for x
    using room_above_length [of "music_dirs w" x] by simp
  obtain ns where ns: "names_upward (Suc ?n) d w = (Inr ns, w)"
    using names_upward_returns [OF assms room] by blast
  have root: "is_root d \<Longrightarrow> ns = [dir_name d]" using ns by simp
  have step: "\<exists>ms. names_upward (Suc ?n) up w = (Inr ms, w) \<and> ns = dir_name d # ms"
    if "\<not> is_root d" "row_lookup (music_dirs w) (parent_id d) = Some up" for up
  proof -
    have "\<exists>ms. names_upward ?n up w = (Inr ms, w) \<and> ns = dir_name d # ms"
      using ns that md_load_ready [OF assms(1) that(2)] by (auto simp: bindE_eq_Inr)
    then show ?thesis using names_upward_more [of ?n up w _ w "Suc ?n"] by auto
  qed
  show ?thesis
    using ns root step
    by (intro exI [of _ "rev ns"]) (force simp: md_path_def simp del: names_upward.simps)
qed

text \<open>
  C34: in a well-formed tree the walk to the root ends. The path of a directory is its own name
  for a root, and else the path of its parent with its name appended; nothing changes.
\<close>

theorem path_of_directory:
  assumes "\<not> stale_cmd w" "tree_ok (music_dirs w)" "parent_known (music_dirs w) d"
  shows "\<exists>p. md_path d w = (Inr p, w) \<and> (is_root d \<longrightarrow> p = [dir_name d]) \<and>
    (\<forall>up. \<not> is_root d \<longrightarrow> row_lookup (music_dirs w) (parent_id d) = Some up \<longrightarrow>
       (\<exists>q. md_path up w = (Inr q, w) \<and> p = q @ [dir_name d]))"
  using assms by (rule path_of)

section \<open>Destroying a directory\<close>

text \<open>The identifiers of a directory and of everything below it.\<close>

inductive_set below :: "music_dir_obj list \<Rightarrow> int \<Rightarrow> int set" for t i where
  Self: "i \<in> below t i"
| Child: "parent_id x \<in> below t i \<Longrightarrow> x \<in> set t \<Longrightarrow> db_id x \<in> below t i"

lemma below_unfold:
  "below t i = insert i (\<Union>c \<in> {x \<in> set t. parent_id x = i}. below t (db_id c))"
proof
  show "below t i \<subseteq> insert i (\<Union>c \<in> {x \<in> set t. parent_id x = i}. below t (db_id c))"
  proof
    fix j assume "j \<in> below t i"
    then show "j \<in> insert i (\<Union>c \<in> {x \<in> set t. parent_id x = i}. below t (db_id c))"
    proof induction
      case (Child x)
      then show ?case by (auto intro: below.intros)
    qed simp
  qed
  have "j \<in> below t i" if "c \<in> set t" "parent_id c = i" "j \<in> below t (db_id c)" for c j
    using that(3) by induction (use that(1,2) in \<open>auto intro: below.intros\<close>)
  then show "insert i (\<Union>c \<in> {x \<in> set t. parent_id x = i}. below t (db_id c)) \<subseteq> below t i"
    by (auto intro: below.intros)
qed

lemma below_remove_subtree:
  "below t a \<union> below (filter (\<lambda>x. db_id x \<notin> below t a) t) j = below t a \<union> below t j"
proof -
  let ?t = "filter (\<lambda>x. db_id x \<notin> below t a) t"
  have "k \<in> below t j" if "k \<in> below ?t j" for k
    using that by induction (auto intro: below.intros)
  moreover have "k \<in> below t a \<or> k \<in> below ?t j" if "k \<in> below t j" for k
    using that
  proof induction
    case (Child x)
    then show ?case by (cases "db_id x \<in> below t a") (auto intro: below.intros)
  qed (simp add: below.intros)
  ultimately show ?thesis by blast
qed

text \<open>The world without the directories of a set and the songs in them.\<close>

definition prune :: "int set \<Rightarrow> world \<Rightarrow> world" where
  "prune S w = w\<lparr>music_dirs := filter (\<lambda>x. db_id x \<notin> S) (music_dirs w),
                 songs := filter (\<lambda>s. dir_id s \<notin> S) (songs w)\<rparr>"

lemma prune_simps [simp]:
  "music_dirs (prune S w) = filter (\<lambda>x. db_id x \<notin> S) (music_dirs w)"
  "songs (prune S w) = filter (\<lambda>s. dir_id s \<notin> S) (songs w)"
  "stale_cmd (prune S w) = stale_cmd w"
  by (simp_all add: prune_def)

lemma prune_prune: "prune S (prune T w) = prune (T \<union> S) w"
  by (simp add: prune_def conj_commute)

lemma prune_nothing [simp]: "prune {} w = w"
  by (simp add: prune_def)

lemma rows_ok_filter: "rows_ok t \<Longrightarrow> rows_ok (filter P t)"
  using rows_ok_delete [of t "\<lambda>x. \<not> P x"] by (simp add: row_delete_def)

lemma destroy_songs:
  assumes "\<not> stale_cmd w" "\<forall>s \<in> set ss. db_id s \<noteq> 0"
  shows "forE ss song_destroy w = (Inr (), w\<lparr>songs := filter (\<lambda>x. db_id x \<notin> db_id ` set ss) (songs w)\<rparr>)"
  using assms
proof (induction ss arbitrary: w)
  case (Cons s ss)
  have "song_destroy s w = (Inr (), w\<lparr>songs := filter (\<lambda>x. db_id x \<noteq> db_id s) (songs w)\<rparr>)"
    using Cons.prems by (simp add: song_destroy_def destroy_obj_def row_del_def row_delete_def)
  with Cons show ?case by (simp add: conj_commute)
qed simp

lemma destroy_songs_of:
  assumes "\<not> stale_cmd w" "rows_ok (songs w)" "set ss = {s \<in> set (songs w). dir_id s = i}"
  shows "forE ss song_destroy w = (Inr (), w\<lparr>songs := filter (\<lambda>x. dir_id x \<noteq> i) (songs w)\<rparr>)"
proof -
  have "db_id x \<in> db_id ` set ss \<longleftrightarrow> dir_id x = i" if "x \<in> set (songs w)" for x
  proof
    assume "db_id x \<in> db_id ` set ss"
    then obtain s where "s \<in> set (songs w)" "dir_id s = i" "db_id s = db_id x" using assms(3) by auto
    with row_lookup_in [OF assms(2)] that show "dir_id x = i" by (metis option.inject)
  qed (use that assms(3) in auto)
  then have "filter (\<lambda>x. db_id x \<notin> db_id ` set ss) (songs w) = filter (\<lambda>x. dir_id x \<noteq> i) (songs w)"
    by (intro filter_cong) auto
  moreover have "\<forall>s \<in> set ss. db_id s \<noteq> 0" using assms(2,3) by (auto simp: rows_ok_def)
  ultimately show ?thesis using destroy_songs [OF assms(1)] by simp
qed

lemma destroy_row_of:
  assumes "\<not> stale_cmd w" "db_id d \<noteq> 0"
  shows "dir_row_destroy d w = (Inr (), w\<lparr>music_dirs := filter (\<lambda>x. db_id x \<noteq> db_id d) (music_dirs w)\<rparr>)"
  using assms by (simp add: dir_row_destroy_def destroy_obj_def row_del_def row_delete_def)

lemma destroy_children:
  assumes step: "\<And>c w. \<lbrakk>\<not> stale_cmd w; falling (music_dirs w); rows_ok (songs w); db_id c \<noteq> 0;
      card {x \<in> set (music_dirs w). db_id c < db_id x} < n\<rbrakk> \<Longrightarrow>
      destroy_below n c w = (Inr (), prune (below (music_dirs w) (db_id c)) w)"
  shows "\<lbrakk>\<not> stale_cmd w; falling (music_dirs w); rows_ok (songs w); \<forall>c \<in> set ds. db_id c \<noteq> 0 \<and>
      card {x \<in> set (music_dirs w). db_id c < db_id x} < n\<rbrakk> \<Longrightarrow>
      forE ds (destroy_below n) w = (Inr (), prune (\<Union>c \<in> set ds. below (music_dirs w) (db_id c)) w)"
proof (induction ds arbitrary: w)
  case (Cons c ds)
  let ?S = "below (music_dirs w) (db_id c)"
  let ?w = "prune ?S w"
  have first: "destroy_below n c w = (Inr (), ?w)" using Cons.prems by (intro step) auto
  have less: "card {x \<in> set (music_dirs ?w). k < db_id x} \<le> card {x \<in> set (music_dirs w). k < db_id x}" for k
    by (intro card_mono) auto
  have rest: "forE ds (destroy_below n) ?w = (Inr (), prune (\<Union>c \<in> set ds. below (music_dirs ?w) (db_id c)) ?w)"
    using Cons.prems le_less_trans [OF less] by (intro Cons.IH) (auto simp: rows_ok_filter)
  have "?S \<union> (\<Union>c \<in> set ds. below (music_dirs ?w) (db_id c)) = ?S \<union> (\<Union>c \<in> set ds. below (music_dirs w) (db_id c))"
    using below_remove_subtree [of "music_dirs w" "db_id c"] by auto
  with first rest show ?case by (simp add: prune_prune)
qed simp

lemma destroy_below_prunes:
  "\<lbrakk>\<not> stale_cmd w; falling (music_dirs w); rows_ok (songs w); db_id d \<noteq> 0;
    card {x \<in> set (music_dirs w). db_id d < db_id x} < n\<rbrakk> \<Longrightarrow>
   destroy_below n d w = (Inr (), prune (below (music_dirs w) (db_id d)) w)"
proof (induction n arbitrary: d w)
  case (Suc n)
  let ?t = "music_dirs w"
  let ?ds = "by_upper_dir w (filter (\<lambda>x. parent_id x = db_id d) ?t)"
  let ?C = "\<Union>c \<in> set ?ds. below ?t (db_id c)"
  have set_ds: "set ?ds = {x \<in> set ?t. parent_id x = db_id d}" by (simp add: by_upper_dir_def)
  have smaller: "db_id c \<noteq> 0 \<and> card {x \<in> set ?t. db_id c < db_id x} < n" if "c \<in> set ?ds" for c
  proof -
    have "c \<in> set ?t" "parent_id c = db_id d" using that by (simp_all add: set_ds)
    with fallingD [OF Suc.prems(2), of c] have c: "c \<in> set ?t" "db_id d < db_id c" "0 < db_id c" by simp_all
    then have "{x \<in> set ?t. db_id c < db_id x} \<subset> {x \<in> set ?t. db_id d < db_id x}" by force
    then have "card {x \<in> set ?t. db_id c < db_id x} < card {x \<in> set ?t. db_id d < db_id x}"
      by (intro psubset_card_mono) auto
    with c Suc.prems(5) show ?thesis by simp
  qed
  have kids: "forE ?ds (destroy_below n) w = (Inr (), prune ?C w)"
    by (rule destroy_children [OF Suc.IH]) (use Suc.prems smaller in auto)
  have songs: "forE (by_track (prune ?C w) (filter (\<lambda>s. dir_id s = db_id d) (songs (prune ?C w)))) song_destroy (prune ?C w)
      = (Inr (), (prune ?C w)\<lparr>songs := filter (\<lambda>x. dir_id x \<noteq> db_id d) (songs (prune ?C w))\<rparr>)"
    by (rule destroy_songs_of) (use Suc.prems in \<open>auto simp: rows_ok_filter by_track_def\<close>)
  have all: "below ?t (db_id d) = insert (db_id d) ?C"
    by (subst below_unfold) (simp only: set_ds)
  show ?case
    using Suc.prems(1,4) kids songs
    by (simp add: md_children_of_def md_songs_def destroy_row_of all)
       (simp add: prune_def conj_commute)
qed simp

lemma md_destroy_prunes:
  assumes "\<not> stale_cmd w" "falling (music_dirs w)" "rows_ok (songs w)" "db_id d \<noteq> 0"
  shows "md_destroy d w = (Inr (), prune (below (music_dirs w) (db_id d)) w)"
proof -
  have "card {x \<in> set (music_dirs w). db_id d < db_id x} \<le> card (set (music_dirs w))"
    by (intro card_mono) auto
  then have "card {x \<in> set (music_dirs w). db_id d < db_id x} < Suc (length (music_dirs w))"
    using card_length [of "music_dirs w"] by linarith
  from destroy_below_prunes [OF assms this] show ?thesis by (simp add: md_destroy_def del: destroy_below.simps)
qed

text \<open>
  C15: destroying a stored directory of a well-formed tree ends, and removes exactly the
  directories below it and itself, and exactly the songs in them; every other row stays.
\<close>

theorem destroy_removes_subtree:
  assumes "\<not> stale_cmd w" "falling (music_dirs w)" "rows_ok (songs w)" "db_id d \<noteq> 0"
  shows "md_destroy d w = (Inr (), w\<lparr>
     music_dirs := filter (\<lambda>x. db_id x \<notin> below (music_dirs w) (db_id d)) (music_dirs w),
     songs := filter (\<lambda>s. dir_id s \<notin> below (music_dirs w) (db_id d)) (songs w)\<rparr>)"
  using md_destroy_prunes [OF assms] by (simp add: prune_def)

section \<open>A small library\<close>

definition tree_world :: world where
  "tree_world = empty_world\<lparr>
     music_dirs := [\<lparr>db_id = 1, parent_id = 0, dir_name = ''/music''\<rparr>,
       \<lparr>db_id = 2, parent_id = 1, dir_name = ''Jazz''\<rparr>, \<lparr>db_id = 3, parent_id = 1, dir_name = ''Rock''\<rparr>,
       \<lparr>db_id = 4, parent_id = 2, dir_name = ''Davis''\<rparr>],
     songs := [new_song\<lparr>db_id := 1, dir_id := 4, file_name := ''a.mp3''\<rparr>,
       new_song\<lparr>db_id := 2, dir_id := 3, file_name := ''b.mp3''\<rparr>]\<rparr>"

lemma tree_world_facts:
  "\<not> stale_cmd tree_world" "tree_ok (music_dirs tree_world)" "falling (music_dirs tree_world)"
  "rows_ok (songs tree_world)"
  by (simp_all add: tree_world_def empty_world_def tree_ok_def falling_def rows_ok_def parent_known_def
      row_lookup_def row_find_def new_song_def)

theorem path_of_directory_witness:
  "md_path \<lparr>db_id = 4, parent_id = 2, dir_name = ''Davis''\<rparr> tree_world = (Inr [''/music'', ''Jazz'', ''Davis''], tree_world)"
proof -
  let ?d = "\<lambda>i p n. \<lparr>db_id = i, parent_id = p, dir_name = n\<rparr> :: music_dir_obj"
  have rows: "row_lookup (music_dirs tree_world) 1 = Some (?d 1 0 ''/music'')"
    "row_lookup (music_dirs tree_world) 2 = Some (?d 2 1 ''Jazz'')"
    by (simp_all add: tree_world_def row_lookup_def row_find_def)
  note path = path_of_directory [OF tree_world_facts(1,2)]
  have "md_path (?d 1 0 ''/music'') tree_world = (Inr [''/music''], tree_world)"
    using path [of "?d 1 0 ''/music''"] by (auto simp: parent_known_def is_root_def)
  then have "md_path (?d 2 1 ''Jazz'') tree_world = (Inr [''/music'', ''Jazz''], tree_world)"
    using path [of "?d 2 1 ''Jazz''"] rows(1) by (auto simp: parent_known_def is_root_def)
  then show ?thesis
    using path [of "?d 4 2 ''Davis''"] rows(2) by (auto simp: parent_known_def is_root_def)
qed

lemma below_leaf: "\<forall>x \<in> set t. parent_id x \<noteq> i \<Longrightarrow> below t i = {i}"
  by (subst below_unfold) auto

theorem destroy_removes_subtree_witness:
  "map dir_name (music_dirs (snd (md_destroy \<lparr>db_id = 2, parent_id = 1, dir_name = ''Jazz''\<rparr> tree_world))) =
     [''/music'', ''Rock''] \<and>
   map file_name (songs (snd (md_destroy \<lparr>db_id = 2, parent_id = 1, dir_name = ''Jazz''\<rparr> tree_world))) = [''b.mp3'']"
proof -
  let ?t = "music_dirs tree_world"
  have leaf: "below ?t 4 = {4}" by (rule below_leaf) (simp add: tree_world_def)
  have "below ?t 2 = insert 2 (\<Union>c \<in> {x \<in> set ?t. parent_id x = 2}. below ?t (db_id c))" by (rule below_unfold)
  also have "{x \<in> set ?t. parent_id x = 2} = {\<lparr>db_id = 4, parent_id = 2, dir_name = ''Davis''\<rparr>}"
    by (auto simp: tree_world_def)
  finally have sub: "below ?t 2 = {2, 4}" by (simp add: leaf)
  have gone: "md_destroy \<lparr>db_id = 2, parent_id = 1, dir_name = ''Jazz''\<rparr> tree_world = (Inr (), tree_world\<lparr>
      music_dirs := filter (\<lambda>x. db_id x \<notin> {2, 4}) ?t, songs := filter (\<lambda>s. dir_id s \<notin> {2, 4}) (songs tree_world)\<rparr>)"
    using destroy_removes_subtree [OF tree_world_facts(1,3,4), of "\<lparr>db_id = 2, parent_id = 1, dir_name = ''Jazz''\<rparr>"]
    by (simp add: sub)
  show ?thesis unfolding gone by (simp add: tree_world_def empty_world_def new_song_def)
qed

end
