(* ===== verification/Scan.thy ===== *)
theory Scan
  imports Directories
begin

text \<open>
  What a scan of the disk does to the library: properties that every operation on the way keeps,
  and why a fresh library stays empty.
\<close>

section \<open>Walks that change nothing\<close>

lemma keeps_catch [keeps_intros]: "keeps I m \<Longrightarrow> keeps I (catch_file_error m)"
proof -
  have "snd (catch_file_error m w) = snd (m w)" for w
    by (simp add: catch_file_error_def split: prod.split sum.split exn.split)
  moreover assume "keeps I m"
  ultimately show ?thesis unfolding keeps_def by (metis snd_conv prod.collapse)
qed

lemma reads_loads:
  "reads (md_load i)" "reads (md_children_of i)" "reads (md_songs d)" "reads (create_root n)"
  "reads (load_row tab P)"
  by (auto simp: reads_def md_load_def md_children_of_def md_songs_def create_root_def load_row_def sql_load_def)

lemma reads_names_upward: "reads (names_upward n d)"
  by (induction n arbitrary: d) (auto intro!: reads_bindE simp: reads_simple reads_loads)

lemma reads_md_path: "reads (md_path d)"
  unfolding md_path_def by (intro reads_bindE reads_simple reads_names_upward)

lemmas keeps_reads [keeps_intros] = reads_loads [THEN reads_keeps] reads_md_path [THEN reads_keeps]

section \<open>A scan keeps what its elementary operations keep\<close>

text \<open>
  The interface of a scan to the tables: a property that storing a directory, deleting a row of a
  directory or a song, and recording a song keep, is kept by a scan.
\<close>

locale scan_invariant =
  fixes I :: "world \<Rightarrow> bool"
  assumes save_dir: "keeps I (md_save d)"
    and drop_dir: "keeps I (dir_row_destroy d)"
    and drop_song: "keeps I (song_destroy s)"
    and record_song: "keeps I (song_create_from_file fs d n)"
begin

lemma keeps_save_if_needed: "keeps I (md_save_if_needed d)"
  unfolding md_save_if_needed_def by (intro keeps_intros save_dir)

lemma keeps_destroy_below: "keeps I (destroy_below n d)"
  by (induction n arbitrary: d) (auto intro!: keeps_intros drop_dir drop_song)

lemma keeps_destroy: "keeps I (md_destroy d)"
  unfolding md_destroy_def by (intro keeps_intros keeps_destroy_below)

lemma keeps_sync_entries: "(\<And>c. keeps I (child c)) \<Longrightarrow> keeps I (sync_entries child fs d p leaves ds ss)"
proof (induction leaves arbitrary: ds ss)
  case (Cons leaf leaves)
  then show ?case
    unfolding sync_entries.simps by (intro keeps_intros save_dir record_song) simp_all
qed (simp add: keeps_intros)

lemma keeps_sync_step: "(\<And>c. keeps I (child c)) \<Longrightarrow> keeps I (sync_step child fs d)"
  unfolding sync_step_def
  by (intro keeps_intros keeps_sync_entries keeps_destroy drop_song)

lemma keeps_sync_levels: "keeps I (sync_levels n fs d)"
proof (induction n arbitrary: d)
  case 0
  then show ?case unfolding sync_levels.simps by (intro keeps_intros keeps_save_if_needed)
next
  case (Suc n)
  then show ?case unfolding sync_levels.simps by (intro keeps_intros keeps_save_if_needed keeps_sync_step)
qed

lemma keeps_rescan: "keeps I (rescan fs dirs)"
  unfolding rescan_def init_music_dir_def md_sync_def by (intro keeps_intros keeps_sync_levels)

end

section \<open>A fresh library\<close>

definition no_songs_yet :: "song_obj set \<Rightarrow> world \<Rightarrow> bool" where
  "no_songs_yet S w = (artists w = [] \<and> set (songs w) \<subseteq> S)"

lemma unknown_artist:
  assumes "\<not> stale_cmd w" "\<forall>a \<in> set (artists w). obj_name a \<noteq> store_text w n"
  shows "artist_find_or_create n w = (Inl (Sqlite_not_found '' failed''), w)"
  using assms
  by (simp add: artist_find_or_create_def or_create_def load_row_simps load_one_def row_find_None [THEN iffD2])

lemma keeps_creation:
  assumes "\<And>d. keeps I (md_save d)" "\<And>n (k :: named_obj \<Rightarrow> (world, song_obj) eff). keeps I (bindE (artist_find_or_create n) k)"
  shows "keeps I (song_create_from_file fs d f)"
proof -
  have "keeps I (case fs_tag fs p of None \<Rightarrow> throw Abort
      | Some t \<Rightarrow> bindE (artist_find_or_create (tag_artist t)) (k t))" for p and k :: "tag \<Rightarrow> named_obj \<Rightarrow> (world, song_obj) eff"
    by (cases "fs_tag fs p") (simp_all add: assms(2) keeps_simple)
  then show ?thesis
    unfolding song_create_from_file_def md_save_if_needed_def Let_def
    by (intro keeps_bindE keeps_if keeps_simple keeps_reads assms(1))
qed

lemma no_artist:
  "artists w = [] \<Longrightarrow> \<exists>e. bindE (artist_find_or_create n) k w = (Inl e, w)"
  by (cases "stale_cmd w")
     (simp_all add: artist_find_or_create_def or_create_def load_row_def sql_load_def load_one_def row_find_def bindE_def)

interpretation fresh: scan_invariant "no_songs_yet S" for S
proof unfold_locales
  show "keeps (no_songs_yet S) (md_save d)" for d
    unfolding md_save_def by (rule keeps_save_row) (simp_all add: no_songs_yet_def)
  then show "keeps (no_songs_yet S) (song_create_from_file fs d n)" for fs d n
  proof (rule keeps_creation)
    show "keeps (no_songs_yet S) (bindE (artist_find_or_create m) k)" for m and k :: "named_obj \<Rightarrow> (world, song_obj) eff"
      unfolding keeps_def no_songs_yet_def using no_artist by (metis prod.inject)
  qed
  show "keeps (no_songs_yet S) (dir_row_destroy d)" for d
    unfolding dir_row_destroy_def by (intro keeps_intros keeps_sql_exec) (simp_all add: no_songs_yet_def)
  show "keeps (no_songs_yet S) (song_destroy s)" for s
    unfolding song_destroy_def
    by (intro keeps_intros keeps_sql_exec) (auto simp: no_songs_yet_def destroy_obj_def row_del_def row_delete_def)
qed


definition one_file_disk :: filesystem where
  "one_file_disk = \<lparr>fs_exists = (\<lambda>p. True), fs_entries = (\<lambda>p. Some [''a.mp3'']), fs_is_dir = (\<lambda>p. False),
     fs_tag = (\<lambda>p. Some \<lparr>tag_title = ''So What'', tag_artist = ''Miles Davis'', tag_album = ''Kind of Blue'',
        tag_track = 1, tag_year = 1959, tag_audio = None\<rparr>), fs_bytes = (\<lambda>p. None)\<rparr>"


end
