(* ===== verification/Startup.thy ===== *)
theory Startup
  imports Site
begin

text \<open>
  The start of the program: \<open>check_and_create_tables\<close> (\<open>libs/sqlite/check_tables.cpp\<close>) with what
  the tables of users and playlists do when they were checked (\<open>libs/spinny/user.cpp\<close>,
  \<open>libs/spinny/playlist.cpp\<close>), then the scan of the music directories (\<open>App::run\<close>). The tables
  register themselves while the program is loaded, in an order that is not fixed: it is an argument.
\<close>

section \<open>Checking the tables\<close>

definition users_checked :: "(world, unit) eff" where
  "users_checked =
     bindE (getS (\<lambda>w. length (users w))) (\<lambda>n.
     if n = 0 then
       bindE (getS (\<lambda>w. user_create w ''Admin'' ''admin'')) (\<lambda>u.
       bindE (user_save (set_role (role_int AdminRole) u)) (\<lambda>_. ret ()))
     else ret ())"

definition playlists_checked :: "(world, unit) eff" where
  "playlists_checked =
     bindE (getS (\<lambda>w. length (playlists w))) (\<lambda>n.
     if n = 0 then
       bindE (pl_create ''All Songs'' ''All the songs in your library'') (\<lambda>p.
       bindE (pl_save p) (\<lambda>_. ret ()))
     else ret ())"

definition checked_callback :: "description \<Rightarrow> (world, unit) eff" where
  "checked_callback d =
     (if d = user_desc then users_checked
      else if d = pl_desc then playlists_checked
      else ret ())"

definition check_table :: "description \<Rightarrow> (world, unit) eff" where
  "check_table d =
     bindE (sql_exec (\<lambda>w. (Inr (table_name d \<in> set (catalog w)), w))) (\<lambda>exists.
     bindE (if exists then ret ()
            else sql_exec (\<lambda>w. (Inr (), w\<lparr>catalog := catalog w @ [table_name d]\<rparr>))) (\<lambda>_.
     checked_callback d))"

definition check_and_create_tables :: "description list \<Rightarrow> (world, unit) eff" where
  "check_and_create_tables ds = forE ds check_table"

text \<open>The part of \<open>App::run\<close> that works on the stored data; the server thread is started between the two.\<close>

definition app_run :: "description list \<Rightarrow> filesystem \<Rightarrow> string list \<Rightarrow> (world, unit) eff" where
  "app_run ds fs dirs = bindE (check_and_create_tables ds) (\<lambda>_. rescan fs dirs)"

section \<open>What it leaves\<close>

text \<open>The state one step leaves when no statement is left in the command buffer.\<close>

definition first_admin :: "world \<Rightarrow> user_obj" where
  "first_admin w = norm_user w (set_role (role_int AdminRole) (user_create w ''Admin'' ''admin''))"

definition first_playlist :: "world \<Rightarrow> playlist_obj" where
  "first_playlist w = norm_playlist w (new_playlist\<lparr>pl_name := ''All Songs'',
     pl_description := ''All the songs in your library'', pl_present_order := 0\<rparr>)"

definition after_check :: "description \<Rightarrow> world \<Rightarrow> world" where
  "after_check d w = w\<lparr>
     catalog := (if table_name d \<in> set (catalog w) then catalog w else catalog w @ [table_name d]),
     users := (if d = user_desc \<and> users w = [] then row_insert (first_admin w) [] else users w),
     playlists := (if d = pl_desc \<and> playlists w = [] then row_insert (first_playlist w) [] else playlists w)\<rparr>"

lemma users_not_playlists [simp]: "user_desc \<noteq> pl_desc" "pl_desc \<noteq> user_desc"
  by (simp_all add: user_desc_def pl_desc_def)

lemma check_table_ready:
  assumes "\<not> stale_cmd w"
  shows "check_table d w = (Inr (), after_check d w)"
proof (cases "table_name d \<in> set (catalog w)")
  case True
  with assms show ?thesis
    by (simp add: check_table_def checked_callback_def users_checked_def playlists_checked_def after_check_def
        user_save_ready save_obj_def pl_create_def pl_save_def save_row_def bindE_def first_admin_def
        first_playlist_def set_role_def user_create_def new_playlist_def norm_playlist_def norm_user_def)
next
  case False
  with assms show ?thesis
    by (simp add: check_table_def checked_callback_def users_checked_def playlists_checked_def after_check_def
        user_save_ready save_obj_def pl_create_def pl_save_def save_row_def bindE_def first_admin_def
        first_playlist_def set_role_def user_create_def new_playlist_def norm_playlist_def norm_user_def)
qed

lemma after_check_stale [simp]: "stale_cmd (after_check d w) = stale_cmd w"
  by (simp add: after_check_def)

lemma check_all_ready:
  "\<not> stale_cmd w \<Longrightarrow> check_and_create_tables ds w = (Inr (), fold after_check ds w)"
  by (induction ds arbitrary: w) (simp_all add: check_and_create_tables_def check_table_ready)

text \<open>A table that was checked stays checked, and checking it again does nothing.\<close>

definition is_checked :: "world \<Rightarrow> description \<Rightarrow> bool" where
  "is_checked w d = (table_name d \<in> set (catalog w) \<and>
     (d = user_desc \<longrightarrow> users w \<noteq> []) \<and> (d = pl_desc \<longrightarrow> playlists w \<noteq> []))"

lemma after_check_checked: "is_checked w d \<Longrightarrow> after_check d w = w"
  by (auto simp: is_checked_def after_check_def)

lemma checked_after: "is_checked (after_check d w) d" "is_checked w e \<Longrightarrow> is_checked (after_check d w) e"
  by (auto simp: is_checked_def after_check_def row_insert_def)

lemma all_checked:
  "(\<forall>e. is_checked w e \<longrightarrow> is_checked (fold after_check ds w) e) \<and> (\<forall>d \<in> set ds. is_checked (fold after_check ds w) d)"
proof (induction ds arbitrary: w)
  case (Cons d ds)
  then show ?case using checked_after by simp
qed simp

lemma fold_checked: "\<forall>d \<in> set ds. is_checked w d \<Longrightarrow> fold after_check ds w = w"
  by (induction ds) (simp_all add: after_check_checked)

text \<open>
  C28: checking the tables never fails, afterwards every registered table is there, and another
  start of the program changes nothing: no table is created twice, and no second administrator or
  list of all songs appears.
\<close>

theorem startup_is_idempotent:
  assumes "\<not> stale_cmd w" "check_and_create_tables ds w = (r, w')"
  shows "r = Inr () \<and> (\<forall>d \<in> set ds. table_name d \<in> set (catalog w')) \<and>
    check_and_create_tables ds w' = (Inr (), w')"
proof -
  have w': "r = Inr ()" "w' = fold after_check ds w" using assms by (simp_all add: check_all_ready)
  have all: "\<forall>d \<in> set ds. is_checked w' d" using all_checked w'(2) by simp
  then have "\<forall>d \<in> set ds. table_name d \<in> set (catalog w')" by (simp add: is_checked_def)
  moreover have "\<not> stale_cmd w'"
  proof -
    have "stale_cmd (fold after_check ds w) = stale_cmd w" for ds w
      by (induction ds arbitrary: w) simp_all
    then show ?thesis using assms(1) w'(2) by simp
  qed
  ultimately show ?thesis using w'(1) all by (simp add: check_all_ready fold_checked)
qed

lemma fold_after_check:
  assumes "fold after_check ds w = w'"
  shows "users w' = (if user_desc \<in> set ds \<and> users w = [] then row_insert (first_admin w) [] else users w) \<and>
    playlists w' = (if pl_desc \<in> set ds \<and> playlists w = [] then row_insert (first_playlist w) [] else playlists w) \<and>
    w' = w\<lparr>catalog := catalog w', users := users w', playlists := playlists w'\<rparr>"
  using assms
proof (induction ds arbitrary: w)
  case (Cons d ds)
  let ?w = "after_check d w"
  have env: "first_admin ?w = first_admin w" "first_playlist ?w = first_playlist w"
    by (simp_all add: first_admin_def first_playlist_def after_check_def norm_user_def norm_playlist_def user_create_def
        set_role_def new_playlist_def)
  have later: "users w' = (if user_desc \<in> set ds \<and> users ?w = [] then row_insert (first_admin ?w) [] else users ?w)"
    "playlists w' = (if pl_desc \<in> set ds \<and> playlists ?w = [] then row_insert (first_playlist ?w) [] else playlists ?w)"
    "w' = ?w\<lparr>catalog := catalog w', users := users w', playlists := playlists w'\<rparr>"
    using Cons.IH [of ?w] Cons.prems by auto
  have "users ?w = (if d = user_desc \<and> users w = [] then row_insert (first_admin w) [] else users w)"
    "playlists ?w = (if d = pl_desc \<and> playlists w = [] then row_insert (first_playlist w) [] else playlists w)"
    by (simp_all add: after_check_def)
  moreover have "?w\<lparr>catalog := catalog w', users := users w', playlists := playlists w'\<rparr> =
      w\<lparr>catalog := catalog w', users := users w', playlists := playlists w'\<rparr>"
    by (simp add: after_check_def)
  ultimately show ?case using later env by (auto simp: row_insert_def)
qed simp


definition login_request :: request where
  "login_request = (site_request ''login'' ''validate'' None)
     \<lparr>varibles := [(''login'', [''Admin'']), (''pass'', [''admin''])]\<rparr>"

theorem startup_is_idempotent_witness:
  "check_and_create_tables all_descs (snd (check_and_create_tables all_descs empty_world)) =
     (Inr (), snd (check_and_create_tables all_descs empty_world))"
proof -
  have "\<not> stale_cmd empty_world" by (simp add: empty_world_def)
  from startup_is_idempotent [OF this, of all_descs] show ?thesis
    by (cases "check_and_create_tables all_descs empty_world") simp
qed


end
