(* ===== verification/Invariants.thy ===== *)
theory Invariants
  imports Session Scan Startup
begin

text \<open>
  What holds of the stored data in every state the server reaches, whatever its clients send: a
  property that the elementary changes of the program keep is kept by every handler, by the
  dispatcher, by the parser (which reads the user of a cookie) and by every step of the server.
\<close>

section \<open>Statements\<close>

text \<open>A table is changed legally when its rows stay valid: positive identifiers in ascending order.\<close>

definition legal :: "'a rows \<Rightarrow> 'a rows \<Rightarrow> bool" where
  "legal t t' = (rows_ok t \<longrightarrow> rows_ok t')"

lemma legal_save: "(\<And>x. db_id (f x) = db_id x) \<Longrightarrow> legal t (snd (save_obj f r t))"
  by (simp add: legal_def save_obj_def)

lemma legal_destroy: "legal t (snd (destroy_obj r t))"
  by (simp add: legal_def destroy_obj_def row_del_def)

lemma legal_update: "(\<And>r. P r \<Longrightarrow> db_id (f r) = db_id r) \<Longrightarrow> legal t (row_update P f t)"
  by (simp add: legal_def rows_ok_update)

text \<open>What the handlers are built from, for a property of the world behind the reply.\<close>

abbreviation behind :: "(world \<Rightarrow> bool) \<Rightarrow> reply \<times> world \<Rightarrow> bool" where
  "behind I \<equiv> \<lambda>s. I (snd s)"

lemma keeps_db [keeps_intros]: "keeps I m \<Longrightarrow> keeps (behind I) (db m)"
  by (auto simp: keeps_def db_def split: prod.splits)

lemma keeps_reply [keeps_intros]:
  "keeps (behind I) (out f)" "keeps (behind I) (put_text t)" "keeps (behind I) (hdf k v)" "keeps (behind I) (check x)"
  "keeps (behind I) (cast_or_throw y)" "keeps (behind I) (deref y)" "keeps (behind I) (put_comma c)"
  by (auto simp: keeps_def out_def put_text_def hdf_def check_def cast_or_throw_def deref_def put_comma_def bindE_def
      split: prod.splits option.splits)

lemma keeps_single [keeps_intros]: "keeps (behind I) (single_id req n)" "keeps (behind I) (single_uint req n)"
  unfolding single_id_def single_uint_def by (intro keeps_intros)+

lemma keeps_with_rows [keeps_intros]: "(\<And>x. keeps (behind I) (f x)) \<Longrightarrow> keeps (behind I) (with_rows c xs f)"
  by (induction c xs f rule: with_rows.induct) (auto intro!: keeps_intros)

section \<open>The interface\<close>

text \<open>
  The changes of the program to its stored data while it serves requests: rows of users, playlists
  and their entries, the object and the order of the complete list, and the command buffer.
\<close>

locale request_invariant =
  fixes I :: "world \<Rightarrow> bool"
  assumes stale: "I w \<Longrightarrow> I (w\<lparr>stale_cmd := b\<rparr>)"
    and users_change: "I w \<Longrightarrow> legal (users w) t \<Longrightarrow> I (w\<lparr>users := t\<rparr>)"
    and playlists_change: "I w \<Longrightarrow> legal (playlists w) u \<Longrightarrow> I (w\<lparr>playlists := u\<rparr>)"
    and entries_change: "I w \<Longrightarrow> legal (playlist_songs w) v \<Longrightarrow> I (w\<lparr>playlist_songs := v\<rparr>)"
    and complete_change: "I w \<Longrightarrow> I (w\<lparr>complete_obj := p\<rparr>)" "I w \<Longrightarrow> I (w\<lparr>complete_order := x\<rparr>)"
begin

lemma keeps_exec: "(\<And>w. I w \<Longrightarrow> I (snd (m w))) \<Longrightarrow> keeps I (sql_exec m)"
  by (intro keeps_sql_exec stale)

lemma keeps_read: "(\<And>w. snd (m w) = w) \<Longrightarrow> keeps I (sql_exec m)" "(\<And>w. snd (m w) = w) \<Longrightarrow> keeps I (sql_load m)"
  by (auto intro!: keeps_exec) (auto simp: keeps_def sql_load_def split: if_splits, metis snd_conv)

lemma keeps_read_fails: "keeps I sql_load_fails"
  by (auto simp: keeps_def sql_load_fails_def intro: stale)

lemmas keeps_reading = keeps_read(1) keeps_read(2) keeps_read_fails

lemma keeps_library:
  "keeps I (song_load i)" "keeps I (md_load i)" "keeps I (artist_load i)" "keeps I (album_load i)"
  "keeps I artist_count" "keeps I album_count" "keeps I song_count" "keeps I artist_all" "keeps I album_all"
  "keeps I (artist_songs a)" "keeps I (album_songs a)" "keeps I (artist_num_songs a)"
  "keeps I (artist_name_starts_with n)" "keeps I (artist_albums a)" "keeps I (song_find n x y)"
  "keeps I (song_num_matching n)" "keeps I (md_children_of i)" "keeps I (md_songs d)" "keeps I md_roots"
  "keeps I (md_num_children d)" "keeps I (md_num_songs d)"
  unfolding song_load_def md_load_def artist_load_def album_load_def load_row_def artist_count_def album_count_def
    song_count_def artist_all_def album_all_def artist_songs_def album_songs_def artist_num_songs_def
    artist_name_starts_with_def artist_albums_def song_find_def song_num_matching_def md_children_of_def
    md_songs_def md_roots_def md_num_children_def md_num_songs_def
  by (rule keeps_reading; simp)+

lemma keeps_chars: "keeps I artist_starting_chars" "keeps I album_starting_chars"
  by (simp_all add: keeps_def artist_starting_chars_def album_starting_chars_def)

lemma keeps_album_num: "keeps I (album_num_songs al)"
  unfolding album_num_songs_def by (cases "snd al") (auto intro!: keeps_intros keeps_reading)

lemma keeps_or_reads:
  assumes "keeps I m" "\<And>w. k w = m w \<or> snd (k w) = w"
  shows "keeps I k"
proof -
  have "I w'" if "I w" "k w = (r, w')" for w r w'
    using assms(2) [of w] keepsD [OF assms(1) that(1)] that by (metis snd_conv)
  then show ?thesis by (simp add: keeps_def)
qed

lemma keeps_names: "keeps I (song_artist_name s)" "keeps I (song_album_name s)"
proof -
  have *: "keeps I (bindE (song_artist s) (\<lambda>a. ret (obj_name a)))" "keeps I (bindE (song_album s) (\<lambda>a. ret (obj_name a)))"
    unfolding song_artist_def song_album_def by (intro keeps_intros keeps_library)+
  show "keeps I (song_artist_name s)"
    by (rule keeps_or_reads [OF *(1)]) (simp add: song_artist_name_def split: option.split)
  show "keeps I (song_album_name s)"
    by (rule keeps_or_reads [OF *(2)]) (simp add: song_album_name_def split: option.split)
qed

lemma keeps_users:
  "keeps I (user_save u)" "keeps I (user_destroy u)" "keeps I (update_access_time u)" "keeps I (with_ticket t)"
  "keeps I (with_login l)" "keeps I (user_load i)" "keeps I (user_list a b c d)" "keeps I (settings_get n)"
proof -
  show "keeps I (user_save u)"
    unfolding user_save_def by (intro keeps_save_row stale users_change legal_save) simp_all
  show "keeps I (user_destroy u)"
    unfolding user_destroy_def by (intro keeps_intros keeps_exec) (simp add: users_change legal_destroy)
  show "keeps I (update_access_time u)"
    unfolding update_access_time_def by (intro keeps_exec) (simp add: users_change legal_update)
  show "keeps I (with_ticket t)" "keeps I (with_login l)" "keeps I (user_load i)" "keeps I (user_list a b c d)"
    "keeps I (settings_get n)"
    unfolding with_ticket_def with_login_def user_load_def load_row_def user_list_def settings_get_def
    by (rule keeps_reading; simp add: Let_def)+
qed

lemma keeps_authen: "keeps I (authen u pass)"
proof -
  have "keeps I (bindE (user_save v) (\<lambda>u'. ret (True, u')))" for v
    by (intro keeps_intros keeps_users)
  from keepsD [OF this] show ?thesis by (auto simp: keeps_def authen_def split: if_splits)
qed

lemma keeps_entries: "(\<And>t. legal t (f t)) \<Longrightarrow> keeps I (update_entries f)"
  unfolding update_entries_def by (rule keeps_exec) (simp add: entries_change)

lemma legal_entries:
  "legal t (add_entry sid i pos t)" "legal t (shift_entries i pos k t)" "legal t (remove_shift i sid t)"
  "legal t (row_delete P t)"
  by (auto simp: legal_def add_entry_def rows_ok_shift remove_shift_def split: option.split)

lemma keeps_insert_entries: "keeps I (insert_entries i sids pos)"
proof (induction i sids pos rule: insert_entries.induct)
  case (2 i sid sids pos)
  then show ?case unfolding insert_entries.simps by (intro keeps_intros keeps_entries legal_entries)
next
  case 1
  show ?case unfolding insert_entries.simps by (rule keeps_simple)
qed

lemma keeps_insert_songs: "keeps I (pl_insert_songs i ss pos)" "keeps I (pl_insert_song i s pos)"
  unfolding pl_insert_songs_def pl_insert_song_def
  by (intro keeps_intros keeps_entries legal_entries keeps_insert_entries)+

lemma keeps_ordered:
  "keeps I (pl_songs p start limit)" "keeps I (complete_songs start limit)"
proof -
  show "keeps I (pl_songs p start limit)" "keeps I (complete_songs start limit)"
    by (rule keeps_or_reads [OF keeps_read_fails]; simp add: pl_songs_def complete_songs_def split: option.split)+
qed

lemma keeps_playlists:
  "keeps I (pl_load i)" "keeps I pl_all" "keeps I (pl_create a b)" "keeps I (pl_set_present_order i n)"
  "keeps I (pl_set_order r a c)" "keeps I (pl_save r)" "keeps I (complete_set_order a c)" "keeps I (ptr_put p r)"
  "keeps I (ptr_save p)" "keeps I (ptr_set_order p a c)" "keeps I (ptr_songs p x y)" "keeps I (ptr_size p)"
  "keeps I (pl_load_song i)" "keeps I (pl_set_song_order i j n)" "keeps I (pl_remove i j)"
  "keeps I (pl_insert_dir i d n)" "keeps I (pl_insert_artist i ar n)" "keeps I (pl_insert_playlist r p n)"
proof -
  show save: "keeps I (pl_save r)" for r
    unfolding pl_save_def by (intro keeps_save_row stale playlists_change legal_save) (simp_all add: norm_playlist_def)
  have mod: "keeps I (modS (\<lambda>w. w\<lparr>complete_obj := r\<rparr>))" "keeps I (modS (\<lambda>w. w\<lparr>complete_order := a\<rparr>))" for r a
    by (simp_all add: keeps_def complete_change)
  then show put: "keeps I (ptr_put p r)" for p r
    unfolding ptr_put_def by (cases p) (auto intro!: keeps_intros)
  show comp: "keeps I (complete_set_order a c)" for a c
    unfolding complete_set_order_def by (rule mod)
  show set: "keeps I (pl_set_order r a c)" for r a c
    unfolding pl_set_order_def Let_def by (intro keeps_intros save)
  show "keeps I (ptr_save p)" unfolding ptr_save_def by (intro keeps_intros save put)
  show "keeps I (ptr_set_order p a c)"
    unfolding ptr_set_order_def by (cases p) (auto intro!: keeps_intros comp set)
  show "keeps I (ptr_songs p x y)" unfolding ptr_songs_def by (cases p) (simp_all add: keeps_ordered)
  show size: "keeps I (ptr_size p)" for p
    unfolding ptr_size_def pl_size_def complete_size_def by (cases p) (auto intro!: keeps_reading)
  show "keeps I (pl_load i)" unfolding pl_load_def load_row_def by (intro keeps_intros keeps_reading) simp
  show "keeps I pl_all" "keeps I (pl_create a b)" "keeps I (pl_load_song i)"
    unfolding pl_all_def pl_create_def pl_load_song_def by (rule keeps_reading; simp split: list.split)+
  show "keeps I (pl_set_present_order i n)"
    unfolding pl_set_present_order_def by (rule keeps_exec) (simp add: playlists_change legal_update)
  show "keeps I (pl_set_song_order i j n)"
    unfolding pl_set_song_order_def by (rule keeps_entries) (simp add: legal_update)
  show "keeps I (pl_remove i j)"
    unfolding pl_remove_def by (intro keeps_intros keeps_entries legal_entries)
  show "keeps I (pl_insert_dir i d n)" "keeps I (pl_insert_artist i ar n)"
    unfolding pl_insert_dir_def pl_insert_artist_def by (intro keeps_intros keeps_library keeps_insert_songs)+
  show "keeps I (pl_insert_playlist r p n)"
    unfolding pl_insert_playlist_def
    by (intro keeps_intros size keeps_entries legal_entries keeps_insert_entries keeps_read) (simp split: option.split)
qed

lemmas keeps_ops = keeps_library keeps_chars keeps_album_num keeps_names keeps_users keeps_authen keeps_playlists
  keeps_insert_songs

section \<open>Handlers\<close>

lemma keeps_login: "keeps (behind I) (login_handle h req)"
  unfolding login_handle_def by (intro keeps_intros keeps_ops)

lemma keeps_files: "keeps (behind I) (files_handle h req)"
  unfolding files_handle_def Let_def by (intro keeps_intros keeps_ops)

lemma keeps_save_json: "keeps (behind I) (save_json_user j)"
  unfolding save_json_user_def Let_def by (intro keeps_intros keeps_ops)

lemma keeps_users_page: "keeps (behind I) (users_handle h req)"
proof -
  have "keeps (behind I) (users_list_handle req)"
    unfolding users_list_handle_def by (intro keeps_intros keeps_ops)
  moreover have "keeps (behind I) (users_save_handle h req)"
    unfolding users_save_handle_def Let_def
    by (auto split: option.split json.split intro!: keeps_intros keeps_save_json)
  moreover have "keeps (behind I) (requireAuth u r)" for u r
    unfolding requireAuth_def by (intro keeps_intros)
  ultimately show ?thesis
    unfolding users_handle_def by (intro keeps_intros keeps_ops)
qed

lemma keeps_info: "keeps (behind I) (info_handle h req)"
  unfolding info_handle_def info_find_handle_def song_artist_def by (intro keeps_intros keeps_ops)

lemma keeps_song: "keeps (behind I) (song_handle h req)"
proof -
  have "keeps I (song_path s)" for s
    unfolding song_path_def by (intro keeps_intros keeps_ops)
  then show ?thesis unfolding song_handle_def by (intro keeps_intros keeps_ops)
qed

lemma keeps_xspf: "keeps (behind I) (xspf_handle h req)"
proof -
  have "keeps (behind I) (xspf_song req ns)" for ns
    unfolding xspf_song_def Let_def by (intro keeps_intros keeps_ops)
  then show ?thesis unfolding xspf_handle_def by (intro keeps_intros keeps_ops)
qed

lemma keeps_digit_names: "(\<And>i n. keeps (behind I) (f i n)) \<Longrightarrow> keeps (behind I) (for_digit_names req f)"
  unfolding for_digit_names_def by (intro keeps_intros)

lemma keeps_add_songs: "keeps (behind I) (add_songs p ts pos)"
proof (induction p ts pos rule: add_songs.induct)
  case (2 p t ts pos)
  then show ?case unfolding add_songs.simps by (intro keeps_intros keeps_ops)
next
  case 1
  show ?case unfolding add_songs.simps by (rule keeps_simple)
qed

lemma keeps_pl_songs_page: "keeps (behind I) (pl_songs_handle req)"
proof -
  have "keeps (behind I) (add_something p kind i pos)" for p kind i pos
    unfolding add_something_def by (intro keeps_intros keeps_ops)
  moreover have "keeps (behind I) (song_line s)" for s
    unfolding song_line_def by (intro keeps_intros keeps_ops)
  then have "keeps (behind I) (pl_list_songs req p)" for p
    unfolding pl_list_songs_def by (intro keeps_intros keeps_ops)
  ultimately show ?thesis
    unfolding pl_songs_handle_def by (intro keeps_intros keeps_ops keeps_digit_names keeps_add_songs)
qed

lemma keeps_pl: "keeps (behind I) (pl_handle h req)"
proof -
  have "keeps (behind I) pl_list_handle"
    unfolding pl_list_handle_def pl_line_def by (intro keeps_intros keeps_ops)
  moreover have "keeps (behind I) (pl_update_handle req)"
    unfolding pl_update_handle_def Let_def by (intro keeps_intros keeps_ops)
  ultimately show ?thesis
    unfolding pl_handle_def by (intro keeps_intros keeps_ops keeps_digit_names keeps_pl_songs_page)
qed

lemma keeps_index: "keeps (behind I) (index_handle h req)"
proof -
  have dirs: "keeps (behind I) (hdf_dir nd)" for nd
    unfolding hdf_dir_def Let_def by (intro keeps_intros keeps_ops)
  have "keeps (behind I) hdf_insert_dirs"
    unfolding hdf_insert_dirs_def hdf_song_def by (intro keeps_intros keeps_ops dirs)
  moreover have "keeps (behind I) hdf_insert_albums" "keeps (behind I) hdf_insert_artists"
    unfolding hdf_insert_albums_def hdf_insert_artists_def hdf_char_def by (intro keeps_intros keeps_ops)+
  ultimately show ?thesis
    unfolding index_handle_def by (intro keeps_intros keeps_ops)
qed

lemma keeps_tree: "keeps (behind I) (tree_handle h req)"
proof -
  have dirs: "keeps (behind I) (tree_dirs c ds)" for c ds
  proof (induction c ds rule: tree_dirs.induct)
    case (2 c d ds)
    then show ?case unfolding tree_dirs.simps by (intro keeps_intros keeps_ops)
  next
    case 1
    show ?case unfolding tree_dirs.simps by (rule keeps_simple)
  qed
  have "keeps (behind I) (tree_dir_handle req)"
    unfolding tree_dir_handle_def tree_song_def
    by (intro keeps_intros keeps_ops dirs)
  moreover have "keeps (behind I) (tree_tag_handle req)"
    unfolding tree_tag_handle_def tree_song_def tree_artist_def tree_album_def tree_starting_artist_def Let_def
    by (intro keeps_intros keeps_ops)
  ultimately show ?thesis
    unfolding tree_handle_def by (intro keeps_intros keeps_ops)
qed

section \<open>Requests and steps of the server\<close>

lemma keeps_mk:
  assumes "\<And>req. keeps (behind I) (f req)" "I w" "try_handler (mk_handler n p f) req rep w = (r, rep', w')"
  shows "I w'"
proof -
  obtain x rep1 w1 where f: "f req (rep, w) = (x, rep1, w1)" by (rule prod_cases3)
  from keepsD [OF assms(1) _ f] assms(2) have "I w1" by simp
  moreover have "w' = w1"
    using assms(3) f by (auto simp: try_mk split: sum.splits request_status.splits if_splits)
  ultimately show ?thesis by simp
qed

lemma try_linked:
  assumes "hd' \<in> set (concat (map (link_up h) phases))" "I w" "try_handler hd' req rep w = (r, rep', w')"
  shows "I w'"
proof -
  note keeps_mk [OF _ assms(2), of _ _ _ req rep r rep' w']
  note each = this [OF keeps_login] this [OF keeps_users_page] this [OF keeps_xspf] this [OF keeps_song] this [OF keeps_pl]
    this [OF keeps_index] this [OF keeps_tree] this [OF keeps_info] this [OF keeps_files]
  from assms(1,3) show ?thesis
    unfolding linked_handlers by (auto dest: each)
qed

lemma run_linked:
  assumes "set hs \<subseteq> set (concat (map (link_up h) phases))"
  shows "I w \<Longrightarrow> run_handlers hs req rep w = (r, rep', w') \<Longrightarrow> I w'"
  using assms
proof (induction hs arbitrary: rep w)
  case (Cons x hs)
  obtain y rep1 w1 where t: "try_handler x req rep w = (y, rep1, w1)" by (rule prod_cases3)
  have "x \<in> set (concat (map (link_up h) phases))" using Cons.prems(3) by (metis list.set_intros(1) subsetD)
  from try_linked [OF this Cons.prems(1) t] have w1: "I w1" .
  show ?case
  proof (cases "y = Inr Continue")
    case True
    with Cons.prems t have "run_handlers hs req rep1 w1 = (r, rep', w')" by simp
    with w1 Cons show ?thesis by simp
  next
    case False
    with Cons.prems t have "w' = w1" by (auto split: sum.splits request_status.splits)
    with w1 show ?thesis by simp
  qed
qed simp

lemma keeps_request:
  assumes "I w" "handle_request (link_up h) req rep w = (r, rep', w')"
  shows "I w'"
proof -
  obtain y rep1 w1 where p: "run_phases phases (link_up h) req rep w = (y, rep1, w1)" by (rule prod_cases3)
  then have w1: "I w1" using run_linked [OF subset_refl assms(1)] unfolding run_site by blast
  show ?thesis
  proof (cases "\<exists>u. w' = snd (update_access_time u w1)")
    case True
    then obtain u where "w' = snd (update_access_time u w1)" ..
    with keepsD [OF keeps_users(3) w1] show ?thesis by (metis prod.collapse)
  next
    case False
    with assms(2) p have "w' = w1"
      by (auto simp: handle_request_def Let_def split: sum.splits option.splits prod.splits) (metis snd_conv)+
    with w1 show ?thesis by simp
  qed
qed

lemma keeps_decode:
  assumes "I w" "perform_final_decode r w = (res, r', w')"
  shows "I w'"
proof -
  have "w' = w \<or> (\<exists>t. w' = snd (with_ticket t w))"
    using assms(2)
    by (auto simp: perform_final_decode_def read_cookies_def Let_def split: prod.splits sum.splits exn.splits if_splits)
      (metis snd_conv)+
  with assms(1) keepsD [OF keeps_users(4) assms(1)] show ?thesis by (metis prod.collapse)
qed

lemma keeps_parse:
  "I w \<Longrightarrow> parse bytes p r w = (res, p', r', w') \<Longrightarrow> I w'"
proof (induction bytes arbitrary: p r)
  case (Cons c bytes)
  then show ?case
    by (auto simp del: consume.simps split: prod.splits sum.splits tribool.splits dest: keeps_decode)
qed simp

lemma keeps_read_bytes:
  assumes "I (srv_world s)"
  shows "I (srv_world (read_bytes st (link_up h) i c bytes s))"
proof -
  obtain res p r w where y: "parse bytes (c_parser c) (c_request c) (srv_world s) = (res, p, r, w)"
    by (cases "parse bytes (c_parser c) (c_request c) (srv_world s)")
  have w: "I w" by (rule keeps_parse [OF assms y])
  obtain x rep w1 where z: "handle_request (link_up h) r (c_reply c) w = (x, rep, w1)" by (rule prod_cases3)
  have "I w1" by (rule keeps_request [OF w z])
  with w y z show ?thesis
    by (auto simp: read_bytes_def start_write_def Let_def split: sum.splits prod.splits tribool.splits)
qed

lemma keeps_step:
  assumes "server_step st (link_up h) s s'" "I (srv_world s)"
  shows "I (srv_world s')"
  using assms
proof cases
  case (Read i c e)
  with assms(2) show ?thesis
    by (cases e) (simp_all add: conn_handle_read_def keeps_read_bytes manager_stop_def manager_remove_def split: option.split)
next
  case (Write i c out e)
  with assms(2) show ?thesis
    by (cases e) (simp_all add: conn_handle_write_def manager_stop_def manager_remove_def split: option.split)
qed (simp_all add: server_handle_accept_def manager_start_def server_handle_stop_def manager_stop_all_def Let_def
    split: option.split)

lemma reachable_world:
  assumes "reachable st (link_up h) w0 s" "I w0"
  shows "I (srv_world s)"
  using assms
proof induction
  case Start
  then show ?case by (simp add: start_server_def)
next
  case (Step s s')
  then show ?case using keeps_step by blast
qed

end

section \<open>Valid tables\<close>

definition tables_ok :: "world \<Rightarrow> bool" where
  "tables_ok w = (rows_ok (songs w) \<and> rows_ok (albums w) \<and> rows_ok (artists w) \<and> rows_ok (music_dirs w) \<and>
     rows_ok (playlists w) \<and> rows_ok (playlist_songs w) \<and> rows_ok (users w) \<and> rows_ok (settings w))"

interpretation valid: request_invariant tables_ok
  by unfold_locales (auto simp: tables_ok_def legal_def)

lemma tables_ok_change:
  "tables_ok w \<Longrightarrow> tables_ok (w\<lparr>stale_cmd := b\<rparr>)" "tables_ok w \<Longrightarrow> tables_ok (w\<lparr>catalog := c\<rparr>)"
  "tables_ok w \<Longrightarrow> legal (songs w) t \<Longrightarrow> tables_ok (w\<lparr>songs := t\<rparr>)"
  "tables_ok w \<Longrightarrow> legal (music_dirs w) d \<Longrightarrow> tables_ok (w\<lparr>music_dirs := d\<rparr>)"
  "tables_ok w \<Longrightarrow> legal (artists w) a \<Longrightarrow> tables_ok (w\<lparr>artists := a\<rparr>)"
  "tables_ok w \<Longrightarrow> legal (albums w) a \<Longrightarrow> tables_ok (w\<lparr>albums := a\<rparr>)"
  by (auto simp: tables_ok_def legal_def)

text \<open>A scan and the checks at the start keep the tables valid too.\<close>

interpretation valid_scan: scan_invariant tables_ok
proof unfold_locales
  show dir: "keeps tables_ok (md_save d)" for d
    unfolding md_save_def by (intro keeps_save_row tables_ok_change legal_save) (simp_all add: norm_dir_def)
  show "keeps tables_ok (dir_row_destroy d)" for d
    unfolding dir_row_destroy_def
    by (intro keeps_intros keeps_sql_exec tables_ok_change) (simp_all add: tables_ok_change legal_destroy)
  show "keeps tables_ok (song_destroy s)" for s
    unfolding song_destroy_def
    by (intro keeps_intros keeps_sql_exec tables_ok_change) (simp_all add: tables_ok_change legal_destroy)
  have named: "keeps tables_ok (artist_save a)" "keeps tables_ok (album_save a)" for a
    unfolding artist_save_def album_save_def
    by (intro keeps_save_row tables_ok_change legal_save; simp add: norm_named_def)+
  have song: "keeps tables_ok (song_save x)" for x
    unfolding song_save_def
    by (intro keeps_intros keeps_save_row keeps_sql_exec tables_ok_change legal_save) (simp_all add: norm_song_def)
  show "keeps tables_ok (song_create_from_file fs d n)" for fs d n
    unfolding song_create_from_file_def md_save_if_needed_def artist_find_or_create_def album_find_or_create_def
      or_create_def Let_def
    by (intro keeps_intros dir named song)
qed

lemma keeps_app_run: "keeps tables_ok (app_run ds fs dirs)"
proof -
  have "keeps tables_ok (sql_exec (\<lambda>w. (Inr (), w\<lparr>catalog := catalog w @ [t]\<rparr>)))"
    "keeps tables_ok (sql_exec (\<lambda>w. (Inr (t \<in> set (catalog w)), w)))" for t
    by (rule keeps_sql_exec; simp add: tables_ok_change)+
  then have "keeps tables_ok (check_table d)" for d
    unfolding check_table_def checked_callback_def users_checked_def playlists_checked_def
    by (intro keeps_intros valid.keeps_ops)
  then show ?thesis
    unfolding app_run_def check_and_create_tables_def by (intro keeps_intros valid_scan.keeps_rescan)
qed


lemma empty_world_tables: "tables_ok empty_world"
  by (simp add: tables_ok_def empty_world_def rows_ok_def)


section \<open>What requests can not change\<close>

definition same_library :: "world \<Rightarrow> world \<Rightarrow> bool" where
  "same_library w0 w = (songs w = songs w0 \<and> albums w = albums w0 \<and> artists w = artists w0 \<and>
     music_dirs w = music_dirs w0 \<and> settings w = settings w0 \<and> catalog w = catalog w0)"

interpretation library: request_invariant "same_library w0" for w0
  by unfold_locales (auto simp: same_library_def)

text \<open>
  C7: no client can change the library: in every state the server reaches, the songs, albums,
  artists, directories, settings and the schema are those it was started with. Only users,
  playlists and their entries change while it serves.
\<close>

theorem requests_keep_the_library:
  assumes "reachable st (link_up h) w0 s"
  shows "same_library w0 (srv_world s)"
  by (rule library.reachable_world [OF assms]) (simp add: same_library_def)

theorem requests_keep_the_library_witness:
  "same_library site_world (srv_world session_start)"
proof -
  have "reachable (host_site sample_host) (link_up sample_host) site_world session_start"
    unfolding session_start_def by (rule browse_reachable [OF site_serving(1)]) code_simp
  then show ?thesis by (rule requests_keep_the_library)
qed

end
