(* ===== verification/Sync.thy ===== *)
theory Sync
  imports Scan
begin

text \<open>
  A scan of a directory whose files the tag library can read and whose artists and albums are known:
  afterwards the rows below the directory are exactly what is on the disk. The proof follows the
  recursion; what it needs of a call for a subdirectory is its frame: only rows below that directory
  change.
\<close>

section \<open>Below a directory\<close>

lemma same_id:
  assumes "rows_ok t" "x \<in> set t" "y \<in> set t" "db_id x = db_id y"
  shows "x = y"
proof -
  have "Some x = Some y" using row_lookup_in [OF assms(1,2)] row_lookup_in [OF assms(1,3)] assms(4) by metis
  then show ?thesis by simp
qed

lemma falling_rows: "falling t \<Longrightarrow> rows_ok t"
  by (simp add: falling_def)

lemma below_ge:
  assumes "falling t" "e \<in> below t k"
  shows "k \<le> e"
  using assms(2) by induction (use fallingD [OF assms(1)] in \<open>force+\<close>)

lemma below_parent:
  assumes "falling t" "x \<in> set t" "db_id x \<in> below t k" "db_id x \<noteq> k"
  shows "parent_id x \<in> below t k"
  using assms(3)
proof cases
  case (Child y)
  with same_id [OF falling_rows [OF assms(1)] assms(2), of y] show ?thesis by simp
qed (use assms(4) in simp)

lemma below_trans: "e \<in> below t k \<Longrightarrow> k \<in> below t i \<Longrightarrow> e \<in> below t i"
  by (induction rule: below.induct) (auto intro: below.intros)

lemma below_child: "x \<in> set t \<Longrightarrow> parent_id x = i \<Longrightarrow> db_id x \<in> below t i"
  by (auto intro: below.intros)

lemma siblings_apart:
  assumes t: "falling t" and x: "x \<in> set t" "y \<in> set t" "parent_id x = parent_id y" "x \<noteq> y"
  shows "below t (db_id x) \<inter> below t (db_id y) = {}"
proof -
  have ne: "db_id x \<noteq> db_id y" using same_id [OF falling_rows [OF t] x(1,2)] x(4) by blast
  have "e \<notin> below t (db_id y)" if "e \<in> below t (db_id x)" for e
    using that
  proof induction
    case Self
    show ?case
    proof
      assume "db_id x \<in> below t (db_id y)"
      from below_parent [OF t x(1) this ne] have "db_id y \<le> parent_id y" using below_ge [OF t] x(3) by simp
      with fallingD [OF t x(2)] show False by simp
    qed
  next
    case (Child z)
    show ?case
    proof
      assume z: "db_id z \<in> below t (db_id y)"
      show False
      proof (cases "db_id z = db_id y")
        case True
        with Child x(2) have "z = y" using same_id [OF falling_rows [OF t]] by blast
        with Child.hyps(1) have "db_id x \<le> parent_id y" using below_ge [OF t] by simp
        with fallingD [OF t x(1)] x(3) show False by simp
      next
        case False
        with below_parent [OF t Child.hyps(2) z] Child.IH show False by simp
      qed
    qed
  qed
  then show ?thesis by blast
qed

section \<open>Frames\<close>

text \<open>
  What a change inside directory \<open>k\<close> leaves alone: the rows that are not strictly below it, the songs
  that are in no directory below it, and everything else that is stored.
\<close>

definition outer_dirs :: "int \<Rightarrow> music_dir_obj list \<Rightarrow> music_dir_obj set" where
  "outer_dirs k t = {x \<in> set t. db_id x \<notin> below t k - {k}}"

definition outer_songs :: "int \<Rightarrow> world \<Rightarrow> song_obj set" where
  "outer_songs k w = {s \<in> set (songs w). dir_id s \<notin> below (music_dirs w) k}"

definition frame :: "int \<Rightarrow> world \<Rightarrow> world \<Rightarrow> bool" where
  "frame k w w' = (outer_dirs k (music_dirs w') = outer_dirs k (music_dirs w) \<and> outer_songs k w' = outer_songs k w \<and>
     w'\<lparr>music_dirs := [], songs := []\<rparr> = w\<lparr>music_dirs := [], songs := []\<rparr>)"

lemma frame_refl: "frame k w w"
  by (simp add: frame_def)

lemma frame_rest:
  assumes "frame k w w'"
  shows "stale_cmd w' = stale_cmd w" "artists w' = artists w" "albums w' = albums w" "store_text w' = store_text w"
proof -
  have e: "w'\<lparr>music_dirs := [], songs := []\<rparr> = w\<lparr>music_dirs := [], songs := []\<rparr>" using assms by (simp add: frame_def)
  show "stale_cmd w' = stale_cmd w" "artists w' = artists w" "albums w' = albums w" "store_text w' = store_text w"
    using arg_cong [OF e, of stale_cmd] arg_cong [OF e, of artists] arg_cong [OF e, of albums]
      arg_cong [OF e, of store_text] by simp_all
qed

lemma frame_trans: "frame k w w1 \<Longrightarrow> frame k w1 w2 \<Longrightarrow> frame k w w2"
  by (simp add: frame_def)

definition kids :: "world \<Rightarrow> int \<Rightarrow> music_dir_obj set" where
  "kids w i = {x \<in> set (music_dirs w). parent_id x = i}"

definition songs_in :: "world \<Rightarrow> int \<Rightarrow> song_obj set" where
  "songs_in w i = {s \<in> set (songs w). dir_id s = i}"

definition alike :: "world \<Rightarrow> world \<Rightarrow> int \<Rightarrow> bool" where
  "alike w w' e = (kids w' e = kids w e \<and> songs_in w' e = songs_in w e)"

lemma outer_kids: "falling t \<Longrightarrow> x \<in> set t \<Longrightarrow> parent_id x \<notin> below t k \<Longrightarrow> x \<in> outer_dirs k t"
  using below_parent [of t x k] by (auto simp: outer_dirs_def)

lemma frame_alike:
  assumes "frame k w w'" "falling (music_dirs w)" "falling (music_dirs w')"
    "e \<notin> below (music_dirs w) k" "e \<notin> below (music_dirs w') k"
  shows "alike w w' e"
proof -
  have "x \<in> set (music_dirs w') \<longleftrightarrow> x \<in> set (music_dirs w)" if "parent_id x = e" for x
    using assms outer_kids [of "music_dirs w" x k] outer_kids [of "music_dirs w'" x k] that
    by (auto simp: frame_def outer_dirs_def)
  moreover have "s \<in> set (songs w') \<longleftrightarrow> s \<in> set (songs w)" if "dir_id s = e" for s
    using assms that by (auto simp: frame_def outer_songs_def)
  ultimately show ?thesis by (auto simp: alike_def kids_def songs_in_def)
qed

text \<open>A change below one child does not touch what is below another.\<close>

lemma frame_sibling:
  assumes f: "frame (db_id x) w w'" and t: "falling (music_dirs w)" "falling (music_dirs w')"
    and x: "x \<in> set (music_dirs w)" "y \<in> set (music_dirs w)" "parent_id x = parent_id y" "x \<noteq> y"
    and e: "e \<in> below (music_dirs w) (db_id y)"
  shows "alike w w' e"
proof -
  let ?t = "music_dirs w" and ?t' = "music_dirs w'" and ?k = "db_id x"
  have out: "z \<in> set ?t'" if "z \<in> set ?t" "parent_id z \<notin> below ?t ?k" for z
    using outer_kids [OF t(1) that] f by (auto simp: frame_def outer_dirs_def)
  have px: "parent_id x \<notin> below u ?k" if "falling u" for u
    using below_ge [OF that, of "parent_id x" ?k] fallingD [OF t(1) x(1)] by auto
  have x': "x \<in> set ?t'" and y': "y \<in> set ?t'" using out x px [OF t(1)] by simp_all
  have away: "e \<notin> below ?t ?k" using siblings_apart [OF t(1) x(1,2,3,4)] e by blast
  have "e \<notin> below ?t' ?k"
    using e
  proof induction
    case Self
    have "db_id y \<noteq> ?k" using same_id [OF falling_rows [OF t(1)] x(1,2)] x(4) by auto
    with below_parent [OF t(2) y'] px [OF t(2)] x(3) show ?case by auto
  next
    case (Child z)
    have zp: "parent_id z \<notin> below ?t ?k" using siblings_apart [OF t(1) x(1,2,3,4)] Child.hyps(1) by blast
    have z': "z \<in> set ?t'" by (rule out [OF Child.hyps(2) zp])
    show ?case
    proof (cases "db_id z = ?k")
      case True
      with same_id [OF falling_rows [OF t(2)] z' x'] have "z = x" by simp
      with Child.hyps(1) below_ge [OF t(1)] have "db_id y \<le> parent_id y" using x(3) by auto
      with fallingD [OF t(1) x(2)] show ?thesis by simp
    next
      case False
      with below_parent [OF t(2) z'] Child.IH show ?thesis by blast
    qed
  qed
  with frame_alike [OF f t away] show ?thesis by simp
qed

text \<open>A change below a directory is a change below its parent.\<close>

lemma below_kept:
  assumes "falling t" "outer_dirs k t \<subseteq> outer_dirs k t'" "e \<in> below t i" "e \<notin> below t k - {k}"
  shows "e \<in> below t' i"
  using assms(3,4)
proof induction
  case (Child z)
  then have z: "z \<in> set t'" using assms(2) by (auto simp: outer_dirs_def)
  have "parent_id z \<notin> below t k - {k}"
  proof
    assume p: "parent_id z \<in> below t k - {k}"
    then have "db_id z \<in> below t k" "k < db_id z"
      using Child.hyps(2) fallingD [OF assms(1) Child.hyps(2)] below_ge [OF assms(1), of "parent_id z" k]
      by (auto intro: below.intros)
    with Child.prems show False by simp
  qed
  with Child.IH z show ?case by (auto intro: below.intros)
qed (rule below.Self)

lemma outer_up:
  assumes t: "falling t" "falling t'" "outer_dirs (db_id x) t = outer_dirs (db_id x) t'" "x \<in> set t"
  shows "outer_dirs (parent_id x) t \<subseteq> outer_dirs (parent_id x) t'"
proof
  let ?k = "db_id x" and ?i = "parent_id x"
  have i: "?i < ?k" using fallingD [OF t(1,4)] by simp
  fix z assume z: "z \<in> outer_dirs ?i t"
  have "db_id z \<notin> below t ?k - {?k}"
  proof
    assume "db_id z \<in> below t ?k - {?k}"
    then have "db_id z \<in> below t ?i" "?k < db_id z"
      using below_trans [OF _ below_child [OF t(4) refl], of "db_id z"] below_ge [OF t(1), of "db_id z" ?k] by auto
    with z i show False by (auto simp: outer_dirs_def)
  qed
  with z have zk: "z \<in> outer_dirs ?k t" by (simp add: outer_dirs_def)
  then have z': "z \<in> set t'" "db_id z \<notin> below t' ?k - {?k}" using t(3) by (auto simp: outer_dirs_def)
  have "db_id z \<notin> below t' ?i - {?i}"
    using below_kept [OF t(2) _ _ z'(2), of t ?i] t(3) z by (auto simp: outer_dirs_def)
  with z' show "z \<in> outer_dirs ?i t'" by (simp add: outer_dirs_def)
qed

lemma outer_self: "x \<in> outer_dirs (db_id x) t \<longleftrightarrow> x \<in> set t"
  by (auto simp: outer_dirs_def)

lemma frame_up:
  assumes f: "frame (db_id x) w w'" and t: "falling (music_dirs w)" "falling (music_dirs w')" and x: "x \<in> set (music_dirs w)"
  shows "frame (parent_id x) w w'"
proof -
  let ?k = "db_id x" and ?i = "parent_id x" and ?t = "music_dirs w" and ?t' = "music_dirs w'"
  have o: "outer_dirs ?k ?t' = outer_dirs ?k ?t" "outer_songs ?k w' = outer_songs ?k w" using f by (simp_all add: frame_def)
  have x': "x \<in> set ?t'" using o(1) outer_self x by metis
  have dirs: "outer_dirs ?i ?t' = outer_dirs ?i ?t"
    using outer_up [OF t(1,2) o(1) [symmetric] x] outer_up [OF t(2,1) o(1) x'] by (rule equalityI [rotated])
  have half: "outer_songs ?i u \<subseteq> outer_songs ?i v"
    if a: "falling (music_dirs u)" "falling (music_dirs v)" "outer_dirs ?k (music_dirs v) = outer_dirs ?k (music_dirs u)"
      "outer_songs ?k v = outer_songs ?k u" "x \<in> set (music_dirs u)" for u v
  proof
    fix s assume s: "s \<in> outer_songs ?i u"
    then have "dir_id s \<notin> below (music_dirs u) ?k"
      using below_trans [OF _ below_child [OF a(5) refl]] by (auto simp: outer_songs_def)
    with s a(4) have sv: "s \<in> set (songs v)" "dir_id s \<notin> below (music_dirs v) ?k" by (auto simp: outer_songs_def)
    then have "dir_id s \<notin> below (music_dirs v) ?i"
      using below_kept [OF a(2), of ?k "music_dirs u" "dir_id s" ?i] a(3) s by (auto simp: outer_songs_def)
    with sv show "s \<in> outer_songs ?i v" by (simp add: outer_songs_def)
  qed
  have "outer_songs ?i w' = outer_songs ?i w"
    using half [OF t o x] half [OF t(2,1) o [symmetric] x'] by (rule equalityI [rotated])
  with dirs f show ?thesis by (simp add: frame_def)
qed

section \<open>The steps of a scan and their frames\<close>

definition library_ok :: "world \<Rightarrow> bool" where
  "library_ok w = (\<not> stale_cmd w \<and> tree_ok (music_dirs w) \<and> rows_ok (songs w) \<and>
     (\<forall>s \<in> set (songs w). \<exists>x \<in> set (music_dirs w). db_id x = dir_id s))"

lemma library_falling: "library_ok w \<Longrightarrow> falling (music_dirs w)"
  by (simp add: library_ok_def tree_ok_def)

lemma parent_known_iff: "parent_known t x \<longleftrightarrow> parent_id x = 0 \<or> (\<exists>y \<in> set t. db_id y = parent_id x)"
  by (auto simp: parent_known_def row_lookup_def row_find_None)

lemma below_snoc:
  assumes "\<forall>x \<in> set t. parent_id x \<noteq> db_id c" "parent_id c \<noteq> db_id c"
  shows "below (t @ [c]) j = below t j \<union> (if parent_id c \<in> below t j then {db_id c} else {})" (is "?l = ?r")
proof
  show "?l \<subseteq> ?r"
  proof
    fix e assume "e \<in> ?l"
    then show "e \<in> ?r"
    proof induction
      case (Child x)
      with assms show ?case by (auto intro: below.intros split: if_splits)
    qed (simp add: below.Self)
  qed
  have "e \<in> ?l" if "e \<in> below t j" for e using that by induction (auto intro: below.intros)
  then show "?r \<subseteq> ?l" by (auto intro: below.Child)
qed

lemma add_dir_frame:
  assumes ok: "library_ok w" and d: "d \<in> set (music_dirs w)"
    and c: "parent_id c = db_id d" "db_id c = next_rowid (music_dirs w)"
    and w': "w' = w\<lparr>music_dirs := music_dirs w @ [c]\<rparr>"
  shows "library_ok w'" "frame (db_id d) w w'" "kids w' (db_id d) = insert c (kids w (db_id d))" "c \<notin> kids w (db_id d)"
    "songs_in w' (db_id d) = songs_in w (db_id d)" "\<And>e. e \<noteq> db_id d \<Longrightarrow> alike w w' e"
proof -
  let ?t = "music_dirs w" and ?i = "db_id d"
  have t: "falling ?t" "\<forall>x \<in> set ?t. parent_known ?t x" using ok by (simp_all add: library_ok_def tree_ok_def)
  have less: "db_id x < db_id c" if "x \<in> set ?t" for x using next_rowid_gt [OF that] c by simp
  have i: "0 < ?i" "?i < db_id c" using fallingD [OF t(1) d] less [OF d] by simp_all
  have fresh: "\<forall>x \<in> set ?t. parent_id x \<noteq> db_id c" using less fallingD [OF t(1)] by force
  have b: "below (?t @ [c]) j = below ?t j \<union> (if ?i \<in> below ?t j then {db_id c} else {})" for j
    using below_snoc [OF fresh] i c by simp
  have new: "db_id x \<noteq> db_id c" if "x \<in> set ?t" for x using less [OF that] by simp
  show "kids w' ?i = insert c (kids w ?i)" "songs_in w' ?i = songs_in w ?i" "\<And>e. e \<noteq> ?i \<Longrightarrow> alike w w' e"
    using c by (auto simp: kids_def songs_in_def alike_def w')
  show "c \<notin> kids w ?i" using new by (auto simp: kids_def)
  have "c\<lparr>db_id := next_rowid ?t\<rparr> = c" using c(2) by (cases c) simp
  then have "rows_ok (?t @ [c])"
    using rows_ok_insert [OF falling_rows [OF t(1)], of c] by (simp add: row_insert_def)
  then have "falling (?t @ [c])" using t(1) i c(1) by (simp add: falling_def)
  then show "library_ok w'" using ok c(1) d by (auto simp: library_ok_def tree_ok_def parent_known_iff w')
  have "dir_id s \<noteq> db_id c" if "s \<in> set (songs w)" for s
    using ok that new by (auto simp: library_ok_def)
  then have "outer_songs ?i w' = outer_songs ?i w" by (auto simp: outer_songs_def w' b below.Self)
  moreover have "outer_dirs ?i (music_dirs w') = outer_dirs ?i ?t"
    using new i by (auto simp: outer_dirs_def w' b below.Self)
  ultimately show "frame ?i w w'" by (simp add: frame_def w')
qed

lemma change_songs_frame:
  assumes ok: "library_ok w" and d: "d \<in> set (music_dirs w)"
    and S: "\<And>s. dir_id s \<noteq> db_id d \<Longrightarrow> s \<in> set S \<longleftrightarrow> s \<in> set (songs w)" "rows_ok S"
    and w': "w' = w\<lparr>songs := S\<rparr>"
  shows "library_ok w'" "frame (db_id d) w w'" "kids w' i = kids w i" "\<And>e. e \<noteq> db_id d \<Longrightarrow> alike w w' e"
proof -
  have "\<exists>x \<in> set (music_dirs w). db_id x = dir_id s" if "s \<in> set S" for s
    using ok S(1) [of s] d that by (cases "dir_id s = db_id d") (auto simp: library_ok_def)
  with ok S(2) show "library_ok w'" by (simp add: library_ok_def w')
  have "dir_id s \<noteq> db_id d" if "dir_id s \<notin> below (music_dirs w) (db_id d)" for s
    using that by (auto intro: below.Self)
  with S(1) have "outer_songs (db_id d) w' = outer_songs (db_id d) w" by (auto simp: outer_songs_def w')
  then show "frame (db_id d) w w'" by (simp add: frame_def w')
  show "kids w' i = kids w i" "\<And>e. e \<noteq> db_id d \<Longrightarrow> alike w w' e"
    using S(1) by (auto simp: w' kids_def alike_def songs_in_def)
qed

lemma drop_dir_frame:
  assumes ok: "library_ok w" and d: "d \<in> set (music_dirs w)" and c: "c \<in> kids w (db_id d)"
    and w': "w' = prune (below (music_dirs w) (db_id c)) w"
  shows "library_ok w'" "frame (db_id d) w w'" "kids w' (db_id d) = kids w (db_id d) - {c}"
    "songs_in w' (db_id d) = songs_in w (db_id d)"
    "\<And>x e. x \<in> kids w (db_id d) \<Longrightarrow> x \<noteq> c \<Longrightarrow> e \<in> below (music_dirs w) (db_id x) \<Longrightarrow> alike w w' e"
    "d \<in> set (music_dirs w')"
proof -
  let ?t = "music_dirs w" and ?i = "db_id d" and ?k = "db_id c"
  have t: "falling ?t" by (rule library_falling [OF ok])
  have cr: "c \<in> set ?t" "parent_id c = ?i" using c by (simp_all add: kids_def)
  have i: "?i < ?k" using fallingD [OF t cr(1)] cr(2) by simp
  have in_i: "below ?t ?k \<subseteq> below ?t ?i" using below_trans [OF _ below_child [OF cr]] by blast
  have di: "?i \<notin> below ?t ?k" using below_ge [OF t, of ?i ?k] i by auto
  then show "d \<in> set (music_dirs w')" using d by (simp add: w')
  have sub: "below (music_dirs w') j \<subseteq> below ?t j" for j
  proof
    fix e assume "e \<in> below (music_dirs w') j"
    then show "e \<in> below ?t j" by induction (auto simp: w' intro: below.intros)
  qed
  have split: "below ?t ?k \<union> below (music_dirs w') ?i = below ?t ?i"
    using below_remove_subtree [of ?t ?k ?i] in_i by (auto simp: w')
  have par: "db_id x \<in> below ?t ?k" if "x \<in> set ?t" "parent_id x \<in> below ?t ?k" for x
    using that by (auto intro: below.intros)
  have apart: "below ?t (db_id x) \<inter> below ?t ?k = {}" if "x \<in> kids w ?i" "x \<noteq> c" for x
    using siblings_apart [OF t _ cr(1)] that cr(2) by (simp add: kids_def)
  have "falling (music_dirs w')" using t by (simp add: w')
  moreover have "parent_known (music_dirs w') x" if x: "x \<in> set (music_dirs w')" for x
  proof (cases "parent_id x = 0")
    case False
    with ok x obtain y where y: "y \<in> set ?t" "db_id y = parent_id x"
      by (auto simp: library_ok_def tree_ok_def parent_known_iff w')
    with par x have "y \<in> set (music_dirs w')" by (auto simp: w')
    with y(2) show ?thesis by (auto simp: parent_known_iff)
  qed (simp add: parent_known_iff)
  moreover have "\<exists>x \<in> set (music_dirs w'). db_id x = dir_id s" if "s \<in> set (songs w')" for s
  proof -
    from that ok obtain x where "x \<in> set ?t" "db_id x = dir_id s" by (auto simp: library_ok_def w')
    with that show ?thesis by (auto simp: w' intro!: bexI [of _ x])
  qed
  ultimately show "library_ok w'" using ok by (simp add: library_ok_def tree_ok_def w' rows_ok_filter)
  have "outer_dirs ?i (music_dirs w') = outer_dirs ?i ?t"
    using split in_i di by (auto simp: outer_dirs_def w')
  moreover have "outer_songs ?i w' = outer_songs ?i w"
    using split in_i sub by (auto simp: outer_songs_def w')
  ultimately show "frame ?i w w'" by (simp add: frame_def w' prune_def)
  have "x = c" if "x \<in> kids w ?i" "db_id x \<in> below ?t ?k" for x
    using apart [OF that(1)] that(2) below.Self by blast
  then show "kids w' ?i = kids w ?i - {c}" using below.Self [of ?k ?t] by (auto simp: kids_def w')
  show "songs_in w' ?i = songs_in w ?i" using di by (auto simp: songs_in_def w')
  fix x e assume x: "x \<in> kids w ?i" "x \<noteq> c" and e: "e \<in> below ?t (db_id x)"
  have "db_id z \<notin> below ?t ?k" if "z \<in> set ?t" "parent_id z = e" for z
    using apart [OF x] e that below.Child [of z ?t "db_id x"] by auto
  moreover have "e \<notin> below ?t ?k" using apart [OF x] e by auto
  ultimately show "alike w w' e" by (auto simp: alike_def kids_def songs_in_def w')
qed

section \<open>The rows mirror the disk\<close>

text \<open>
  The rows below a directory are what the disk has there, down to \<open>n\<close> levels: one row for every
  subdirectory and one song for every interesting file.
\<close>

fun mirrors :: "nat \<Rightarrow> filesystem \<Rightarrow> string list \<Rightarrow> int \<Rightarrow> world \<Rightarrow> bool" where
  "mirrors 0 fs p i w = True"
| "mirrors (Suc n) fs p i w =
     (case fs_entries fs p of
        None \<Rightarrow> False
      | Some leaves \<Rightarrow>
          inj_on dir_name (kids w i) \<and> dir_name ` kids w i = {l \<in> set leaves. fs_is_dir fs (p @ [l])} \<and>
          inj_on file_name (songs_in w i) \<and>
          file_name ` songs_in w i = {l \<in> set leaves. \<not> fs_is_dir fs (p @ [l]) \<and> is_interesting (p @ [l])} \<and>
          (\<forall>x \<in> kids w i. mirrors n fs (p @ [dir_name x]) (db_id x) w))"

lemma mirrors_alike:
  "mirrors n fs p i w \<Longrightarrow> \<forall>e \<in> below (music_dirs w) i. alike w w' e \<Longrightarrow> mirrors n fs p i w'"
proof (induction n arbitrary: p i)
  case (Suc n)
  have i: "kids w' i = kids w i" "songs_in w' i = songs_in w i"
    using Suc.prems(2) by (auto simp: alike_def below.Self)
  have "mirrors n fs (p @ [dir_name x]) (db_id x) w'" if "x \<in> kids w i" for x
  proof (rule Suc.IH)
    show "mirrors n fs (p @ [dir_name x]) (db_id x) w"
      using Suc.prems(1) that by (auto split: option.splits)
    show "\<forall>e \<in> below (music_dirs w) (db_id x). alike w w' e"
      using Suc.prems(2) that below_trans [OF _ below_child [of x "music_dirs w" i]] by (auto simp: kids_def)
  qed
  with Suc.prems(1) i show ?case by (auto split: option.splits)
qed simp

text \<open>
  The disk can be scanned: what is listed is there, with distinct names the engine keeps; the tag
  library reads every interesting file, and its artist and its album have rows.
\<close>

fun readable :: "nat \<Rightarrow> filesystem \<Rightarrow> world \<Rightarrow> string list \<Rightarrow> bool" where
  "readable 0 fs w p = True"
| "readable (Suc n) fs w p =
     (fs_exists fs p \<and>
      (case fs_entries fs p of
         None \<Rightarrow> False
       | Some leaves \<Rightarrow> distinct leaves \<and>
           (\<forall>l \<in> set leaves. store_text w l = l \<and>
              (if fs_is_dir fs (p @ [l]) then readable n fs w (p @ [l])
               else is_interesting (p @ [l]) \<longrightarrow> fs_exists fs (p @ [l]) \<and>
                 (\<exists>t. fs_tag fs (p @ [l]) = Some t \<and>
                    (\<exists>a \<in> set (artists w). obj_name a = store_text w (tag_artist t)) \<and>
                    (\<exists>a \<in> set (albums w). obj_name a = store_text w (tag_album t)))))))"

lemma readable_same:
  "artists w' = artists w \<Longrightarrow> albums w' = albums w \<Longrightarrow> store_text w' = store_text w \<Longrightarrow>
   readable n fs w' p = readable n fs w p"
  by (induction n arbitrary: p) (auto split: option.split)

definition leaf_ok :: "nat \<Rightarrow> filesystem \<Rightarrow> world \<Rightarrow> string list \<Rightarrow> string \<Rightarrow> bool" where
  "leaf_ok n fs w p l = (store_text w l = l \<and>
     (if fs_is_dir fs (p @ [l]) then readable n fs w (p @ [l])
      else is_interesting (p @ [l]) \<longrightarrow> fs_exists fs (p @ [l]) \<and>
        (\<exists>t. fs_tag fs (p @ [l]) = Some t \<and> (\<exists>a \<in> set (artists w). obj_name a = store_text w (tag_artist t)) \<and>
           (\<exists>a \<in> set (albums w). obj_name a = store_text w (tag_album t)))))"

lemma readable_Suc:
  "readable (Suc n) fs w p \<longleftrightarrow> fs_exists fs p \<and>
     (\<exists>leaves. fs_entries fs p = Some leaves \<and> distinct leaves \<and> (\<forall>l \<in> set leaves. leaf_ok n fs w p l))"
  by (auto simp: leaf_ok_def split: option.split)

lemma leaf_ok_frame: "frame k w w' \<Longrightarrow> leaf_ok n fs w' p l = leaf_ok n fs w p l"
  using frame_rest [of k w w'] readable_same [of w' w] by (simp add: leaf_ok_def)

section \<open>Elementary operations\<close>

lemma path_low:
  assumes "library_ok w" "library_ok w'" and low: "\<And>y. y \<in> set (music_dirs w) \<Longrightarrow> db_id y \<le> i \<Longrightarrow> y \<in> set (music_dirs w')"
  shows "names_upward n x w = (Inr ns, w) \<Longrightarrow> x \<in> set (music_dirs w) \<Longrightarrow> db_id x \<le> i \<Longrightarrow>
    names_upward n x w' = (Inr ns, w')"
proof (induction n arbitrary: x ns)
  case (Suc n)
  show ?case
  proof (cases "is_root x")
    case False
    have ready: "\<not> stale_cmd w" "\<not> stale_cmd w'" "tree_ok (music_dirs w)" "rows_ok (music_dirs w')"
      using assms(1,2) library_falling [OF assms(2)] by (simp_all add: library_ok_def falling_def)
    obtain u where u: "row_lookup (music_dirs w) (parent_id x) = Some u"
      using ready(3) Suc.prems(2) False by (auto simp: tree_ok_def parent_known_def is_root_def)
    then have ur: "u \<in> set (music_dirs w)" "db_id u = parent_id x" by (auto dest: row_lookup_SomeD)
    have "db_id u \<le> i"
      using fallingD [OF library_falling [OF assms(1)] Suc.prems(2)] ur(2) Suc.prems(3) by simp
    moreover obtain ms where ms: "names_upward n u w = (Inr ms, w)" "ns = dir_name x # ms"
      using Suc.prems(1) False md_load_ready [OF ready(1) u] by (auto simp: bindE_eq_Inr)
    ultimately have "names_upward n u w' = (Inr ms, w')" "u \<in> set (music_dirs w')"
      using Suc.IH [OF ms(1) ur(1)] low [OF ur(1)] by simp_all
    moreover have "row_lookup (music_dirs w') (parent_id x) = Some u"
      using row_lookup_in [OF ready(4)] \<open>u \<in> set (music_dirs w')\<close> ur(2) by metis
    ultimately show ?thesis using False md_load_ready [OF ready(2)] ms(2) by simp
  qed (use Suc.prems(1) in simp)
qed simp

lemma path_kept:
  assumes ok: "library_ok w" "library_ok w'" and f: "frame (db_id d) w w'" and d: "d \<in> set (music_dirs w)"
    and p: "md_path d w = (Inr p, w)"
  shows "md_path d w' = (Inr p, w')" "d \<in> set (music_dirs w')"
proof -
  have low: "y \<in> set (music_dirs w')" if "y \<in> set (music_dirs w)" "db_id y \<le> db_id d" for y
  proof -
    have "y \<in> outer_dirs (db_id d) (music_dirs w)"
      using that below_ge [OF library_falling [OF ok(1)], of "db_id y" "db_id d"] by (auto simp: outer_dirs_def)
    with f show ?thesis by (auto simp: frame_def outer_dirs_def)
  qed
  from low [OF d] show d': "d \<in> set (music_dirs w')" by simp
  let ?n = "Suc (length (music_dirs w))" and ?m = "Suc (length (music_dirs w'))"
  obtain ns where ns: "names_upward ?n d w = (Inr ns, w)" "p = rev ns"
    using p by (auto simp: md_path_def bindE_eq_Inr simp del: names_upward.simps)
  have here: "names_upward ?n d w' = (Inr ns, w')"
    by (rule path_low [OF ok low ns(1) d order_refl])
  have t': "tree_ok (music_dirs w')" "\<not> stale_cmd w'" using ok(2) by (simp_all add: library_ok_def)
  have "parent_known (music_dirs w') d" using t' d' by (simp add: tree_ok_def)
  from names_upward_returns [OF t'(2,1) this, of ?m] room_above_length [of "music_dirs w'" d]
  obtain ms where ms: "names_upward ?m d w' = (Inr ms, w')" by (auto simp: less_Suc_eq_le)
  have "ms = ns"
    using names_upward_more [OF here, of "max ?n ?m"] names_upward_more [OF ms, of "max ?n ?m"] by simp
  with ms ns(2) show "md_path d w' = (Inr p, w')" by (simp add: md_path_def del: names_upward.simps)
qed

text \<open>The path of a stored directory below another one.\<close>

lemma path_step:
  assumes "\<not> stale_cmd w" "tree_ok (music_dirs w)" "c \<in> set (music_dirs w)" "\<not> is_root c"
    and u: "row_lookup (music_dirs w) (parent_id c) = Some u" "md_path u w = (Inr p, w)"
  shows "md_path c w = (Inr (p @ [dir_name c]), w)"
proof -
  have "parent_known (music_dirs w) c" using assms(2,3) by (simp add: tree_ok_def)
  from path_of [OF assms(1,2) this] assms(4) u show ?thesis by fastforce
qed

lemma known_name:
  assumes "\<not> stale_cmd w" "\<exists>a \<in> set (artists w). obj_name a = store_text w n" "\<exists>a \<in> set (albums w). obj_name a = store_text w m"
  shows "\<exists>a. artist_find_or_create n w = (Inr a, w)" "\<exists>a. album_find_or_create m w = (Inr a, w)"
proof -
  have "row_find (\<lambda>a. obj_name a = store_text w n) (artists w) \<noteq> None"
    "row_find (\<lambda>a. obj_name a = store_text w m) (albums w) \<noteq> None"
    using assms(2,3) by (auto simp: row_find_None)
  with assms(1) show "\<exists>a. artist_find_or_create n w = (Inr a, w)" "\<exists>a. album_find_or_create m w = (Inr a, w)"
    by (auto simp: artist_find_or_create_def album_find_or_create_def or_create_def load_row_simps load_one_def)
qed

text \<open>Recording a song whose artist and album are known adds one row.\<close>

lemma record_song:
  assumes ok: "library_ok w" and d: "d \<in> set (music_dirs w)" and p: "md_path d w = (Inr p, w)"
    and l: "leaf_ok n fs w p l" "\<not> fs_is_dir fs (p @ [l])" "is_interesting (p @ [l])"
  shows "\<exists>s. catch_file_error (song_create_from_file fs d l) w = (Inr (), w\<lparr>songs := songs w @ [s]\<rparr>) \<and>
    dir_id s = db_id d \<and> file_name s = l \<and> rows_ok (songs w @ [s]) \<and> s \<notin> set (songs w)"
proof -
  obtain t where t: "fs_exists fs (p @ [l])" "fs_tag fs (p @ [l]) = Some t" "store_text w l = l"
      "\<exists>a \<in> set (artists w). obj_name a = store_text w (tag_artist t)"
      "\<exists>a \<in> set (albums w). obj_name a = store_text w (tag_album t)"
    using l by (auto simp: leaf_ok_def)
  have ready: "\<not> stale_cmd w" "rows_ok (songs w)" using ok by (simp_all add: library_ok_def)
  obtain ar al where a: "artist_find_or_create (tag_artist t) w = (Inr ar, w)" "album_find_or_create (tag_album t) w = (Inr al, w)"
    using known_name [OF ready(1) t(4,5)] by blast
  let ?s = "song_from_tag d l t (db_id ar) (db_id al)"
  let ?r = "(norm_song w ?s)\<lparr>db_id := next_rowid (songs w)\<rparr>"
  have "\<not> needs_saved d" using fallingD [OF library_falling [OF ok] d] by (simp add: needs_saved_def)
  then have saved: "md_save_if_needed d w = (Inr d, w)" by (simp add: md_save_if_needed_def)
  have zero: "db_id ?s = 0" by (simp add: song_from_tag_def new_song_def)
  then have "song_save ?s w = (Inr (?s\<lparr>db_id := next_rowid (songs w)\<rparr>), w\<lparr>songs := songs w @ [?r]\<rparr>)"
    using ready(1) by (simp add: song_save_def save_row_def save_obj_def row_insert_def)
  then have "catch_file_error (song_create_from_file fs d l) w = (Inr (), w\<lparr>songs := songs w @ [?r]\<rparr>)"
    using saved p t(1,2) l(3) a by (simp add: catch_file_error_def song_create_from_file_def Let_def)
  moreover have "dir_id ?r = db_id d" "file_name ?r = l"
    using t(3) by (simp_all add: norm_song_def song_from_tag_def new_song_def)
  moreover have "rows_ok (songs w @ [?r])"
    using rows_ok_insert [OF ready(2), of "norm_song w ?s"] by (simp add: row_insert_def)
  moreover have "?r \<notin> set (songs w)" using next_rowid_gt [of ?r "songs w"] by auto
  ultimately show ?thesis by blast
qed

section \<open>The loop over the entries\<close>

text \<open>
  The state of the loop: \<open>P\<close> and \<open>Q\<close> are the rows of the directory that belong to an entry met
  already, \<open>ds\<close> and \<open>ss\<close> those that were not met yet.
\<close>

definition progress :: "nat \<Rightarrow> filesystem \<Rightarrow> music_dir_obj \<Rightarrow> string list \<Rightarrow> music_dir_obj set \<Rightarrow> music_dir_obj list \<Rightarrow>
    song_obj set \<Rightarrow> song_obj list \<Rightarrow> world \<Rightarrow> bool" where
  "progress n fs d p P ds Q ss w = (library_ok w \<and> d \<in> set (music_dirs w) \<and> md_path d w = (Inr p, w) \<and>
     kids w (db_id d) = P \<union> set ds \<and> P \<inter> set ds = {} \<and> distinct ds \<and>
     songs_in w (db_id d) = Q \<union> set ss \<and> Q \<inter> set ss = {} \<and> distinct ss \<and>
     (\<forall>x \<in> P. mirrors n fs (p @ [dir_name x]) (db_id x) w))"

lemma progress_kid:
  assumes "progress n fs d p P ds Q ss w" "x \<in> P \<union> set ds"
  shows "x \<in> set (music_dirs w)" "parent_id x = db_id d" "db_id d \<notin> below (music_dirs w) (db_id x)"
proof -
  have x: "x \<in> kids w (db_id d)" "falling (music_dirs w)" using assms by (auto simp: progress_def library_falling)
  then show xr: "x \<in> set (music_dirs w)" "parent_id x = db_id d" by (auto simp: kids_def)
  show "db_id d \<notin> below (music_dirs w) (db_id x)"
    using below_ge [OF x(2), of "db_id d" "db_id x"] fallingD [OF x(2) xr(1)] xr(2) by auto
qed

lemma progress_away:
  "progress n fs d p P ds Q ss w \<Longrightarrow> x \<in> P \<Longrightarrow> e \<in> below (music_dirs w) (db_id x) \<Longrightarrow> e \<noteq> db_id d"
  using progress_kid(3) [of n fs d p P ds Q ss w x] by auto

text \<open>A change of the directory's own songs or subdirectories leaves what is below the others as it is.\<close>

lemma progress_step:
  assumes g: "progress n fs d p P ds Q ss w" and ok: "library_ok w'" and f: "frame (db_id d) w w'"
    and k: "kids w' (db_id d) = P \<union> set ds'" "P \<inter> set ds' = {}" "distinct ds'"
    and s: "songs_in w' (db_id d) = Q' \<union> set ss'" "Q' \<inter> set ss' = {}" "distinct ss'"
    and a: "\<And>x e. x \<in> P \<Longrightarrow> e \<in> below (music_dirs w) (db_id x) \<Longrightarrow> alike w w' e"
  shows "progress n fs d p P ds' Q' ss' w'"
proof -
  have d: "library_ok w" "d \<in> set (music_dirs w)" "md_path d w = (Inr p, w)" using g by (simp_all add: progress_def)
  have "mirrors n fs (p @ [dir_name x]) (db_id x) w'" if "x \<in> P" for x
    by (rule mirrors_alike [of n fs _ _ w]) (use g that a in \<open>auto simp: progress_def\<close>)
  then show ?thesis
    unfolding progress_def using path_kept [OF d(1) ok f d(2,3)] ok k s by (intro conjI ballI) assumption+
qed

text \<open>The names met, and the rows they belong to.\<close>

definition met :: "string set \<Rightarrow> string set \<Rightarrow> music_dir_obj set \<Rightarrow> song_obj set \<Rightarrow> bool" where
  "met D F P Q = (inj_on dir_name P \<and> dir_name ` P = D \<and> inj_on file_name Q \<and> file_name ` Q = F)"

lemma met_dir: "met D F P Q \<Longrightarrow> dir_name c \<notin> D \<Longrightarrow> met (insert (dir_name c) D) F (insert c P) Q"
  by (auto simp: met_def)

lemma met_song: "met D F P Q \<Longrightarrow> file_name s \<notin> F \<Longrightarrow> met D (insert (file_name s) F) P (insert s Q)"
  by (auto simp: met_def)

definition dirs_of :: "filesystem \<Rightarrow> string list \<Rightarrow> string list \<Rightarrow> string set" where
  "dirs_of fs p leaves = {l \<in> set leaves. fs_is_dir fs (p @ [l])}"

definition songs_of :: "filesystem \<Rightarrow> string list \<Rightarrow> string list \<Rightarrow> string set" where
  "songs_of fs p leaves = {l \<in> set leaves. \<not> fs_is_dir fs (p @ [l]) \<and> is_interesting (p @ [l])}"

lemma dirs_of_Cons:
  "dirs_of fs p (l # ls) = (if fs_is_dir fs (p @ [l]) then insert l (dirs_of fs p ls) else dirs_of fs p ls)"
  by (auto simp: dirs_of_def)

lemma songs_of_Cons:
  "songs_of fs p (l # ls) = (if \<not> fs_is_dir fs (p @ [l]) \<and> is_interesting (p @ [l])
     then insert l (songs_of fs p ls) else songs_of fs p ls)"
  by (auto simp: songs_of_def)

text \<open>The interface of a scan to the call for a subdirectory.\<close>

locale scans_child =
  fixes child :: "music_dir_obj \<Rightarrow> (world, unit) eff" and n :: nat and fs :: filesystem
  assumes child_ok: "library_ok w \<Longrightarrow> c \<in> set (music_dirs w) \<Longrightarrow> md_path c w = (Inr p, w) \<Longrightarrow> readable n fs w p \<Longrightarrow>
    \<exists>w'. child c w = (Inr (), w') \<and> library_ok w' \<and> frame (db_id c) w w' \<and> mirrors n fs p (db_id c) w'"
begin

lemma child_step:
  assumes g: "progress n fs d p P ds Q ss w" and c: "c \<in> set ds" and r: "readable n fs w (p @ [dir_name c])"
  shows "\<exists>w'. child c w = (Inr (), w') \<and> progress n fs d p (insert c P) (remove1 c ds) Q ss w' \<and> frame (db_id d) w w'"
proof -
  have d: "library_ok w" "d \<in> set (music_dirs w)" "md_path d w = (Inr p, w)" using g by (simp_all add: progress_def)
  have t: "falling (music_dirs w)" by (rule library_falling [OF d(1)])
  have cr: "c \<in> set (music_dirs w)" "parent_id c = db_id d" "db_id d \<notin> below (music_dirs w) (db_id c)"
    using progress_kid [OF g, of c] c by simp_all
  have pos: "0 < db_id d" using fallingD [OF t d(2)] by simp
  have "row_lookup (music_dirs w) (parent_id c) = Some d"
    using row_lookup_in [OF falling_rows [OF t] d(2)] cr(2) by simp
  then have "md_path c w = (Inr (p @ [dir_name c]), w)"
    using path_step [of w c d p] d cr pos by (simp add: is_root_def library_ok_def)
  from child_ok [OF d(1) cr(1) this r] obtain w' where
    w': "child c w = (Inr (), w')" "library_ok w'" "frame (db_id c) w w'" "mirrors n fs (p @ [dir_name c]) (db_id c) w'"
    by blast
  have t': "falling (music_dirs w')" by (rule library_falling [OF w'(2)])
  have f: "frame (db_id d) w w'" using frame_up [OF w'(3) t t' cr(1)] cr(2) by simp
  have "db_id d \<notin> below (music_dirs w') (db_id c)"
    using below_ge [OF t', of "db_id d" "db_id c"] fallingD [OF t cr(1)] cr(2) by auto
  from frame_alike [OF w'(3) t t' cr(3) this] have same: "kids w' (db_id d) = kids w (db_id d)" "songs_in w' (db_id d) = songs_in w (db_id d)"
    by (simp_all add: alike_def)
  have m: "mirrors n fs (p @ [dir_name x]) (db_id x) w'" if x: "x \<in> P" for x
  proof (rule mirrors_alike)
    show "mirrors n fs (p @ [dir_name x]) (db_id x) w" using g x by (simp add: progress_def)
    have "x \<noteq> c" using g x c by (auto simp: progress_def)
    moreover have "x \<in> set (music_dirs w)" "parent_id c = parent_id x" using progress_kid [OF g, of x] x cr(2) by simp_all
    ultimately show "\<forall>e \<in> below (music_dirs w) (db_id x). alike w w' e"
      using frame_sibling [OF w'(3) t t' cr(1)] by blast
  qed
  have sets: "kids w (db_id d) = insert c P \<union> set (remove1 c ds)" "insert c P \<inter> set (remove1 c ds) = {}" "distinct (remove1 c ds)"
    using g c by (auto simp: progress_def set_remove1_eq)
  have "\<forall>x \<in> insert c P. mirrors n fs (p @ [dir_name x]) (db_id x) w'" using m w'(4) by blast
  moreover have "songs_in w (db_id d) = Q \<union> set ss" "Q \<inter> set ss = {}" "distinct ss" using g by (simp_all add: progress_def)
  ultimately have "progress n fs d p (insert c P) (remove1 c ds) Q ss w'"
    unfolding progress_def same using path_kept [OF d(1) w'(2) f d(2,3)] w'(2) sets by (intro conjI) assumption+
  with w'(1) f show ?thesis by blast
qed

text \<open>An entry that is a directory without a row: the row is added, then its own entries are read.\<close>

lemma new_dir_step:
  assumes g: "progress n fs d p P ds Q ss w" and l: "leaf_ok n fs w p l" "fs_is_dir fs (p @ [l])"
  shows "\<exists>c w1 w'. md_save (add_child d l) w = (Inr c, w1) \<and> child c w1 = (Inr (), w') \<and> dir_name c = l \<and>
    progress n fs d p (insert c P) ds Q ss w' \<and> frame (db_id d) w w'"
proof -
  have d: "library_ok w" "d \<in> set (music_dirs w)" using g by (simp_all add: progress_def)
  have name: "store_text w l = l" "readable n fs w (p @ [l])" using l by (simp_all add: leaf_ok_def)
  let ?c = "\<lparr>db_id = next_rowid (music_dirs w), parent_id = db_id d, dir_name = l\<rparr> :: music_dir_obj"
  let ?w1 = "w\<lparr>music_dirs := music_dirs w @ [?c]\<rparr>"
  have saved: "md_save (add_child d l) w = (Inr ?c, ?w1)"
    using d(1) name(1)
    by (simp add: md_save_def save_row_def save_obj_def row_insert_def add_child_def norm_dir_def library_ok_def)
  note add = add_dir_frame [OF d, of ?c ?w1]
  have "progress n fs d p P (?c # ds) Q ss ?w1"
  proof (rule progress_step [OF g])
    show "library_ok ?w1" "frame (db_id d) w ?w1" using add by simp_all
    show "kids ?w1 (db_id d) = P \<union> set (?c # ds)" "P \<inter> set (?c # ds) = {}" "distinct (?c # ds)"
      using g add(3,4) by (auto simp: progress_def)
    show "songs_in ?w1 (db_id d) = Q \<union> set ss" "Q \<inter> set ss = {}" "distinct ss"
      using g add(5) by (simp_all add: progress_def)
    show "alike w ?w1 e" if "x \<in> P" "e \<in> below (music_dirs w) (db_id x)" for x e
      using add(6) progress_away [OF g that] by simp
  qed
  from child_step [OF this, of ?c] readable_same [of ?w1 w] name(2) obtain w' where
    "child ?c ?w1 = (Inr (), w')" "progress n fs d p (insert ?c P) ds Q ss w'" "frame (db_id d) ?w1 w'"
    by auto
  with saved frame_trans [OF add(2)] show ?thesis
    by (intro exI [of _ ?c] exI [of _ ?w1] exI [of _ w']) simp
qed

lemma new_song_step:
  assumes g: "progress n fs d p P ds Q ss w"
    and l: "leaf_ok n fs w p l" "\<not> fs_is_dir fs (p @ [l])" "is_interesting (p @ [l])"
  shows "\<exists>s w'. catch_file_error (song_create_from_file fs d l) w = (Inr (), w') \<and> file_name s = l \<and>
    progress n fs d p P ds (insert s Q) ss w' \<and> frame (db_id d) w w'"
proof -
  have d: "library_ok w" "d \<in> set (music_dirs w)" "md_path d w = (Inr p, w)" using g by (simp_all add: progress_def)
  obtain s where s: "catch_file_error (song_create_from_file fs d l) w = (Inr (), w\<lparr>songs := songs w @ [s]\<rparr>)"
    "dir_id s = db_id d" "file_name s = l" "rows_ok (songs w @ [s])" "s \<notin> set (songs w)"
    using record_song [OF d l] by blast
  let ?w' = "w\<lparr>songs := songs w @ [s]\<rparr>"
  have add: "library_ok ?w'" "frame (db_id d) w ?w'" "\<And>i. kids ?w' i = kids w i" "\<And>e. e \<noteq> db_id d \<Longrightarrow> alike w ?w' e"
    using change_songs_frame [OF d(1,2) _ s(4) refl] s(2) by auto
  have "progress n fs d p P ds (insert s Q) ss ?w'"
  proof (rule progress_step [OF g add(1,2)])
    show "kids ?w' (db_id d) = P \<union> set ds" "P \<inter> set ds = {}" "distinct ds"
      using g add(3) by (simp_all add: progress_def)
    have "songs_in ?w' (db_id d) = insert s (songs_in w (db_id d))" "s \<notin> songs_in w (db_id d)"
      using s(2,5) by (auto simp: songs_in_def)
    then show "songs_in ?w' (db_id d) = insert s Q \<union> set ss" "insert s Q \<inter> set ss = {}" "distinct ss"
      using g by (auto simp: progress_def)
    show "alike w ?w' e" if "x \<in> P" "e \<in> below (music_dirs w) (db_id x)" for x e
      by (rule add(4) [OF progress_away [OF g that]])
  qed
  with s add(2) show ?thesis by blast
qed

lemma entries_step:
  assumes "progress n fs d p P ds Q ss w" "met D F P Q" "distinct leaves" "set leaves \<inter> (D \<union> F) = {}"
    and "\<forall>l \<in> set leaves. leaf_ok n fs w p l"
  shows "\<exists>ds' ss' P' Q' w'. sync_entries child fs d p leaves ds ss w = (Inr (ds', ss'), w') \<and>
    progress n fs d p P' ds' Q' ss' w' \<and> met (D \<union> dirs_of fs p leaves) (F \<union> songs_of fs p leaves) P' Q' \<and>
    frame (db_id d) w w'"
  using assms
proof (induction leaves arbitrary: P ds Q ss w D F)
  case Nil
  then show ?case by (auto simp: dirs_of_def songs_of_def frame_refl)
next
  case (Cons l ls)
  note g = Cons.prems(1)
  have lk: "leaf_ok n fs w p l" using Cons.prems(5) by simp
  have fresh: "l \<notin> D" "l \<notin> F" "distinct ls" "l \<notin> set ls" using Cons.prems(3,4) by auto
  have go: "\<exists>ds' ss' P' Q' w'. sync_entries child fs d p ls ds1 ss1 w1 = (Inr (ds', ss'), w') \<and>
      progress n fs d p P' ds' Q' ss' w' \<and> met (D1 \<union> dirs_of fs p ls) (F1 \<union> songs_of fs p ls) P' Q' \<and> frame (db_id d) w w'"
    if "progress n fs d p P1 ds1 Q1 ss1 w1" "met D1 F1 P1 Q1" "D1 \<subseteq> insert l D" "F1 \<subseteq> insert l F" "frame (db_id d) w w1"
    for P1 ds1 Q1 ss1 w1 D1 F1
  proof -
    have "set ls \<inter> (D1 \<union> F1) = {}" using that(3,4) Cons.prems(4) fresh(4) by auto
    moreover have "\<forall>l \<in> set ls. leaf_ok n fs w1 p l" using Cons.prems(5) leaf_ok_frame [OF that(5)] by simp
    ultimately show ?thesis using Cons.IH [OF that(1,2) fresh(3)] frame_trans [OF that(5)] by metis
  qed
  consider (dir) "fs_is_dir fs (p @ [l])" | (song) "\<not> fs_is_dir fs (p @ [l])" "is_interesting (p @ [l])"
    | (other) "\<not> fs_is_dir fs (p @ [l])" "\<not> is_interesting (p @ [l])" by blast
  then show ?case
  proof cases
    case dir
    show ?thesis
    proof (cases "find (\<lambda>x. dir_name x = l) ds")
      case None
      from new_dir_step [OF g lk dir] obtain c w1 w2 where
        c: "md_save (add_child d l) w = (Inr c, w1)" "child c w1 = (Inr (), w2)" "dir_name c = l"
          "progress n fs d p (insert c P) ds Q ss w2" "frame (db_id d) w w2" by blast
      have "met (insert l D) F (insert c P) Q" using met_dir [OF Cons.prems(2), of c] c(3) fresh(1) by simp
      from go [OF c(4) this _ _ c(5)] c(1,2) dir None show ?thesis by (simp add: dirs_of_Cons songs_of_Cons subset_insertI)
    next
      case (Some c)
      then have c: "c \<in> set ds" "dir_name c = l" by (auto simp: find_Some_iff)
      have "readable n fs w (p @ [dir_name c])" using lk dir c(2) by (simp add: leaf_ok_def)
      from child_step [OF g c(1) this] obtain w2 where
        w2: "child c w = (Inr (), w2)" "progress n fs d p (insert c P) (remove1 c ds) Q ss w2" "frame (db_id d) w w2" by blast
      have "met (insert l D) F (insert c P) Q" using met_dir [OF Cons.prems(2), of c] c(2) fresh(1) by simp
      from go [OF w2(2) this _ _ w2(3)] w2(1) dir Some show ?thesis by (simp add: dirs_of_Cons songs_of_Cons subset_insertI)
    qed
  next
    case song
    show ?thesis
    proof (cases "find (\<lambda>s. file_name s = l) ss")
      case None
      from new_song_step [OF g lk song] obtain s w2 where
        s: "catch_file_error (song_create_from_file fs d l) w = (Inr (), w2)" "file_name s = l"
          "progress n fs d p P ds (insert s Q) ss w2" "frame (db_id d) w w2" by blast
      have "met D (insert l F) P (insert s Q)" using met_song [OF Cons.prems(2), of s] s(2) fresh(2) by simp
      from go [OF s(3) this _ _ s(4)] s(1) song None show ?thesis by (simp add: dirs_of_Cons songs_of_Cons subset_insertI)
    next
      case (Some s)
      then have s: "s \<in> set ss" "file_name s = l" by (auto simp: find_Some_iff)
      then have "progress n fs d p P ds (insert s Q) (remove1 s ss) w"
        using g by (auto simp: progress_def set_remove1_eq)
      moreover have "met D (insert l F) P (insert s Q)" using met_song [OF Cons.prems(2), of s] s(2) fresh(2) by simp
      ultimately show ?thesis
        using go [of P ds "insert s Q" "remove1 s ss" w D "insert l F"] song Some
        by (simp add: dirs_of_Cons songs_of_Cons subset_insertI frame_refl)
    qed
  next
    case other
    with go [OF g Cons.prems(2) _ _ frame_refl] show ?thesis by (simp add: dirs_of_Cons songs_of_Cons subset_insertI)
  qed
qed

end

text \<open>What was not met goes: subdirectories first, then songs.\<close>

lemma drop_dirs:
  assumes "progress n fs d p P ds Q ss w"
  shows "\<exists>w'. forE ds md_destroy w = (Inr (), w') \<and> progress n fs d p P [] Q ss w' \<and> frame (db_id d) w w'"
  using assms
proof (induction ds arbitrary: w)
  case Nil
  then show ?case by (auto simp: frame_refl)
next
  case (Cons c ds)
  note g = Cons.prems
  have d: "library_ok w" "d \<in> set (music_dirs w)" using g by (simp_all add: progress_def)
  have c: "c \<in> kids w (db_id d)" using g by (simp add: progress_def)
  let ?w = "prune (below (music_dirs w) (db_id c)) w"
  note drop = drop_dir_frame [OF d c refl]
  have "db_id c \<noteq> 0" using fallingD [OF library_falling [OF d(1)], of c] c by (simp add: kids_def)
  then have gone: "md_destroy c w = (Inr (), ?w)"
    using d(1) library_falling [OF d(1)] by (intro md_destroy_prunes) (simp_all add: library_ok_def)
  have "progress n fs d p P ds Q ss ?w"
  proof (rule progress_step [OF g drop(1,2)])
    show "kids ?w (db_id d) = P \<union> set ds" "P \<inter> set ds = {}" "distinct ds"
      using g drop(3) by (auto simp: progress_def)
    show "songs_in ?w (db_id d) = Q \<union> set ss" "Q \<inter> set ss = {}" "distinct ss"
      using g drop(4) by (simp_all add: progress_def)
    show "alike w ?w e" if "x \<in> P" "e \<in> below (music_dirs w) (db_id x)" for x e
      using drop(5) [of x e] that g by (auto simp: progress_def)
  qed
  from Cons.IH [OF this] gone frame_trans [OF drop(2)] show ?case by fastforce
qed

lemma drop_songs:
  assumes g: "progress n fs d p P [] Q ss w"
  shows "\<exists>w'. forE ss song_destroy w = (Inr (), w') \<and> progress n fs d p P [] Q [] w' \<and> frame (db_id d) w w'"
proof -
  have d: "library_ok w" "d \<in> set (music_dirs w)" using g by (simp_all add: progress_def)
  have rows: "rows_ok (songs w)" using d(1) by (simp add: library_ok_def)
  let ?S = "filter (\<lambda>x. db_id x \<notin> db_id ` set ss) (songs w)"
  let ?w = "w\<lparr>songs := ?S\<rparr>"
  have ss: "set ss \<subseteq> set (songs w)" "\<And>s. s \<in> set ss \<Longrightarrow> dir_id s = db_id d"
    using g by (auto simp: progress_def songs_in_def)
  have eq: "db_id x \<in> db_id ` set ss \<longleftrightarrow> x \<in> set ss" if "x \<in> set (songs w)" for x
    using same_id [OF rows that] ss(1) by auto
  have "\<forall>s \<in> set ss. db_id s \<noteq> 0" using rows ss(1) by (force simp: rows_ok_def)
  then have gone: "forE ss song_destroy w = (Inr (), ?w)" using d(1) by (intro destroy_songs) (simp_all add: library_ok_def)
  have keep: "s \<in> set ?S \<longleftrightarrow> s \<in> set (songs w)" if "dir_id s \<noteq> db_id d" for s using eq ss(2) that by auto
  note drop = change_songs_frame [OF d keep rows_ok_filter [OF rows] refl]
  have "progress n fs d p P [] Q [] ?w"
  proof (rule progress_step [OF g drop(1,2)])
    show "kids ?w (db_id d) = P \<union> set []" "P \<inter> set [] = {}" "distinct ([] :: music_dir_obj list)"
      using g drop(3) by (simp_all add: progress_def)
    have "songs_in ?w (db_id d) = songs_in w (db_id d) - set ss" using eq by (auto simp: songs_in_def)
    then show "songs_in ?w (db_id d) = Q \<union> set []" "Q \<inter> set [] = {}" "distinct ([] :: song_obj list)"
      using g by (auto simp: progress_def)
    show "alike w ?w e" if "x \<in> P" "e \<in> below (music_dirs w) (db_id x)" for x e
      using drop(4) progress_away [OF g that] by simp
  qed
  with gone drop(2) show ?thesis by blast
qed

section \<open>A whole scan\<close>

lemma sync_step_ok:
  assumes child: "scans_child child n fs"
    and d: "library_ok w" "d \<in> set (music_dirs w)" "md_path d w = (Inr p, w)" and r: "readable (Suc n) fs w p"
  shows "\<exists>w'. sync_step child fs d w = (Inr (), w') \<and> library_ok w' \<and> frame (db_id d) w w' \<and> mirrors (Suc n) fs p (db_id d) w'"
proof -
  obtain leaves where l: "fs_exists fs p" "fs_entries fs p = Some leaves" "distinct leaves" "\<forall>l \<in> set leaves. leaf_ok n fs w p l"
    using r unfolding readable_Suc by blast
  let ?ds = "by_upper_dir w (filter (\<lambda>x. parent_id x = db_id d) (music_dirs w))"
  let ?ss = "by_track w (filter (\<lambda>s. dir_id s = db_id d) (songs w))"
  have rows: "distinct (music_dirs w)" "distinct (songs w)"
    using rows_ok_distinct d(1) falling_rows [OF library_falling [OF d(1)]]
    by (auto simp: library_ok_def distinct_map)
  have ready: "\<not> stale_cmd w" using d(1) by (simp add: library_ok_def)
  have mult: "mset ?ds = mset (filter (\<lambda>x. parent_id x = db_id d) (music_dirs w))"
    "mset ?ss = mset (filter (\<lambda>s. dir_id s = db_id d) (songs w))"
    by (simp_all add: by_upper_dir_def by_track_def)
  then have "distinct ?ds" "distinct ?ss" using rows by (metis distinct_filter mset_eq_imp_distinct_iff)+
  then have "progress n fs d p {} ?ds {} ?ss w"
    using d by (auto simp: progress_def kids_def songs_in_def by_upper_dir_def by_track_def)
  from scans_child.entries_step [OF child this, of "{}" "{}" leaves] l(3,4) obtain ds ss P Q w1 where
    e: "sync_entries child fs d p leaves ?ds ?ss w = (Inr (ds, ss), w1)" "progress n fs d p P ds Q ss w1"
      "met (dirs_of fs p leaves) (songs_of fs p leaves) P Q" "frame (db_id d) w w1"
    by (auto simp: met_def)
  from drop_dirs [OF e(2)] obtain w2 where
    w2: "forE ds md_destroy w1 = (Inr (), w2)" "progress n fs d p P [] Q ss w2" "frame (db_id d) w1 w2" by blast
  from drop_songs [OF w2(2)] obtain w3 where
    w3: "forE ss song_destroy w2 = (Inr (), w3)" "progress n fs d p P [] Q [] w3" "frame (db_id d) w2 w3" by blast
  have "sync_step child fs d w = (Inr (), w3)"
    using d(3) l(1,2) ready e(1) w2(1) w3(1) by (simp add: sync_step_def md_children_of_def md_songs_def)
  moreover have "frame (db_id d) w w3" using frame_trans [OF frame_trans [OF e(4) w2(3)] w3(3)] .
  moreover have "mirrors (Suc n) fs p (db_id d) w3"
    using w3(2) e(3) l(2) by (simp add: progress_def met_def dirs_of_def songs_of_def)
  ultimately show ?thesis using w3(2) by (auto simp: progress_def)
qed

lemma sync_levels_ok:
  "library_ok w \<Longrightarrow> d \<in> set (music_dirs w) \<Longrightarrow> md_path d w = (Inr p, w) \<Longrightarrow> readable n fs w p \<Longrightarrow>
   \<exists>w'. sync_levels n fs d w = (Inr (), w') \<and> library_ok w' \<and> frame (db_id d) w w' \<and> mirrors n fs p (db_id d) w'"
proof (induction n arbitrary: w d p)
  case 0
  then have "\<not> needs_saved d" using fallingD [OF library_falling [OF 0(1)], of d] by (simp add: needs_saved_def)
  with 0 show ?case by (auto simp: md_save_if_needed_def frame_refl)
next
  case (Suc n)
  have "scans_child (sync_levels n fs) n fs" by unfold_locales (rule Suc.IH)
  from sync_step_ok [OF this Suc.prems] Suc.prems(3) fallingD [OF library_falling [OF Suc.prems(1)] Suc.prems(2)]
  show ?case by (simp add: md_save_if_needed_def needs_saved_def)
qed

interpretation scan: scans_child "sync_levels n fs" n fs for n fs
  by unfold_locales (rule sync_levels_ok)

text \<open>
  C4: scanning a stored directory whose disk can be read, and whose artists and albums have rows,
  ends without an error and makes the library mirror the disk: at every level (of the 255 the scan
  descends) there is one row for each subdirectory and one song for each interesting file, and
  nothing else, whatever rows were there before. Directories and songs elsewhere, artists and albums
  stay as they were, and the library is well formed again.
\<close>

theorem scan_mirrors_the_disk:
  assumes "library_ok w" "d \<in> set (music_dirs w)" "md_path d w = (Inr p, w)" "readable 255 fs w p"
  shows "\<exists>w'. md_sync fs 0 d w = (Inr (), w') \<and> mirrors 255 fs p (db_id d) w' \<and> frame (db_id d) w w' \<and> library_ok w'"
  using scan.child_ok [OF assms] by (auto simp: md_sync_def)

definition small_disk :: filesystem where
  "small_disk = \<lparr>fs_exists = (\<lambda>p. True),
     fs_entries = (\<lambda>p. if p = [''/music''] then Some [''Jazz'', ''new.mp3'', ''note.txt'']
        else if p = [''/music'', ''Jazz''] then Some [''a.mp3''] else None),
     fs_is_dir = (\<lambda>p. p = [''/music'', ''Jazz'']),
     fs_tag = (\<lambda>p. Some \<lparr>tag_title = ''So What'', tag_artist = ''Miles Davis'', tag_album = ''Kind of Blue'',
        tag_track = 1, tag_year = 1959, tag_audio = None\<rparr>), fs_bytes = (\<lambda>p. None)\<rparr>"

definition scan_world :: world where
  "scan_world = tree_world\<lparr>artists := [\<lparr>db_id = 1, obj_name = ''Miles Davis''\<rparr>],
     albums := [\<lparr>db_id = 1, obj_name = ''Kind of Blue''\<rparr>]\<rparr>"

abbreviation "music_root \<equiv> \<lparr>db_id = 1, parent_id = 0, dir_name = ''/music''\<rparr> :: music_dir_obj"

lemma scan_world_facts:
  "library_ok scan_world" "music_root \<in> set (music_dirs scan_world)" "md_path music_root scan_world = (Inr [''/music''], scan_world)"
proof -
  have t: "music_dirs scan_world = music_dirs tree_world" "songs scan_world = songs tree_world" "stale_cmd scan_world = stale_cmd tree_world"
    by (simp_all add: scan_world_def)
  have "\<forall>s \<in> set (songs tree_world). \<exists>x \<in> set (music_dirs tree_world). db_id x = dir_id s"
    by (simp add: tree_world_def new_song_def)
  then show "library_ok scan_world" using tree_world_facts by (simp add: library_ok_def t)
  show "music_root \<in> set (music_dirs scan_world)" by (simp add: t tree_world_def)
  show "md_path music_root scan_world = (Inr [''/music''], scan_world)"
    using path_of [of scan_world music_root] tree_world_facts by (auto simp: t parent_known_def is_root_def)
qed

lemma small_disk_readable: "readable 255 small_disk scan_world [''/music'']"
proof -
  have names: "store_text scan_world ''Jazz'' = ''Jazz''" "store_text scan_world ''new.mp3'' = ''new.mp3''"
    "store_text scan_world ''note.txt'' = ''note.txt''" "store_text scan_world ''a.mp3'' = ''a.mp3''"
    "store_text scan_world ''Miles Davis'' = ''Miles Davis''" "store_text scan_world ''Kind of Blue'' = ''Kind of Blue''"
    by code_simp+
  have rows: "artists scan_world = [\<lparr>db_id = 1, obj_name = ''Miles Davis''\<rparr>]" "albums scan_world = [\<lparr>db_id = 1, obj_name = ''Kind of Blue''\<rparr>]"
    by (simp_all add: scan_world_def)
  have "readable (Suc (Suc 253)) small_disk scan_world [''/music'']"
    unfolding readable.simps(2) by (simp add: small_disk_def names rows del: readable.simps)
  then show ?thesis by simp
qed

theorem scan_mirrors_the_disk_witness:
  "\<exists>w'. md_sync small_disk 0 music_root scan_world = (Inr (), w') \<and>
     dir_name ` kids w' 1 = {''Jazz''} \<and> file_name ` songs_in w' 1 = {''new.mp3''}"
proof -
  obtain w' where w': "md_sync small_disk 0 music_root scan_world = (Inr (), w')" "mirrors 255 small_disk [''/music''] 1 w'"
    using scan_mirrors_the_disk [OF scan_world_facts small_disk_readable] by auto
  have entries: "fs_entries small_disk [''/music''] = Some [''Jazz'', ''new.mp3'', ''note.txt'']"
    "fs_is_dir small_disk [''/music'', ''Jazz'']" "\<not> fs_is_dir small_disk [''/music'', ''new.mp3'']"
    "\<not> fs_is_dir small_disk [''/music'', ''note.txt'']"
    by (simp_all add: small_disk_def)
  have endings: "is_interesting [''/music'', ''new.mp3'']" "\<not> is_interesting [''/music'', ''note.txt'']"
    by code_simp+
  have "(255::nat) = Suc 254" by simp
  with w'(2) have "mirrors (Suc 254) small_disk [''/music''] 1 w'" by (simp only:)
  then have "dir_name ` kids w' 1 = {l \<in> set [''Jazz'', ''new.mp3'', ''note.txt'']. fs_is_dir small_disk ([''/music''] @ [l])}"
    "file_name ` songs_in w' 1 = {l \<in> set [''Jazz'', ''new.mp3'', ''note.txt''].
       \<not> fs_is_dir small_disk ([''/music''] @ [l]) \<and> is_interesting ([''/music''] @ [l])}"
    unfolding mirrors.simps(2) entries(1) option.case by blast+
  then have "dir_name ` kids w' 1 = {''Jazz''}" "file_name ` songs_in w' 1 = {''new.mp3''}"
    using entries endings by auto
  then show ?thesis using w'(1) by blast
qed

end
