(* ===== verification/Json_Value.thy ===== *)
theory Json_Value
  imports Json
begin

text \<open>
  \<open>Json::Value\<close> as a container (\<open>libs/json/json_value.cpp\<close>): what \<open>Json\<close> leaves out because the
  reader and the handlers do not need it. A value holds comments beside its content, an array is a
  map from indices like an object is one from names (so that it can have holes), and a string can
  be the null pointer. Assertions are enabled: a failed one is \<open>Abort\<close>. \<open>view\<close> is the value as
  \<open>Json\<close> has it, which is what reading it by index and by name shows.
\<close>

section \<open>Values\<close>

datatype value_type =
    NullValue | IntValue | UintValue | RealValue | StringValue | BooleanValue | ArrayValue | ObjectValue

fun type_number :: "value_type \<Rightarrow> int" where
  "type_number NullValue = 0"
| "type_number IntValue = 1"
| "type_number UintValue = 2"
| "type_number RealValue = 3"
| "type_number StringValue = 4"
| "type_number BooleanValue = 5"
| "type_number ArrayValue = 6"
| "type_number ObjectValue = 7"

text \<open>
  \<open>CZString\<close>, the key of both kinds of maps: an index, or a name (up to its NUL byte). Names are
  compared by \<open>strcmp\<close>, which is the order of lists of characters. The two kinds never meet in a map.
\<close>

datatype czkey = Index int | Name string

instantiation czkey :: linorder
begin

fun less_czkey :: "czkey \<Rightarrow> czkey \<Rightarrow> bool" where
  "less_czkey (Name a) (Name b) = (a < b)"
| "less_czkey (Index i) (Index j) = (i < j)"
| "less_czkey (Index i) (Name b) = True"
| "less_czkey (Name a) (Index j) = False"

definition less_eq_czkey :: "czkey \<Rightarrow> czkey \<Rightarrow> bool" where
  "less_eq_czkey a b = (a < b \<or> a = b)"

instance
proof
  fix a b c :: czkey
  show "(a < b) = (a \<le> b \<and> \<not> b \<le> a)" by (cases a; cases b) (auto simp: less_eq_czkey_def)
  show "a \<le> a" by (simp add: less_eq_czkey_def)
  show "a \<le> b \<Longrightarrow> b \<le> c \<Longrightarrow> a \<le> c" by (cases a; cases b; cases c) (auto simp: less_eq_czkey_def)
  show "a \<le> b \<Longrightarrow> b \<le> a \<Longrightarrow> a = b" by (cases a; cases b) (auto simp: less_eq_czkey_def)
  show "a \<le> b \<or> b \<le> a" by (cases a; cases b) (auto simp: less_eq_czkey_def)
qed

end

text \<open>The member \<open>index_\<close> of a name says how it was allocated.\<close>

fun key_index :: "czkey \<Rightarrow> int" where
  "key_index (Index i) = i"
| "key_index (Name n) = 1"

fun key_name :: "czkey \<Rightarrow> string" where
  "key_name (Name n) = n"
| "key_name (Index i) = []"

record comment_slots =
  comment_before :: "string option"
  comment_same_line :: "string option"
  comment_after :: "string option"

definition no_comments :: comment_slots where
  "no_comments = \<lparr>comment_before = None, comment_same_line = None, comment_after = None\<rparr>"

datatype 'v held =
    HNull
  | HInt int
  | HUInt int
  | HReal rat
  | HString "string option"
  | HBool bool
  | HArray "(czkey \<times> 'v) list"
  | HObject "(czkey \<times> 'v) list"

datatype jvalue = JV (slots: comment_slots) (held: "jvalue held")

fun held_type :: "'v held \<Rightarrow> value_type" where
  "held_type HNull = NullValue"
| "held_type (HInt i) = IntValue"
| "held_type (HUInt u) = UintValue"
| "held_type (HReal r) = RealValue"
| "held_type (HString s) = StringValue"
| "held_type (HBool b) = BooleanValue"
| "held_type (HArray xs) = ArrayValue"
| "held_type (HObject ms) = ObjectValue"

definition value_kind :: "jvalue \<Rightarrow> value_type" where
  "value_kind v = held_type (held v)"

fun initial_held :: "value_type \<Rightarrow> 'v held" where
  "initial_held NullValue = HNull"
| "initial_held IntValue = HInt 0"
| "initial_held UintValue = HUInt 0"
| "initial_held RealValue = HReal 0"
| "initial_held StringValue = HString None"
| "initial_held BooleanValue = HBool False"
| "initial_held ArrayValue = HArray []"
| "initial_held ObjectValue = HObject []"

definition new_value :: "value_type \<Rightarrow> jvalue" where
  "new_value t = JV no_comments (initial_held t)"

definition null_value :: jvalue where
  "null_value = new_value NullValue"

definition string_value :: "string \<Rightarrow> jvalue" where
  "string_value s = JV no_comments (HString (Some (c_str s)))"

text \<open>
  \<open>operator=\<close> swaps with a copy, and \<open>swap\<close> does not exchange the comments: the value that is
  assigned to keeps its own.
\<close>

definition assign_value :: "jvalue \<Rightarrow> jvalue \<Rightarrow> jvalue" where
  "assign_value v other = JV (slots v) (held other)"

primrec plain :: "jvalue \<Rightarrow> jvalue" where
  "plain (JV c h) = JV no_comments (map_held plain h)"

section \<open>Comparison\<close>

text \<open>
  \<open>operator<\<close>. Values of different types are in the order of the enumeration; arrays and objects are
  compared by the number of their entries first, then entry by entry (\<open>std::map\<close>'s comparison of
  pairs).
\<close>

fun pointer_less :: "string option \<Rightarrow> string option \<Rightarrow> bool" where
  "pointer_less None t = (t \<noteq> None)"
| "pointer_less (Some a) (Some b) = (a < b)"
| "pointer_less (Some a) None = False"

definition items_size :: "(czkey \<times> jvalue) list \<Rightarrow> nat" where
  "items_size = size_list (size_prod (\<lambda>_. 0) size)"

function (sequential) value_less :: "jvalue \<Rightarrow> jvalue \<Rightarrow> bool"
  and items_less :: "(czkey \<times> jvalue) list \<Rightarrow> (czkey \<times> jvalue) list \<Rightarrow> bool" where
  "value_less (JV c a) (JV d b) =
     (if held_type a \<noteq> held_type b then type_number (held_type a) < type_number (held_type b)
      else case (a, b) of
          (HInt i, HInt j) \<Rightarrow> i < j
        | (HUInt i, HUInt j) \<Rightarrow> i < j
        | (HReal i, HReal j) \<Rightarrow> i < j
        | (HBool i, HBool j) \<Rightarrow> i < j
        | (HString s, HString t) \<Rightarrow> pointer_less s t
        | (HArray xs, HArray ys) \<Rightarrow> (if length xs \<noteq> length ys then length xs < length ys else items_less xs ys)
        | (HObject xs, HObject ys) \<Rightarrow> (if length xs \<noteq> length ys then length xs < length ys else items_less xs ys)
        | _ \<Rightarrow> False)"
| "items_less [] ys = (ys \<noteq> [])"
| "items_less (x # xs) [] = False"
| "items_less ((k, v) # xs) ((l, w) # ys) =
     (if k < l \<or> \<not> l < k \<and> value_less v w then True
      else if l < k \<or> \<not> k < l \<and> value_less w v then False
      else items_less xs ys)"
  by pat_completeness auto

termination
  by (relation "measure (case_sum (\<lambda>(v, w). size v + size w) (\<lambda>(xs, ys). items_size xs + items_size ys))")
    (auto simp: items_size_def)

function (sequential) value_equal :: "jvalue \<Rightarrow> jvalue \<Rightarrow> bool"
  and items_equal :: "(czkey \<times> jvalue) list \<Rightarrow> (czkey \<times> jvalue) list \<Rightarrow> bool" where
  "value_equal (JV c a) (JV d b) =
     (held_type a = held_type b \<and>
      (case (a, b) of
          (HInt i, HInt j) \<Rightarrow> i = j
        | (HUInt i, HUInt j) \<Rightarrow> i = j
        | (HReal i, HReal j) \<Rightarrow> i = j
        | (HBool i, HBool j) \<Rightarrow> i = j
        | (HString s, HString t) \<Rightarrow> s = t
        | (HArray xs, HArray ys) \<Rightarrow> length xs = length ys \<and> items_equal xs ys
        | (HObject xs, HObject ys) \<Rightarrow> length xs = length ys \<and> items_equal xs ys
        | _ \<Rightarrow> True))"
| "items_equal [] ys = True"
| "items_equal (x # xs) [] = True"
| "items_equal ((k, v) # xs) ((l, w) # ys) = (k = l \<and> value_equal v w \<and> items_equal xs ys)"
  by pat_completeness auto

termination
  by (relation "measure (case_sum (\<lambda>(v, w). size v) (\<lambda>(xs, ys). items_size xs))")
    (auto simp: items_size_def)


text \<open>A comparison of the entries' heads, and what is left when neither is smaller.\<close>

definition head_less :: "czkey \<times> jvalue \<Rightarrow> czkey \<times> jvalue \<Rightarrow> bool" where
  "head_less x y = (fst x < fst y \<or> fst x = fst y \<and> value_less (snd x) (snd y))"

lemma items_less_Cons [simp]:
  "items_less (x # xs) (y # ys) = (head_less x y \<or> \<not> head_less y x \<and> items_less xs ys)"
  by (cases x; cases y) (auto simp: head_less_def)

declare items_less.simps(3) [simp del]

definition plain_item :: "czkey \<times> jvalue \<Rightarrow> czkey \<times> jvalue" where
  "plain_item = map_prod id plain"

lemma plain_items: "map (map_prod id plain) xs = map plain_item xs"
  by (simp add: plain_item_def)

lemma held_type_map [simp]: "held_type (map_held f h) = held_type h"
  by (cases h) simp_all

lemma plain_plain [simp]: "plain (plain v) = plain v"
  by (induction v) (auto simp: held.map_comp comp_def intro!: held.map_cong prod.map_cong)

lemma plain_item_simps [simp]:
  "fst (plain_item x) = fst x" "snd (plain_item x) = plain (snd x)" "plain_item (plain_item x) = plain_item x"
  by (simp_all add: plain_item_def prod.map_comp comp_def prod_eq_iff)

lemma held_type_iff:
  "(held_type h = NullValue) = (h = HNull)"
  "(held_type h = IntValue) = (\<exists>i. h = HInt i)"
  "(held_type h = UintValue) = (\<exists>i. h = HUInt i)"
  "(held_type h = RealValue) = (\<exists>r. h = HReal r)"
  "(held_type h = StringValue) = (\<exists>s. h = HString s)"
  "(held_type h = BooleanValue) = (\<exists>b. h = HBool b)"
  "(held_type h = ArrayValue) = (\<exists>xs. h = HArray xs)"
  "(held_type h = ObjectValue) = (\<exists>ms. h = HObject ms)"
  by (cases h; simp)+

lemma held_cases [consumes 1, case_names Null Int UInt Real String Bool Array Object]:
  assumes "held_type a = held_type b"
  obtains "a = HNull" "b = HNull"
  | i j where "a = HInt i" "b = HInt j"
  | i j where "a = HUInt i" "b = HUInt j"
  | i j where "a = HReal i" "b = HReal j"
  | i j where "a = HString i" "b = HString j"
  | i j where "a = HBool i" "b = HBool j"
  | xs ys where "a = HArray xs" "b = HArray ys"
  | xs ys where "a = HObject xs" "b = HObject ys"
proof (cases a)
  case HNull
  then show ?thesis using that(1) assms [symmetric] by (simp add: held_type_iff)
next
  case (HInt i)
  then show ?thesis using that(2) assms [symmetric] by (auto simp: held_type_iff)
next
  case (HUInt i)
  then show ?thesis using that(3) assms [symmetric] by (auto simp: held_type_iff)
next
  case (HReal i)
  then show ?thesis using that(4) assms [symmetric] by (auto simp: held_type_iff)
next
  case (HString i)
  then show ?thesis using that(5) assms [symmetric] by (auto simp: held_type_iff)
next
  case (HBool i)
  then show ?thesis using that(6) assms [symmetric] by (auto simp: held_type_iff)
next
  case (HArray i)
  then show ?thesis using that(7) assms [symmetric] by (auto simp: held_type_iff)
next
  case (HObject i)
  then show ?thesis using that(8) assms [symmetric] by (auto simp: held_type_iff)
qed

lemma held_type_plain: "map_held plain a = map_held plain b \<Longrightarrow> held_type a = held_type b"
  by (metis held_type_map)

lemma less_other_type:
  "held_type a \<noteq> held_type b \<Longrightarrow> value_less (JV c a) (JV d b) = (type_number (held_type a) < type_number (held_type b))"
  by simp

lemma equal_iff_plain:
  "value_equal v w = (plain v = plain w)"
  "length xs = length ys \<Longrightarrow> items_equal xs ys = (map plain_item xs = map plain_item ys)"
proof (induction v w and xs ys rule: value_equal_items_equal.induct)
  case (1 c a d b)
  show ?case
  proof (cases "held_type a = held_type b")
    case False
    then show ?thesis using held_type_plain [of a b] by auto
  next
    case True
    then show ?thesis
    proof (cases rule: held_cases)
      case (Array xs ys)
      with 1(1) show ?thesis by (auto simp: plain_items dest: map_eq_imp_length_eq)
    next
      case (Object xs ys)
      with 1(2) show ?thesis by (auto simp: plain_items dest: map_eq_imp_length_eq)
    qed simp_all
  qed
qed (auto simp: plain_item_def)

lemma less_plain:
  "value_less v w = value_less (plain v) (plain w)"
  "items_less xs ys = items_less (map plain_item xs) (map plain_item ys)"
proof (induction v w and xs ys rule: value_less_items_less.induct)
  case (1 c a d b)
  show ?case
  proof (cases "held_type a = held_type b")
    case False
    then show ?thesis by simp
  next
    case True
    then show ?thesis
    proof (cases rule: held_cases)
      case (Array xs ys)
      with 1(1) show ?thesis by (simp add: plain_items)
    next
      case (Object xs ys)
      with 1(2) show ?thesis by (simp add: plain_items)
    qed simp_all
  qed
next
  case (4 k v xs l w ys)
  then show ?case by (auto simp: head_less_def)
qed simp_all

lemma head_less_plain: "head_less x y = head_less (plain_item x) (plain_item y)"
  by (simp add: head_less_def less_plain(1) [of "snd x"])

text \<open>Exactly one of smaller, equal and greater.\<close>

definition one_of :: "bool \<Rightarrow> bool \<Rightarrow> bool \<Rightarrow> bool" where
  "one_of a b c = (a \<and> \<not> b \<and> \<not> c \<or> \<not> a \<and> b \<and> \<not> c \<or> \<not> a \<and> \<not> b \<and> c)"

lemma one_of_linorder [simp]: "one_of (a < b) (a = b) (b < (a::'a::linorder))"
  by (cases a b rule: linorder_cases) (auto simp: one_of_def)

lemma one_of_pointer [simp]: "one_of (pointer_less s t) (s = t) (pointer_less t s)"
proof (cases s; cases t)
  fix a b assume "s = Some a" "t = Some b"
  then show ?thesis using one_of_linorder [of a b] by simp
qed (simp_all add: one_of_def)

lemma one_of_length: "length xs \<noteq> length ys \<Longrightarrow> one_of (length xs < length ys) (map f xs = map f ys) (length ys < length xs)"
  by (auto simp: one_of_def dest: map_eq_imp_length_eq)

lemma less_trichotomy:
  "one_of (value_less v w) (plain v = plain w) (value_less w v)"
  "length xs = length ys \<Longrightarrow> one_of (items_less xs ys) (map plain_item xs = map plain_item ys) (items_less ys xs)"
proof (induction v w and xs ys rule: value_less_items_less.induct)
  case (1 c a d b)
  show ?case
  proof (cases "held_type a = held_type b")
    case False
    moreover have "type_number (held_type a) \<noteq> type_number (held_type b)"
      using False by (cases a; cases b; simp only: held_type.simps type_number.simps) simp_all
    ultimately show ?thesis using held_type_plain [of a b] by (auto simp: one_of_def)
  next
    case True
    then show ?thesis
    proof (cases rule: held_cases)
      case (Array xs ys)
      with 1(1) show ?thesis using one_of_length [of xs ys plain_item]
        by (cases "length xs = length ys") (simp_all add: plain_items)
    next
      case (Object xs ys)
      with 1(2) show ?thesis using one_of_length [of xs ys plain_item]
        by (cases "length xs = length ys") (simp_all add: plain_items)
    next
      case (Bool i j)
      then show ?thesis by (auto simp: one_of_def)
    qed (simp_all add: one_of_def [of False])
  qed
next
  case (4 k v xs l w ys)
  have head: "one_of (head_less (k, v) (l, w)) (plain_item (k, v) = plain_item (l, w)) (head_less (l, w) (k, v))"
    using "4.IH"(1,2) linorder_less_linear [of k l] by (auto simp: one_of_def head_less_def plain_item_def)
  show ?case
  proof (cases "head_less (k, v) (l, w) \<or> head_less (l, w) (k, v)")
    case True
    with head show ?thesis by (auto simp: one_of_def)
  next
    case False
    then have "one_of (items_less xs ys) (map plain_item xs = map plain_item ys) (items_less ys xs)"
      using "4.IH"(3) "4.prems" by (auto simp: head_less_def)
    with head False show ?thesis by (auto simp: one_of_def)
  qed
qed (simp_all add: one_of_def)

lemma less_irrefl: "\<not> value_less v v"
  using less_trichotomy(1) [of v v] by (auto simp: one_of_def)

lemma less_cases:
  obtains "value_less v w" "\<not> value_less w v" "plain v \<noteq> plain w"
  | "plain v = plain w" "\<not> value_less v w" "\<not> value_less w v"
  | "value_less w v" "\<not> value_less v w" "plain v \<noteq> plain w"
  using less_trichotomy(1) [of v w] by (auto simp: one_of_def)

text \<open>Transitivity, entry by entry.\<close>

definition below_trans :: "jvalue \<Rightarrow> bool" where
  "below_trans v = (\<forall>w u. value_less v w \<longrightarrow> value_less w u \<longrightarrow> value_less v u)"

lemma head_less_trans: "below_trans (snd x) \<Longrightarrow> head_less x y \<Longrightarrow> head_less y z \<Longrightarrow> head_less x z"
  by (auto simp: head_less_def below_trans_def)

lemma head_not_less: "\<not> head_less x y \<Longrightarrow> \<not> head_less y x \<Longrightarrow> plain_item x = plain_item y"
  using less_trichotomy(1) [of "snd x" "snd y"]
  by (auto simp: head_less_def plain_item_def one_of_def prod_eq_iff not_less)

lemma items_less_trans:
  "\<forall>x \<in> set xs. below_trans (snd x) \<Longrightarrow> length xs = length ys \<Longrightarrow> length ys = length zs \<Longrightarrow>
   items_less xs ys \<Longrightarrow> items_less ys zs \<Longrightarrow> items_less xs zs"
proof (induction xs arbitrary: ys zs)
  case (Cons x xs)
  then obtain y ys' z zs' where yz: "ys = y # ys'" "zs = z # zs'" by (metis Suc_length_conv length_Cons)
  have bx: "below_trans (snd x)" and len: "length xs = length ys'" "length ys' = length zs'"
    using Cons.prems yz by simp_all
  consider "head_less x y" "head_less y z" | "head_less x y" "plain_item y = plain_item z"
    | "plain_item x = plain_item y" "head_less y z" | "plain_item x = plain_item y" "plain_item y = plain_item z"
      "items_less xs ys'" "items_less ys' zs'"
  proof (cases "head_less x y")
    case True
    then show thesis using that(1,2) Cons.prems(5) yz head_not_less [of y z] by auto
  next
    case False
    then have "plain_item x = plain_item y" "items_less xs ys'"
      using Cons.prems(4) yz head_not_less [of x y] by auto
    then show thesis using that(3,4) Cons.prems(5) yz head_not_less [of y z] by (cases "head_less y z") auto
  qed
  then show ?case
  proof cases
    case 1
    with head_less_trans [OF bx] yz show ?thesis by simp
  next
    case 2
    then have "head_less x z" using head_less_plain by metis
    with yz show ?thesis by simp
  next
    case 3
    then have "head_less x z" using head_less_plain by metis
    with yz show ?thesis by simp
  next
    case 4
    then have "items_less xs zs'" using Cons.IH [of ys' zs'] Cons.prems(1) len by simp
    moreover have "\<not> head_less z x" using 4 head_less_plain [of z x] less_irrefl [of "snd (plain_item z)"]
      by (simp add: head_less_def)
    ultimately show ?thesis using yz by simp
  qed
qed simp

lemma pointer_less_trans: "pointer_less s t \<Longrightarrow> pointer_less t u \<Longrightarrow> pointer_less s u"
  by (cases s; cases t; cases u) auto

lemma value_less_types:
  "value_less v w \<Longrightarrow> type_number (value_kind v) < type_number (value_kind w) \<or> value_kind v = value_kind w"
  by (cases v; cases w) (auto simp: value_kind_def split: if_splits)

lemma value_less_other: "value_kind v \<noteq> value_kind w \<Longrightarrow> value_less v w = (type_number (value_kind v) < type_number (value_kind w))"
  by (cases v; cases w) (simp add: value_kind_def)

lemma type_number_inj: "type_number a = type_number b \<Longrightarrow> a = b"
  by (cases a; cases b) simp_all

lemma item_in_held: "x \<in> set xs \<Longrightarrow> snd x \<in> set_held (HArray xs)" "x \<in> set xs \<Longrightarrow> snd x \<in> set_held (HObject xs)"
  by (cases x; force)+

lemma less_containers:
  "value_less (JV c (HArray xs)) (JV d (HArray ys)) = (length xs < length ys \<or> length xs = length ys \<and> items_less xs ys)"
  "value_less (JV c (HObject xs)) (JV d (HObject ys)) = (length xs < length ys \<or> length xs = length ys \<and> items_less xs ys)"
  by auto

lemma value_less_trans: "below_trans v"
proof (induction v)
  case (JV c a)
  show ?case unfolding below_trans_def
  proof (intro allI impI)
    fix w u assume vw: "value_less (JV c a) w" and wu: "value_less w u"
    obtain d b where w: "w = JV d b" by (cases w)
    obtain e g where u: "u = JV e g" by (cases u)
    show "value_less (JV c a) u"
    proof (cases "held_type a = held_type b \<and> held_type b = held_type g")
      case False
      with value_less_types [OF vw] value_less_types [OF wu] type_number_inj
      have "type_number (held_type a) < type_number (held_type g)" by (auto simp: value_kind_def w u)
      then show ?thesis by (auto simp: u)
    next
      case True
      then have ab: "held_type a = held_type b" and bg: "held_type b = held_type g" by simp_all
      from ab show ?thesis
      proof (cases rule: held_cases)
        case (Array xs ys)
        then have "held_type g = ArrayValue" using bg by simp
        then obtain zs where zs: "g = HArray zs" by (auto simp: held_type_iff)
        have "\<forall>x \<in> set xs. below_trans (snd x)" using JV Array item_in_held(1) by blast
        from vw wu have "length xs < length ys \<or> length xs = length ys \<and> items_less xs ys"
          "length ys < length zs \<or> length ys = length zs \<and> items_less ys zs"
          unfolding w u zs Array less_containers by simp_all
        with items_less_trans [OF \<open>\<forall>x \<in> set xs. below_trans (snd x)\<close>, of ys zs] show ?thesis
          unfolding u zs Array less_containers by linarith
      next
        case (Object xs ys)
        then have "held_type g = ObjectValue" using bg by simp
        then obtain zs where zs: "g = HObject zs" by (auto simp: held_type_iff)
        have "\<forall>x \<in> set xs. below_trans (snd x)" using JV Object item_in_held(2) by blast
        from vw wu have "length xs < length ys \<or> length xs = length ys \<and> items_less xs ys"
          "length ys < length zs \<or> length ys = length zs \<and> items_less ys zs"
          unfolding w u zs Object less_containers by simp_all
        with items_less_trans [OF \<open>\<forall>x \<in> set xs. below_trans (snd x)\<close>, of ys zs] show ?thesis
          unfolding u zs Object less_containers by linarith
      qed (use vw wu w u bg [symmetric] in \<open>auto simp: held_type_iff dest: pointer_less_trans\<close>)
    qed
  qed
qed

text \<open>
  The values of \<open>operator<\<close> are in a strict total order, as the ordered containers of the standard
  library require: of two values exactly one is smaller unless \<open>operator==\<close> holds, which it does if
  they agree up to their comments, and smaller is transitive through arrays and objects of any depth.
\<close>

theorem json_values_are_ordered:
  "one_of (value_less v w) (value_equal v w) (value_less w v) \<and> (value_equal v w = (plain v = plain w)) \<and>
   (value_less v w \<longrightarrow> value_less w u \<longrightarrow> value_less v u)"
  using less_trichotomy(1) [of v w] value_less_trans [of v] by (auto simp: equal_iff_plain below_trans_def)

theorem json_values_are_ordered_witness:
  "value_less (JV no_comments (HInt 1)) (JV no_comments (HInt 3))"
  using json_values_are_ordered [of "JV no_comments (HInt 1)" "JV no_comments (HInt 2)" "JV no_comments (HInt 3)"] by simp

section \<open>Reading\<close>

text \<open>The value as \<open>Json\<close> has it: an array shows null in its holes.\<close>

definition last_index :: "(czkey \<times> 'v) list \<Rightarrow> int" where
  "last_index xs = (if xs = [] then - 1 else key_index (fst (last xs)))"

definition listed :: "(czkey \<times> json) list \<Rightarrow> json list" where
  "listed xs = map (\<lambda>i. case map_find xs (Index (int i)) of None \<Rightarrow> JNull | Some x \<Rightarrow> x) [0..<nat (last_index xs + 1)]"

fun json_of :: "json held \<Rightarrow> json" where
  "json_of HNull = JNull"
| "json_of (HInt i) = JInt i"
| "json_of (HUInt u) = JUInt u"
| "json_of (HReal r) = JReal r"
| "json_of (HString s) = JString (case s of None \<Rightarrow> [] | Some t \<Rightarrow> t)"
| "json_of (HBool b) = JBool b"
| "json_of (HArray xs) = JArray (listed xs)"
| "json_of (HObject ms) = JObject (map (\<lambda>(k, x). (key_name k, x)) ms)"

primrec view :: "jvalue \<Rightarrow> json" where
  "view (JV c h) = json_of (map_held view h)"

text \<open>
  \<open>size\<close>; the size of an array is its last index plus one, in 32 bits. The key of an index is an
  \<open>int\<close>, to which the unsigned index is converted.
\<close>

definition value_size :: "jvalue \<Rightarrow> 32 word" where
  "value_size v =
     (case held v of
        HArray xs \<Rightarrow> word_of_int (last_index xs + 1)
      | HObject ms \<Rightarrow> of_nat (length ms)
      | _ \<Rightarrow> 0)"

definition index_key :: "32 word \<Rightarrow> czkey" where
  "index_key i = Index (sint i)"

text \<open>
  The constant \<open>operator[]\<close>: nothing stands for a reference to \<open>Value::null\<close>, which \<open>get\<close> and
  \<open>isMember\<close> tell from a null value that is stored.
\<close>

definition find_index :: "jvalue \<Rightarrow> 32 word \<Rightarrow> exn + jvalue option" where
  "find_index v i =
     (case held v of HNull \<Rightarrow> Inr None | HArray xs \<Rightarrow> Inr (map_find xs (index_key i)) | _ \<Rightarrow> Inl Abort)"

definition find_member :: "jvalue \<Rightarrow> string \<Rightarrow> exn + jvalue option" where
  "find_member v n =
     (case held v of HNull \<Rightarrow> Inr None | HObject ms \<Rightarrow> Inr (map_find ms (Name (c_str n))) | _ \<Rightarrow> Inl Abort)"

definition or_value :: "jvalue \<Rightarrow> exn + jvalue option \<Rightarrow> exn + jvalue" where
  "or_value d x = (case x of Inl e \<Rightarrow> Inl e | Inr None \<Rightarrow> Inr d | Inr (Some y) \<Rightarrow> Inr y)"

definition at_index :: "jvalue \<Rightarrow> 32 word \<Rightarrow> exn + jvalue" where
  "at_index v i = or_value null_value (find_index v i)"

definition at_member :: "jvalue \<Rightarrow> string \<Rightarrow> exn + jvalue" where
  "at_member v n = or_value null_value (find_member v n)"

definition get_index :: "jvalue \<Rightarrow> 32 word \<Rightarrow> jvalue \<Rightarrow> exn + jvalue" where
  "get_index v i d = or_value d (find_index v i)"

definition get_member :: "jvalue \<Rightarrow> string \<Rightarrow> jvalue \<Rightarrow> exn + jvalue" where
  "get_member v n d = or_value d (find_member v n)"

definition is_valid_index :: "jvalue \<Rightarrow> 32 word \<Rightarrow> bool" where
  "is_valid_index v i = (i < value_size v)"

definition is_member :: "jvalue \<Rightarrow> string \<Rightarrow> exn + bool" where
  "is_member v n = (case find_member v n of Inl e \<Rightarrow> Inl e | Inr x \<Rightarrow> Inr (x \<noteq> None))"

text \<open>\<open>getMemberNames\<close> lets a null value pass its assertion and then follows its map, which it has not.\<close>

definition member_names :: "jvalue \<Rightarrow> exn + string list" where
  "member_names v = (case held v of HObject ms \<Rightarrow> Inr (map (\<lambda>(k, x). key_name k) ms) | _ \<Rightarrow> Inl Abort)"

definition is_type :: "value_type \<Rightarrow> jvalue \<Rightarrow> bool" where
  "is_type t v = (value_kind v = t)"

definition is_integral :: "jvalue \<Rightarrow> bool" where
  "is_integral v = (value_kind v \<in> {IntValue, UintValue, BooleanValue})"

definition is_numeric :: "jvalue \<Rightarrow> bool" where
  "is_numeric v = (is_integral v \<or> is_type RealValue v)"

definition is_array_value :: "jvalue \<Rightarrow> bool" where
  "is_array_value v = (value_kind v = NullValue \<or> value_kind v = ArrayValue)"

definition is_object_value :: "jvalue \<Rightarrow> bool" where
  "is_object_value v = (value_kind v = NullValue \<or> value_kind v = ObjectValue)"

fun as_double :: "'v held \<Rightarrow> exn + rat" where
  "as_double HNull = Inr 0"
| "as_double (HInt i) = Inr (of_int i)"
| "as_double (HUInt u) = Inr (of_int u)"
| "as_double (HReal r) = Inr r"
| "as_double (HBool b) = Inr (if b then 1 else 0)"
| "as_double _ = Inl Abort"

fun is_convertible_to :: "'v held \<Rightarrow> value_type \<Rightarrow> bool" where
  "is_convertible_to HNull t = True"
| "is_convertible_to (HInt i) t =
     (t = NullValue \<and> i = 0 \<or> t = IntValue \<or> t = UintValue \<and> 0 \<le> i \<or> t = RealValue \<or> t = StringValue \<or> t = BooleanValue)"
| "is_convertible_to (HUInt u) t =
     (t = NullValue \<and> u = 0 \<or> t = IntValue \<and> u \<le> max_int \<or> t = UintValue \<or> t = RealValue \<or> t = StringValue \<or> t = BooleanValue)"
| "is_convertible_to (HReal r) t =
     (t = NullValue \<and> r = 0 \<or> t = IntValue \<and> of_int (- max_int - 1) \<le> r \<and> r \<le> of_int max_int \<or>
      t = UintValue \<and> 0 \<le> r \<and> r \<le> of_int max_uint \<or> t = RealValue \<or> t = StringValue \<or> t = BooleanValue)"
| "is_convertible_to (HBool b) t =
     (t = NullValue \<and> \<not> b \<or> t = IntValue \<or> t = UintValue \<or> t = RealValue \<or> t = StringValue \<or> t = BooleanValue)"
| "is_convertible_to (HString s) t = (t = StringValue \<or> t = NullValue \<and> (s = None \<or> s = Some []))"
| "is_convertible_to (HArray xs) t = (t = ArrayValue \<or> t = NullValue \<and> xs = [])"
| "is_convertible_to (HObject ms) t = (t = ObjectValue \<or> t = NullValue \<and> ms = [])"

section \<open>Changing\<close>

text \<open>
  The other \<open>operator[]\<close> makes a container of null and an entry where there is none; what is assigned
  to the reference it returns keeps the comments of the entry.
\<close>

definition ensure_index :: "32 word \<Rightarrow> jvalue \<Rightarrow> exn + jvalue" where
  "ensure_index i v =
     (case held v of
        HNull \<Rightarrow> Inr (JV (slots v) (HArray (map_insert (index_key i) null_value [])))
      | HArray xs \<Rightarrow> Inr (JV (slots v) (HArray (map_insert (index_key i) null_value xs)))
      | _ \<Rightarrow> Inl Abort)"

definition ensure_member :: "string \<Rightarrow> jvalue \<Rightarrow> exn + jvalue" where
  "ensure_member n v =
     (case held v of
        HNull \<Rightarrow> Inr (JV (slots v) (HObject (map_insert (Name (c_str n)) null_value [])))
      | HObject ms \<Rightarrow> Inr (JV (slots v) (HObject (map_insert (Name (c_str n)) null_value ms)))
      | _ \<Rightarrow> Inl Abort)"

fun put_entry :: "czkey \<Rightarrow> jvalue \<Rightarrow> jvalue held \<Rightarrow> jvalue held" where
  "put_entry k x (HArray xs) = HArray (map_set k x xs)"
| "put_entry k x (HObject ms) = HObject (map_set k x ms)"
| "put_entry k x h = h"

fun entry :: "jvalue held \<Rightarrow> czkey \<Rightarrow> jvalue" where
  "entry (HArray xs) k = (case map_find xs k of None \<Rightarrow> null_value | Some x \<Rightarrow> x)"
| "entry (HObject ms) k = (case map_find ms k of None \<Rightarrow> null_value | Some x \<Rightarrow> x)"
| "entry h k = null_value"

definition set_index :: "32 word \<Rightarrow> jvalue \<Rightarrow> jvalue \<Rightarrow> exn + jvalue" where
  "set_index i x v =
     (case ensure_index i v of
        Inl e \<Rightarrow> Inl e
      | Inr w \<Rightarrow> Inr (JV (slots w) (put_entry (index_key i) (assign_value (entry (held w) (index_key i)) x) (held w))))"

definition set_member :: "string \<Rightarrow> jvalue \<Rightarrow> jvalue \<Rightarrow> exn + jvalue" where
  "set_member n x v =
     (case ensure_member n v of
        Inl e \<Rightarrow> Inl e
      | Inr w \<Rightarrow> Inr (JV (slots w) (put_entry (Name (c_str n)) (assign_value (entry (held w) (Name (c_str n))) x) (held w))))"

definition append_value :: "jvalue \<Rightarrow> jvalue \<Rightarrow> exn + jvalue" where
  "append_value x v = set_index (value_size v) x v"

definition clear_value :: "jvalue \<Rightarrow> exn + jvalue" where
  "clear_value v =
     (case held v of
        HNull \<Rightarrow> Inr v
      | HArray xs \<Rightarrow> Inr (JV (slots v) (HArray []))
      | HObject ms \<Rightarrow> Inr (JV (slots v) (HObject []))
      | _ \<Rightarrow> Inl Abort)"

text \<open>The entries \<open>resize\<close> erases: the indices from the new size up to the old one.\<close>

definition erase_from :: "32 word \<Rightarrow> 32 word \<Rightarrow> (czkey \<times> 'v) list \<Rightarrow> (czkey \<times> 'v) list" where
  "erase_from new old xs =
     filter (\<lambda>(k, x). case k of Index i \<Rightarrow> \<not> (new \<le> word_of_int i \<and> word_of_int i < old) | Name n \<Rightarrow> True) xs"

definition resize_value :: "32 word \<Rightarrow> jvalue \<Rightarrow> exn + jvalue" where
  "resize_value new v0 =
     (let v = (if held v0 = HNull then JV (slots v0) (HArray []) else v0) in
      case held v of
        HArray xs \<Rightarrow>
          if new = 0 then clear_value v
          else if new > value_size v then ensure_index (new - 1) v
          else
            let w = JV (slots v) (HArray (erase_from new (value_size v) xs)) in
            if value_size w = new then Inr w else Inl Abort
      | _ \<Rightarrow> Inl Abort)"

text \<open>\<open>setComment\<close>, \<open>hasComment\<close> and \<open>getComment\<close>\<close>

datatype placement = Comment_before | Comment_same_line | Comment_after

fun comment_at :: "placement \<Rightarrow> comment_slots \<Rightarrow> string option" where
  "comment_at Comment_before c = comment_before c"
| "comment_at Comment_same_line c = comment_same_line c"
| "comment_at Comment_after c = comment_after c"

fun put_comment :: "placement \<Rightarrow> string \<Rightarrow> comment_slots \<Rightarrow> comment_slots" where
  "put_comment Comment_before t c = c\<lparr>comment_before := Some (c_str t)\<rparr>"
| "put_comment Comment_same_line t c = c\<lparr>comment_same_line := Some (c_str t)\<rparr>"
| "put_comment Comment_after t c = c\<lparr>comment_after := Some (c_str t)\<rparr>"

definition set_comment :: "string \<Rightarrow> placement \<Rightarrow> jvalue \<Rightarrow> jvalue" where
  "set_comment t p v = JV (put_comment p t (slots v)) (held v)"

definition has_comment :: "placement \<Rightarrow> jvalue \<Rightarrow> bool" where
  "has_comment p v = (comment_at p (slots v) \<noteq> None)"

definition get_comment :: "placement \<Rightarrow> jvalue \<Rightarrow> string" where
  "get_comment p v = (case comment_at p (slots v) of None \<Rightarrow> [] | Some t \<Rightarrow> t)"

section \<open>Arrays are lists\<close>

text \<open>
  An array whose indices fit the \<open>int\<close> of a key is the list that reading it shows, padded with null
  where nothing is stored.
\<close>

definition array_ok :: "(czkey \<times> 'v) list \<Rightarrow> bool" where
  "array_ok xs = (map_ok xs \<and> list_all (\<lambda>(k, x). case k of Index i \<Rightarrow> 0 \<le> i \<and> i < max_int | Name n \<Rightarrow> False) xs)"

definition list_like :: "jvalue \<Rightarrow> bool" where
  "list_like v = (case held v of HNull \<Rightarrow> True | HArray xs \<Rightarrow> array_ok xs | _ \<Rightarrow> False)"

definition elements :: "jvalue \<Rightarrow> json list" where
  "elements v = (case view v of JArray xs \<Rightarrow> xs | _ \<Rightarrow> [])"

definition pad :: "nat \<Rightarrow> json list \<Rightarrow> json list" where
  "pad n xs = xs @ replicate (n - length xs) JNull"

lemma sint_small: "unat i < 2147483648 \<Longrightarrow> sint (i :: 32 word) = int (unat i)"
proof -
  assume "unat i < 2147483648"
  then have "int (unat i) < 2147483648" by linarith
  moreover have "- (2 ^ 31) \<le> int (unat i)" by (rule order_trans [of _ 0]) simp_all
  ultimately have "signed_take_bit 31 (int (unat i)) = int (unat i)" by (intro signed_take_bit_int_eq_self) simp_all
  then show ?thesis unfolding sint_uint uint_nat by simp
qed

lemma index_key_small: "unat i < 2147483648 \<Longrightarrow> index_key i = Index (int (unat i))"
  by (simp add: index_key_def sint_small)

lemma map_find_map: "map_find (map (map_prod id f) xs) k = map_option f (map_find xs k)"
  by (induction xs) (auto simp: map_find_def)

lemma last_index_map [simp]: "last_index (map (map_prod id f) xs) = last_index xs"
  by (cases xs rule: rev_cases) (auto simp: last_index_def)

lemma last_map_set:
  "map_ok m \<Longrightarrow> fst (last (map_set k v m)) = (if m = [] then k else max k (fst (last m)))"
proof (induction k v m rule: map_set.induct)
  case (2 k v a b m)
  have "a \<le> fst (last ((a, b) # m))"
    using 2(2) by (cases m rule: rev_cases) (auto simp: map_ok_def sorted_wrt_append)
  with 2 show ?case by (auto simp: map_ok_def max_def)
qed simp

lemma key_index_max: "array_ok xs \<Longrightarrow> xs \<noteq> [] \<Longrightarrow> \<exists>j. fst (last xs) = Index j \<and> 0 \<le> j \<and> j < max_int"
proof -
  assume ok: "array_ok xs" and ne: "xs \<noteq> []"
  obtain k x where l: "last xs = (k, x)" by (cases "last xs")
  with last_in_set [OF ne] ok have "case k of Index i \<Rightarrow> 0 \<le> i \<and> i < max_int | Name n \<Rightarrow> False"
    by (auto simp: array_ok_def list_all_iff)
  with l show ?thesis by (auto split: czkey.splits)
qed

lemma last_index_bounds: "array_ok xs \<Longrightarrow> - 1 \<le> last_index xs \<and> last_index xs < max_int"
  using key_index_max [of xs] by (auto simp: last_index_def max_int_def)

lemma max_Index: "max (Index i) (Index j) = Index (max i j)"
  by (auto simp: max_def less_eq_czkey_def)

lemma array_ok_set: "array_ok xs \<Longrightarrow> 0 \<le> i \<Longrightarrow> i < max_int \<Longrightarrow> array_ok (map_set (Index i) x xs)"
proof -
  have "set (map_set k x xs) \<subseteq> insert (k, x) (set xs)" for k :: czkey
    by (induction k x xs rule: map_set.induct) auto
  then show "array_ok xs \<Longrightarrow> 0 \<le> i \<Longrightarrow> i < max_int \<Longrightarrow> array_ok (map_set (Index i) x xs)"
    by (fastforce simp: array_ok_def list_all_iff)
qed

lemma last_index_set:
  assumes "array_ok xs" "0 \<le> i"
  shows "last_index (map_set (Index i) x xs) = max i (last_index xs)"
proof (cases "xs = []")
  case False
  with key_index_max [OF assms(1)] obtain j where "fst (last xs) = Index j" by auto
  with assms(1) False last_map_set [of xs "Index i" x] show ?thesis
    by (simp add: array_ok_def last_index_def max_Index)
qed (use assms(2) in \<open>simp add: last_index_def\<close>)

lemma map_find_beyond:
  assumes "array_ok xs" "last_index xs < i"
  shows "map_find xs (Index i) = None"
proof (rule ccontr)
  assume "map_find xs (Index i) \<noteq> None"
  then obtain x where "(Index i, x) \<in> set xs" using assms(1) map_find_iff [of xs] by (auto simp: array_ok_def)
  then obtain us vs where xs: "xs = us @ (Index i, x) # vs" by (auto dest: split_list)
  show False
  proof (cases vs rule: rev_cases)
    case Nil
    with xs assms(2) show False by (simp add: last_index_def)
  next
    case (snoc ws y)
    with xs assms(1) key_index_max [OF assms(1)] have "Index i < fst y" "fst y = Index (last_index xs)"
      by (auto simp: array_ok_def map_ok_def sorted_wrt_append last_index_def)
    with assms(2) show False by simp
  qed
qed

lemma length_listed: "length (listed xs) = nat (last_index xs + 1)"
  by (simp add: listed_def)

lemma nth_listed:
  "i < length (listed xs) \<Longrightarrow> listed xs ! i = (case map_find xs (Index (int i)) of None \<Rightarrow> JNull | Some x \<Rightarrow> x)"
  by (simp add: listed_def)

lemma listed_set:
  assumes "array_ok xs"
  shows "listed (map_set (Index (int i)) x xs) = (pad (Suc i) (listed xs))[i := x]"
proof (rule nth_equalityI)
  have "nat (max (int i) (last_index xs) + 1) = max (Suc i) (nat (last_index xs + 1))" by linarith
  then show len: "length (listed (map_set (Index (int i)) x xs)) = length ((pad (Suc i) (listed xs))[i := x])"
    by (simp add: length_listed last_index_set [OF assms] pad_def max_def)
  fix j assume j: "j < length (listed (map_set (Index (int i)) x xs))"
  show "listed (map_set (Index (int i)) x xs) ! j = (pad (Suc i) (listed xs))[i := x] ! j"
  proof (cases "j < length (listed xs)")
    case True
    then show ?thesis using j len by (cases "j = i") (simp_all add: nth_listed pad_def nth_append)
  next
    case False
    then have "map_find xs (Index (int j)) = None"
      using last_index_bounds [OF assms] by (intro map_find_beyond [OF assms]) (simp add: length_listed)
    with False j len show ?thesis
      by (cases "j = i") (simp_all add: nth_listed pad_def nth_append)
  qed
qed

text \<open>How the operations act on the list of an array.\<close>

lemma view_assign [simp]: "view (assign_value y x) = view x"
  by (cases x) (simp add: assign_value_def)

lemma view_null [simp]: "view null_value = JNull"
  by (simp add: null_value_def new_value_def)

definition viewed :: "(czkey \<times> jvalue) list \<Rightarrow> (czkey \<times> json) list" where
  "viewed xs = map (map_prod id view) xs"

lemma viewed_simps [simp]:
  "map_find (viewed xs) k = map_option view (map_find xs k)" "last_index (viewed xs) = last_index xs"
  "viewed [] = []"
  by (simp_all add: viewed_def map_find_map)

lemma viewed_set: "viewed (map_set k x xs) = map_set k (view x) (viewed xs)"
  unfolding viewed_def by (induction k x xs rule: map_set.induct) auto

lemma array_ok_viewed [simp]: "array_ok (viewed xs) = array_ok xs"
  by (simp add: array_ok_def map_ok_def viewed_def list_all_iff split_def comp_def)

lemma elements_array: "elements (JV c (HArray xs)) = listed (viewed xs)"
  by (simp add: elements_def viewed_def)

lemma array_ok_Nil [simp]: "array_ok []"
  by (simp add: array_ok_def)

text \<open>A list-like value has the same elements as the array it is made to when it is null.\<close>

definition items_of :: "jvalue \<Rightarrow> (czkey \<times> jvalue) list" where
  "items_of v = (case held v of HArray xs \<Rightarrow> xs | _ \<Rightarrow> [])"

lemma list_likeD:
  assumes "list_like v"
  shows "array_ok (items_of v)" "elements v = listed (viewed (items_of v))"
    "held v = HNull \<and> items_of v = [] \<or> held v = HArray (items_of v)"
  using assms by (cases v; auto simp: list_like_def items_of_def elements_def listed_def last_index_def viewed_def
      split: held.splits)+

lemma length_elements: "list_like v \<Longrightarrow> int (length (elements v)) = last_index (items_of v) + 1"
  using list_likeD(2) [of v] last_index_bounds [OF list_likeD(1), of v] by (simp add: length_listed)

lemma length_elements_max: "list_like v \<Longrightarrow> length (elements v) \<le> 2147483647"
  using length_elements [of v] last_index_bounds [OF list_likeD(1), of v] by (simp add: max_int_def)

lemma unat_value_size: "list_like v \<Longrightarrow> unat (value_size v) = length (elements v)"
proof -
  assume v: "list_like v"
  have "value_size v = word_of_int (last_index (items_of v) + 1)"
    using list_likeD(3) [OF v] by (auto simp: value_size_def last_index_def)
  also have "\<dots> = of_nat (length (elements v))" by (simp flip: length_elements [OF v])
  finally have "unat (value_size v) = length (elements v) mod 2 ^ 32" by (simp add: unat_of_nat)
  then show ?thesis using length_elements_max [OF v] by simp
qed

lemma at_index_list:
  assumes "list_like v" "unat i < 2147483648"
  shows "\<exists>x. at_index v i = Inr x \<and> view x = (if unat i < length (elements v) then elements v ! unat i else JNull)"
proof -
  note v = list_likeD [OF assms(1)]
  have find: "find_index v i = Inr (map_find (items_of v) (Index (int (unat i))))"
    using v(3) by (auto simp: find_index_def index_key_small [OF assms(2)])
  show ?thesis
  proof (cases "unat i < length (elements v)")
    case True
    then have "elements v ! unat i = (case map_find (viewed (items_of v)) (Index (int (unat i))) of None \<Rightarrow> JNull | Some x \<Rightarrow> x)"
      using nth_listed [of "unat i" "viewed (items_of v)"] v(2) by simp
    with find True show ?thesis by (auto simp: at_index_def or_value_def split: option.split)
  next
    case False
    then have "map_find (items_of v) (Index (int (unat i))) = None"
      using length_elements [OF assms(1)] by (intro map_find_beyond [OF v(1)]) linarith
    with find False show ?thesis by (simp add: at_index_def or_value_def)
  qed
qed

lemma ensure_index_list:
  assumes "list_like v" "unat i < 2147483648"
  shows "ensure_index i v = Inr (JV (slots v) (HArray (map_insert (Index (int (unat i))) null_value (items_of v))))"
  using list_likeD(3) [OF assms(1)] by (auto simp: ensure_index_def index_key_small [OF assms(2)])

lemma map_set_insert: "map_set k x (map_insert k d m) = map_set k x m"
proof -
  have "map_set k x (map_set k d m) = map_set k x m" by (induction k d m rule: map_set.induct) auto
  then show ?thesis by (simp add: map_insert_def split: option.split)
qed

lemma set_index_list:
  assumes "list_like v" "unat i < 2147483647"
  obtains w where "set_index i x v = Inr w" "list_like w"
    "elements w = (pad (Suc (unat i)) (elements v))[unat i := view x]" "slots w = slots v"
proof -
  note v = list_likeD [OF assms(1)]
  have i: "unat i < 2147483648" using assms(2) by simp
  define y where "y = assign_value (entry (HArray (map_insert (Index (int (unat i))) null_value (items_of v))) (Index (int (unat i)))) x"
  define w where "w = JV (slots v) (HArray (map_set (Index (int (unat i))) y (items_of v)))"
  have y: "view y = view x" by (simp add: y_def)
  have "set_index i x v = Inr w"
    by (simp add: set_index_def ensure_index_list [OF assms(1) i] index_key_small [OF i] map_set_insert w_def y_def del: entry.simps)
  moreover have "int (unat i) < max_int" using assms(2) unfolding max_int_def by linarith
  then have "list_like w" using array_ok_set [OF v(1), of "int (unat i)" y] by (simp add: w_def list_like_def)
  moreover have "elements w = (pad (Suc (unat i)) (elements v))[unat i := view x]"
    using listed_set [of "viewed (items_of v)" "unat i" "view y"] v(1,2)
    by (simp add: w_def elements_array viewed_set y)
  ultimately show thesis using that by (simp add: w_def)
qed

lemma update_padded: "(pad (Suc n) xs)[n := x] = (if n < length xs then xs[n := x] else pad n xs @ [x])"
proof (cases "n < length xs")
  case False
  then have "Suc n - length xs = Suc (n - length xs)" by simp
  then have "pad (Suc n) xs = (xs @ replicate (n - length xs) JNull) @ [JNull]" by (simp add: pad_def replicate_append_same)
  with False show ?thesis by (simp add: pad_def list_update_append)
qed (simp add: pad_def)

definition as_array :: "jvalue \<Rightarrow> jvalue" where
  "as_array v = JV (slots v) (HArray (items_of v))"

lemma as_array:
  assumes "list_like v"
  shows "(if held v = HNull then JV (slots v) (HArray []) else v) = as_array v"
    "list_like (as_array v)" "elements (as_array v) = elements v" "slots (as_array v) = slots v"
    "items_of (as_array v) = items_of v" "held (as_array v) = HArray (items_of v)"
    "value_size (as_array v) = value_size v"
proof -
  note v = list_likeD [OF assms]
  show "(if held v = HNull then JV (slots v) (HArray []) else v) = as_array v"
    using v(3) by (auto simp: as_array_def) (metis jvalue.collapse)
  show u: "list_like (as_array v)" "elements (as_array v) = elements v" "slots (as_array v) = slots v"
    "items_of (as_array v) = items_of v" "held (as_array v) = HArray (items_of v)"
    using v by (auto simp: as_array_def list_like_def elements_array items_of_def)
  show "value_size (as_array v) = value_size v"
    using unat_value_size [OF u(1)] unat_value_size [OF assms] u(2) by (simp add: word_unat_eq_iff)
qed

lemma resize_array:
  assumes "list_like v"
  shows "resize_value n v =
    (if n = 0 then Inr (JV (slots v) (HArray []))
     else if value_size v < n then ensure_index (n - 1) (as_array v)
     else let w = JV (slots v) (HArray (erase_from n (value_size v) (items_of v))) in
       if value_size w = n then Inr w else Inl Abort)"
  unfolding resize_value_def as_array(1) [OF assms] Let_def
  by (simp add: as_array [OF assms] clear_value_def)

lemma resize_grows:
  assumes "list_like v" "unat n < 2147483648" "length (elements v) < unat n"
  obtains w where "resize_value n v = Inr w" "list_like w" "elements w = pad (unat n) (elements v)" "slots w = slots v"
proof -
  note v = list_likeD [OF assms(1)]
  have n: "n \<noteq> 0" "value_size v < n"
    using assms(3) unat_value_size [OF assms(1)] by (auto simp: word_less_nat_alt)
  then have n1: "unat (n - 1) = unat n - 1" by (simp add: unat_minus_one)
  note u = as_array [OF assms(1)]
  from n have res: "resize_value n v = ensure_index (n - 1) (as_array v)" by (simp add: resize_array [OF assms(1)])
  have none: "map_find (items_of v) (Index (int (unat n - 1))) = None"
    using assms(3) length_elements [OF assms(1)] by (intro map_find_beyond [OF v(1)]) linarith
  define w where "w = JV (slots v) (HArray (map_set (Index (int (unat n - 1))) null_value (items_of v)))"
  have "resize_value n v = Inr w"
    using res ensure_index_list [OF u(2), of "n - 1"] none assms(2)
    by (simp add: n1 u map_insert_def w_def)
  moreover have "int (unat n - 1) < max_int" using assms(2,3) unfolding max_int_def by linarith
  then have "list_like w" using array_ok_set [OF v(1), of "int (unat n - 1)" null_value] by (simp add: w_def list_like_def)
  moreover have "elements w = pad (unat n) (elements v)"
  proof -
    have "elements w = (pad (Suc (unat n - 1)) (elements v))[unat n - 1 := JNull]"
      using listed_set [of "viewed (items_of v)" "unat n - 1" JNull] v(1,2) by (simp add: w_def elements_array viewed_set)
    also have "\<dots> = pad (unat n - 1) (elements v) @ [JNull]"
    proof -
      have "\<not> unat n - 1 < length (elements v)" using assms(3) by linarith
      then show ?thesis unfolding update_padded by (rule if_not_P)
    qed
    also have "\<dots> = pad (unat n) (elements v)"
    proof -
      have "unat n - length (elements v) = Suc (unat n - 1 - length (elements v))" using assms(3) by simp
      then show ?thesis by (simp add: pad_def replicate_append_same)
    qed
    finally show ?thesis .
  qed
  ultimately show thesis using that by (simp add: w_def)
qed

lemma append_list:
  assumes "list_like v" "length (elements v) < 2147483647"
  obtains w where "append_value x v = Inr w" "list_like w" "elements w = elements v @ [view x]" "slots w = slots v"
proof -
  have "unat (value_size v) < 2147483647" using unat_value_size [OF assms(1)] assms(2) by simp
  from set_index_list [OF assms(1) this, of x] obtain w where
    w: "set_index (value_size v) x v = Inr w" "list_like w" "slots w = slots v"
    "elements w = (pad (Suc (unat (value_size v))) (elements v))[unat (value_size v) := view x]" .
  have "elements w = elements v @ [view x]"
    using w(4) by (simp add: unat_value_size [OF assms(1)] update_padded) (simp add: pad_def)
  with w that show thesis by (simp add: append_value_def)
qed

text \<open>
  Making an array smaller: the assertion at the end holds if there is an entry at the new last place,
  which is not so when the place was never written.
\<close>

lemma erase_from_array:
  assumes "array_ok xs" "unat n < 2147483648" "n \<le> s" "uint s = last_index xs + 1"
  shows "erase_from n s xs = filter (\<lambda>(k, x). k < Index (int (unat n))) xs"
  unfolding erase_from_def
proof (rule filter_cong [OF refl])
  fix y assume y: "y \<in> set xs"
  obtain k x where kx: "y = (k, x)" by fastforce
  with y assms(1) obtain i where i: "k = Index i" "0 \<le> i" "i < max_int"
    by (fastforce simp: array_ok_def list_all_iff split: czkey.splits)
  have "i \<le> last_index xs"
  proof (rule ccontr)
    assume "\<not> i \<le> last_index xs"
    then have "map_find xs k = None" using i(1) assms(1) by (simp add: map_find_beyond)
    with y kx show False by (force simp: map_find_keys map_keys_def)
  qed
  then have old: "i < uint s" using assms(4) by simp
  have u: "uint (word_of_int i :: 32 word) = i"
    using i(2,3) by (simp add: max_int_def uint_word_of_int)
  have "(n \<le> word_of_int i \<and> word_of_int i < s) = (int (unat n) \<le> i)"
    using old by (simp add: word_le_def word_less_def u)
  then show "(case y of (k, x) \<Rightarrow> case k of Index i \<Rightarrow> \<not> (n \<le> word_of_int i \<and> word_of_int i < s) | Name n \<Rightarrow> True) =
      (case y of (k, x) \<Rightarrow> k < Index (int (unat n)))"
    using kx i(1) by (simp add: not_le)
qed

definition before :: "nat \<Rightarrow> (czkey \<times> 'v) list \<Rightarrow> (czkey \<times> 'v) list" where
  "before m xs = filter (\<lambda>(k, x). k < Index (int m)) xs"

lemma array_ok_before: "array_ok xs \<Longrightarrow> array_ok (before m xs)"
proof -
  assume "array_ok xs"
  moreover have "map_ok xs \<Longrightarrow> map_ok (before m xs)"
    unfolding map_ok_def before_def by (induction xs) auto
  ultimately show ?thesis by (auto simp: array_ok_def list_all_iff before_def)
qed

lemma map_find_before:
  "map_ok xs \<Longrightarrow> map_find (before m xs) (Index (int i)) = (if i < m then map_find xs (Index (int i)) else None)"
  unfolding before_def map_ok_def by (induction xs) (auto simp: map_find_def split: if_splits)

lemma last_index_before:
  assumes "array_ok xs"
  shows "last_index (before m xs) < int m"
proof (cases "before m xs = []")
  case False
  then have "last (before m xs) \<in> set (before m xs)" by (rule last_in_set)
  moreover obtain j where "fst (last (before m xs)) = Index j"
    using key_index_max [OF array_ok_before [OF assms] False] by auto
  ultimately show ?thesis using False by (auto simp: before_def last_index_def)
qed (simp add: last_index_def)

lemma last_stored:
  assumes "array_ok xs" "0 \<le> last_index xs"
  shows "map_find xs (Index (last_index xs)) \<noteq> None"
proof -
  have "xs \<noteq> []" using assms(2) by (auto simp: last_index_def)
  moreover from this key_index_max [OF assms(1)] have "fst (last xs) = Index (last_index xs)" by (auto simp: last_index_def)
  ultimately show ?thesis by (metis last_in_set image_eqI map_find_keys map_keys_def)
qed

lemma last_index_before_iff:
  assumes "array_ok xs" "0 < m"
  shows "(last_index (before m xs) + 1 = int m) = (map_find xs (Index (int (m - 1))) \<noteq> None)"
proof
  note ok = array_ok_before [OF assms(1), of m]
  have find: "map_find (before m xs) (Index (int (m - 1))) = map_find xs (Index (int (m - 1)))"
    using assms by (subst map_find_before) (simp_all add: array_ok_def)
  { assume "last_index (before m xs) + 1 = int m"
    then have "last_index (before m xs) = int (m - 1)" using assms(2) by linarith
    with last_stored [OF ok] find show "map_find xs (Index (int (m - 1))) \<noteq> None" by simp }
  { assume "map_find xs (Index (int (m - 1))) \<noteq> None"
    with find map_find_beyond [OF ok] have "\<not> last_index (before m xs) < int (m - 1)" by metis
    with last_index_before [OF assms(1), of m] show "last_index (before m xs) + 1 = int m" by linarith }
qed

lemma listed_before:
  assumes "array_ok xs" "last_index (before m xs) + 1 = int m" "m \<le> length (listed xs)"
  shows "listed (before m xs) = take m (listed xs)"
  using assms(2,3) map_find_before [of xs m] assms(1)
  by (intro nth_equalityI) (auto simp: length_listed nth_listed array_ok_def)

lemma viewed_before: "viewed (before m xs) = before m (viewed xs)"
  unfolding viewed_def before_def by (induction xs) auto

lemma resize_shrinks:
  assumes "list_like v" "0 < unat n" "unat n \<le> length (elements v)"
  shows "resize_value n v =
    (if map_find (items_of v) (Index (int (unat n - 1))) = None then Inl Abort
     else Inr (JV (slots v) (HArray (before (unat n) (items_of v)))))"
    "map_find (items_of v) (Index (int (unat n - 1))) \<noteq> None \<Longrightarrow>
     elements (JV (slots v) (HArray (before (unat n) (items_of v)))) = take (unat n) (elements v)"
proof -
  note v = list_likeD [OF assms(1)]
  have n: "n \<noteq> 0" "\<not> value_size v < n" "unat n < 2147483648"
    using assms(2,3) unat_value_size [OF assms(1)] length_elements_max [OF assms(1)] by (auto simp: word_less_nat_alt)
  let ?ys = "before (unat n) (items_of v)"
  have "uint (value_size v) = last_index (items_of v) + 1"
    using unat_value_size [OF assms(1)] length_elements [OF assms(1)] by (simp add: uint_nat)
  then have erased: "erase_from n (value_size v) (items_of v) = ?ys"
    using erase_from_array [OF v(1) n(3), of "value_size v"] n(2) by (simp add: before_def)
  let ?w = "JV (slots v) (HArray ?ys)"
  have w: "list_like ?w" using array_ok_before [OF v(1)] by (simp add: list_like_def)
  have "int (unat (value_size ?w)) = last_index ?ys + 1"
    using unat_value_size [OF w] length_elements [OF w] by (simp add: items_of_def)
  moreover have "(value_size ?w = n) = (int (unat (value_size ?w)) = int (unat n))"
    unfolding word_unat_eq_iff by (simp only: of_nat_eq_iff)
  ultimately have "(value_size ?w = n) = (last_index ?ys + 1 = int (unat n))" by (simp only:)
  also have "\<dots> = (map_find (items_of v) (Index (int (unat n - 1))) \<noteq> None)"
    by (rule last_index_before_iff [OF v(1) assms(2)])
  finally have size: "(value_size ?w = n) = (map_find (items_of v) (Index (int (unat n - 1))) \<noteq> None)" .
  show "resize_value n v = (if map_find (items_of v) (Index (int (unat n - 1))) = None then Inl Abort else Inr ?w)"
    using n size by (simp add: resize_array [OF assms(1)] erased Let_def)
  assume "map_find (items_of v) (Index (int (unat n - 1))) \<noteq> None"
  then have "last_index ?ys + 1 = int (unat n)" using last_index_before_iff [OF v(1) assms(2)] by simp
  then show "elements ?w = take (unat n) (elements v)"
    using listed_before [of "viewed (items_of v)" "unat n"] v(1,2) assms(3)
    by (simp add: elements_array viewed_before flip: viewed_before)
qed

text \<open>
  C19: arrays behave as lists that are padded with null. Reading an index shows the element or, behind
  the end, null; assigning to an index makes the list long enough and changes that element only;
  appending adds one at the end; resizing to more pads, resizing to nothing empties. That holds for
  null as for an empty array, whatever holes the array has, below 2147483647 elements.
\<close>

theorem json_arrays_are_lists:
  assumes "list_like v" "unat i < 2147483647"
  shows "unat (value_size v) = length (elements v) \<and>
    (\<exists>y. at_index v i = Inr y \<and> view y = (if unat i < length (elements v) then elements v ! unat i else JNull)) \<and>
    (\<exists>w. set_index i x v = Inr w \<and> list_like w \<and> elements w = (pad (Suc (unat i)) (elements v))[unat i := view x]) \<and>
    (length (elements v) < 2147483647 \<longrightarrow>
      (\<exists>w. append_value x v = Inr w \<and> list_like w \<and> elements w = elements v @ [view x])) \<and>
    (length (elements v) < unat i \<longrightarrow>
      (\<exists>w. resize_value i v = Inr w \<and> list_like w \<and> elements w = pad (unat i) (elements v))) \<and>
    (\<exists>w. resize_value 0 v = Inr w \<and> list_like w \<and> elements w = [])"
proof (intro conjI impI)
  have i: "unat i < 2147483648" using assms(2) by simp
  show "unat (value_size v) = length (elements v)" by (rule unat_value_size [OF assms(1)])
  show "\<exists>y. at_index v i = Inr y \<and> view y = (if unat i < length (elements v) then elements v ! unat i else JNull)"
    by (rule at_index_list [OF assms(1) i])
  show "\<exists>w. set_index i x v = Inr w \<and> list_like w \<and> elements w = (pad (Suc (unat i)) (elements v))[unat i := view x]"
    by (rule set_index_list [OF assms]) blast
  show "\<exists>w. append_value x v = Inr w \<and> list_like w \<and> elements w = elements v @ [view x]"
    if "length (elements v) < 2147483647"
    by (rule append_list [OF assms(1) that]) blast
  show "\<exists>w. resize_value i v = Inr w \<and> list_like w \<and> elements w = pad (unat i) (elements v)"
    if "length (elements v) < unat i"
    by (rule resize_grows [OF assms(1) i that]) blast
  show "\<exists>w. resize_value 0 v = Inr w \<and> list_like w \<and> elements w = []"
    by (simp add: resize_array [OF assms(1)] list_like_def elements_array listed_def last_index_def)
qed

theorem json_arrays_are_lists_witness:
  "\<exists>w. set_index 2 (string_value ''a'') null_value = Inr w \<and> elements w = [JNull, JNull, JString ''a'']"
proof -
  have "list_like null_value" "elements null_value = []"
    by (simp_all add: list_like_def null_value_def new_value_def elements_def)
  moreover have "(pad 3 [])[2 := view (string_value ''a'')] = [JNull, JNull, JString ''a'']"
    by (simp add: pad_def string_value_def c_str_def numeral_3_eq_3 numeral_2_eq_2)
  moreover have "Suc (unat (2 :: 32 word)) = 3" "unat (2 :: 32 word) = 2" by simp_all
  ultimately show ?thesis
    using json_arrays_are_lists [of null_value 2 "string_value ''a''"] by (simp only:) auto
qed

text \<open>
  Making an array shorter ends the process unless something was stored at the last place that is
  to stay: \<open>resize\<close> only adds the last element when it makes an array longer, and its closing assertion
  does not hold when it cuts through the hole that leaves. Otherwise it keeps the first elements.
\<close>

theorem resize_through_a_hole_aborts:
  assumes "list_like v" "0 < unat n" "unat n \<le> length (elements v)"
  shows "(resize_value n v = Inl Abort \<longleftrightarrow> find_index v (n - 1) = Inr None) \<and>
    (\<forall>w. resize_value n v = Inr w \<longrightarrow> list_like w \<and> elements w = take (unat n) (elements v))"
proof -
  note v = list_likeD [OF assms(1)]
  have "n \<noteq> 0" using assms(2) by auto
  then have n1: "unat (n - 1) = unat n - 1" by (rule unat_minus_one)
  then have "unat (n - 1) < 2147483648" using assms(3) length_elements_max [OF assms(1)] by simp
  then have "find_index v (n - 1) = Inr (map_find (items_of v) (Index (int (unat n - 1))))"
    using v(3) by (auto simp: find_index_def index_key_small n1)
  moreover have "list_like (JV (slots v) (HArray (before (unat n) (items_of v))))"
    using array_ok_before [OF v(1)] by (simp add: list_like_def)
  ultimately show ?thesis using resize_shrinks [OF assms] by auto
qed

theorem resize_through_a_hole_aborts_witness:
  "\<exists>w. resize_value 5 null_value = Inr w \<and> resize_value 3 w = Inl Abort"
proof -
  define w where "w = JV no_comments (HArray [(Index 4, null_value)])"
  have grown: "resize_value 5 null_value = Inr w" unfolding w_def by code_simp
  have w: "list_like w" unfolding w_def by code_simp
  have "length (elements w) = 5" unfolding w_def by code_simp
  moreover have "find_index w (3 - 1) = Inr None" unfolding w_def by code_simp
  ultimately show ?thesis using resize_through_a_hole_aborts [OF w, of 3] grown by auto
qed

text \<open>A value can tell that it is convertible although the conversion ends the process.\<close>

lemma convertible_but_aborts:
  "is_convertible_to (HInt i) StringValue \<and> as_string (view (JV c (HInt i))) = Inl Abort"
  "is_convertible_to (HUInt max_int) IntValue \<and> as_int (view (JV c (HUInt max_int))) = Inl Abort"
  by simp_all

section \<open>Iterators\<close>

text \<open>
  The entries an iterator passes from \<open>begin\<close> to \<open>end\<close>, and what it says of the one it is at. It passes
  what is stored: the holes of an array are not visited.
\<close>

definition value_entries :: "jvalue \<Rightarrow> (czkey \<times> jvalue) list" where
  "value_entries v = (case held v of HArray xs \<Rightarrow> xs | HObject ms \<Rightarrow> ms | _ \<Rightarrow> [])"

fun iterator_key :: "czkey \<times> jvalue \<Rightarrow> jvalue" where
  "iterator_key (Name n, x) = string_value n"
| "iterator_key (Index i, x) = JV no_comments (HInt i)"

fun iterator_index :: "czkey \<times> jvalue \<Rightarrow> 32 word" where
  "iterator_index (Index i, x) = word_of_int i"
| "iterator_index (Name n, x) = - 1"

fun iterator_member_name :: "czkey \<times> jvalue \<Rightarrow> string" where
  "iterator_member_name (Name n, x) = n"
| "iterator_member_name (Index i, x) = []"

lemma iterator_reads_entries:
  assumes "list_like v" "e \<in> set (value_entries v)"
  shows "at_index v (iterator_index e) = Inr (snd e)"
proof -
  note v = list_likeD [OF assms(1)]
  obtain k x where e: "e = (k, x)" by fastforce
  have mem: "(k, x) \<in> set (items_of v)" "held v = HArray (items_of v)"
    using v(3) assms(2) by (auto simp: value_entries_def e)
  with v(1) obtain i where i: "k = Index i" "0 \<le> i" "i < max_int"
    by (fastforce simp: array_ok_def list_all_iff split: czkey.splits)
  then have "index_key (word_of_int i) = k"
    by (simp add: index_key_def sint_sbintrunc' signed_take_bit_int_eq_self max_int_def)
  moreover have "map_find (items_of v) k = Some x" using v(1) mem(1) by (simp add: array_ok_def map_find_iff)
  ultimately show ?thesis using mem(2) by (simp add: e i(1) at_index_def find_index_def or_value_def)
qed

section \<open>Objects are maps\<close>

definition object_like :: "jvalue \<Rightarrow> bool" where
  "object_like v = (case held v of HNull \<Rightarrow> True | HObject ms \<Rightarrow> map_ok ms | _ \<Rightarrow> False)"

definition members :: "jvalue \<Rightarrow> (czkey \<times> jvalue) list" where
  "members v = (case held v of HObject ms \<Rightarrow> ms | _ \<Rightarrow> [])"

lemma object_likeD:
  assumes "object_like v"
  shows "map_ok (members v)" "held v = HNull \<and> members v = [] \<or> held v = HObject (members v)"
  using assms by (auto simp: object_like_def members_def split: held.splits)

lemma find_member_object: "object_like v \<Longrightarrow> find_member v n = Inr (map_find (members v) (Name (c_str n)))"
  using object_likeD(2) [of v] by (auto simp: find_member_def)

lemma set_member_object:
  assumes "object_like v"
  obtains y where "set_member n x v = Inr (JV (slots v) (HObject (map_set (Name (c_str n)) y (members v))))" "view y = view x"
proof -
  let ?k = "Name (c_str n)"
  have "set_member n x v = Inr (JV (slots v) (HObject (map_set ?k
      (assign_value (entry (HObject (map_insert ?k null_value (members v))) ?k) x) (members v))))"
    using object_likeD(2) [OF assms] by (auto simp: set_member_def ensure_member_def map_set_insert simp del: entry.simps)
  then show thesis by (rule that) simp
qed

end
