(* ===== verification/Json_Path.thy ===== *)
theory Json_Path
  imports Json_Value
begin

text \<open>
  \<open>Json::Path\<close> (\<open>libs/json/json_value.cpp\<close>): a text such as \<open>.a[2].b\<close> is split into steps, which are
  followed through a value, to read it or to make what is missing.
\<close>

section \<open>Steps\<close>

datatype path_arg = Arg_none | Arg_index "32 word" | Arg_key string

datatype arg_kind = Kind_none | Kind_index | Kind_key

fun kind_of :: "path_arg \<Rightarrow> arg_kind" where
  "kind_of Arg_none = Kind_none"
| "kind_of (Arg_index i) = Kind_index"
| "kind_of (Arg_key k) = Kind_key"

text \<open>
  \<open>addPathInArg\<close>: a percent sign stands for an argument, but the position among the arguments never
  moves on, so it is always the first one. One of the wrong kind adds nothing.
\<close>

definition add_in_arg :: "path_arg list \<Rightarrow> arg_kind \<Rightarrow> path_arg list" where
  "add_in_arg ins k = (case ins of [] \<Rightarrow> [] | a # _ \<Rightarrow> if kind_of a = k then [a] else [])"

definition index_digits :: "string \<Rightarrow> 32 word" where
  "index_digits s = foldl (\<lambda>n c. n * 10 + of_nat (dec_digit c)) 0 s"

definition ends_name :: "char \<Rightarrow> bool" where
  "ends_name c = (c \<in> {CHR ''['', CHR ''.'', CHR 0x00})"

text \<open>
  \<open>makePath\<close>. Behind an index one character is consumed, whatever it is: errors are not reported.
  A name stops before a NUL byte, which the search for its end finds in the end of the pattern; there
  the loop adds empty names for ever, which is no result.
\<close>

function make_path :: "path_arg list \<Rightarrow> string \<Rightarrow> path_arg list option" where
  "make_path ins s =
     (case s of
        [] \<Rightarrow> Some []
      | c # t \<Rightarrow>
          if c = CHR ''['' then
            (if t \<noteq> [] \<and> hd t = CHR ''%'' then map_option ((@) (add_in_arg ins Kind_index)) (make_path ins (tl t))
             else map_option (Cons (Arg_index (index_digits (takeWhile is_dec t)))) (make_path ins (tl (dropWhile is_dec t))))
          else if c = CHR ''%'' then map_option ((@) (add_in_arg ins Kind_key)) (make_path ins t)
          else if c = CHR ''.'' then make_path ins t
          else if c = CHR 0x00 then None
          else map_option (Cons (Arg_key (takeWhile (\<lambda>c. \<not> ends_name c) s)))
                 (make_path ins (dropWhile (\<lambda>c. \<not> ends_name c) s)))"
  by pat_completeness auto

termination
  by (relation "measure (length \<circ> snd)")
    (auto simp: ends_name_def less_Suc_eq_le length_dropWhile_le intro: le_trans [OF diff_le_self length_dropWhile_le])

declare make_path.simps [simp del]

text \<open>\<open>Path::resolve\<close> with and without a default. Errors are not reported here either.\<close>

fun path_resolve :: "path_arg list \<Rightarrow> jvalue \<Rightarrow> exn + jvalue" where
  "path_resolve [] v = Inr v"
| "path_resolve (Arg_index i # p) v = (case at_index v i of Inl e \<Rightarrow> Inl e | Inr x \<Rightarrow> path_resolve p x)"
| "path_resolve (Arg_key k # p) v = (case at_member v k of Inl e \<Rightarrow> Inl e | Inr x \<Rightarrow> path_resolve p x)"
| "path_resolve (Arg_none # p) v = path_resolve p v"

fun path_resolve_default :: "path_arg list \<Rightarrow> jvalue \<Rightarrow> jvalue \<Rightarrow> exn + jvalue" where
  "path_resolve_default [] v d = Inr v"
| "path_resolve_default (Arg_index i # p) v d =
     (if \<not> is_array_value v \<or> is_valid_index v i then Inr d
      else case at_index v i of Inl e \<Rightarrow> Inl e | Inr x \<Rightarrow> path_resolve_default p x d)"
| "path_resolve_default (Arg_key k # p) v d =
     (if \<not> is_object_value v then Inr d
      else case find_member v k of
          Inl e \<Rightarrow> Inl e
        | Inr None \<Rightarrow> Inr d
        | Inr (Some x) \<Rightarrow> path_resolve_default p x d)"
| "path_resolve_default (Arg_none # p) v d = path_resolve_default p v d"

text \<open>\<open>Path::make\<close> and an assignment to what it refers to.\<close>

fun path_assign :: "path_arg list \<Rightarrow> jvalue \<Rightarrow> jvalue \<Rightarrow> exn + jvalue" where
  "path_assign [] x v = Inr (assign_value v x)"
| "path_assign (Arg_index i # p) x v =
     (case ensure_index i v of
        Inl e \<Rightarrow> Inl e
      | Inr w \<Rightarrow>
          (case path_assign p x (entry (held w) (index_key i)) of
             Inl e \<Rightarrow> Inl e
           | Inr y \<Rightarrow> Inr (JV (slots w) (put_entry (index_key i) y (held w)))))"
| "path_assign (Arg_key k # p) x v =
     (case ensure_member k v of
        Inl e \<Rightarrow> Inl e
      | Inr w \<Rightarrow>
          (case path_assign p x (entry (held w) (Name (c_str k))) of
             Inl e \<Rightarrow> Inl e
           | Inr y \<Rightarrow> Inr (JV (slots w) (put_entry (Name (c_str k)) y (held w)))))"
| "path_assign (Arg_none # p) x v = path_assign p x v"

section \<open>Following a path\<close>

lemma ensure_index_cases:
  assumes "ensure_index i v = Inr w"
  obtains xs where "held w = HArray (map_insert (index_key i) null_value xs)" "slots w = slots v"
    "held v = HArray xs \<or> held v = HNull \<and> xs = []"
  using assms by (auto simp: ensure_index_def split: held.splits)

lemma ensure_member_cases:
  assumes "ensure_member k v = Inr w"
  obtains ms where "held w = HObject (map_insert (Name (c_str k)) null_value ms)" "slots w = slots v"
    "held v = HObject ms \<or> held v = HNull \<and> ms = []"
  using assms by (auto simp: ensure_member_def split: held.splits)

lemma at_index_array: "held v = HArray xs \<or> held v = HNull \<and> xs = [] \<Longrightarrow>
    at_index v i = Inr (entry (HArray xs) (index_key i))"
  by (auto simp: at_index_def find_index_def or_value_def split: option.split)

lemma at_member_object: "held v = HObject ms \<or> held v = HNull \<and> ms = [] \<Longrightarrow>
    at_member v k = Inr (entry (HObject ms) (Name (c_str k)))"
  by (auto simp: at_member_def find_member_def or_value_def split: option.split)

lemma entry_insert [simp]:
  "entry (HArray (map_insert k null_value xs)) j = entry (HArray xs) j"
  "entry (HObject (map_insert k null_value xs)) j = entry (HObject xs) j"
  by (auto split: option.split)

lemma entry_set [simp]:
  "entry (HArray (map_set k x xs)) j = (if j = k then x else entry (HArray xs) j)"
  "entry (HObject (map_set k x xs)) j = (if j = k then x else entry (HObject xs) j)"
  by simp_all

declare entry.simps(1,2) [simp del]

text \<open>Two paths that part: after common steps they go to different entries of one container.\<close>

fun parts :: "path_arg list \<Rightarrow> path_arg list \<Rightarrow> bool" where
  "parts (Arg_index i # p) (Arg_index j # r) = (if i = j then parts p r else True)"
| "parts (Arg_key k # p) (Arg_key l # r) = (if c_str k = c_str l then parts p r else True)"
| "parts p r = False"

text \<open>The only error is a step through a value of another type.\<close>

fun path_fits :: "path_arg list \<Rightarrow> jvalue \<Rightarrow> bool" where
  "path_fits [] v = True"
| "path_fits (Arg_index i # p) v =
     (case held v of
        HNull \<Rightarrow> path_fits p null_value
      | HArray xs \<Rightarrow> path_fits p (entry (HArray xs) (index_key i))
      | _ \<Rightarrow> False)"
| "path_fits (Arg_key k # p) v =
     (case held v of
        HNull \<Rightarrow> path_fits p null_value
      | HObject ms \<Rightarrow> path_fits p (entry (HObject ms) (Name (c_str k)))
      | _ \<Rightarrow> False)"
| "path_fits (Arg_none # p) v = path_fits p v"

lemma path_assign_fits: "path_fits p v \<Longrightarrow> \<exists>w. path_assign p x v = Inr w"
proof (induction p v rule: path_fits.induct)
  case (2 i p v)
  then show ?case by (fastforce simp: ensure_index_def entry.simps split: held.splits)
next
  case (3 k p v)
  then show ?case by (fastforce simp: ensure_member_def entry.simps split: held.splits)
qed simp_all

lemma resolve_assigned:
  "path_assign p x v = Inr w \<Longrightarrow> \<exists>y. path_resolve p w = Inr y \<and> held y = held x"
proof (induction p x v arbitrary: w rule: path_assign.induct)
  case (1 x v)
  then show ?case by (auto simp: assign_value_def)
next
  case (2 i p x v)
  then obtain u y where u: "ensure_index i v = Inr u" "path_assign p x (entry (held u) (index_key i)) = Inr y"
    "w = JV (slots u) (put_entry (index_key i) y (held u))" by (auto split: sum.splits)
  from u(1) obtain xs where xs: "held u = HArray (map_insert (index_key i) null_value xs)" by (rule ensure_index_cases)
  have "at_index w i = Inr y" using at_index_array [of w _ i] u(3) xs by simp
  with 2(1) [OF u(1,2)] show ?case by simp
next
  case (3 k p x v)
  then obtain u y where u: "ensure_member k v = Inr u" "path_assign p x (entry (held u) (Name (c_str k))) = Inr y"
    "w = JV (slots u) (put_entry (Name (c_str k)) y (held u))" by (auto split: sum.splits)
  from u(1) obtain xs where xs: "held u = HObject (map_insert (Name (c_str k)) null_value xs)" by (rule ensure_member_cases)
  have "at_member w k = Inr y" using at_member_object [of w _ k] u(3) xs by simp
  with 3(1) [OF u(1,2)] show ?case by simp
qed simp

lemma index_key_inj [simp]: "(index_key i = index_key j) = (i = j)"
  by (auto simp: index_key_def intro: signed_word_eqI)

lemma resolve_elsewhere:
  "path_assign p x v = Inr w \<Longrightarrow> parts p r \<Longrightarrow> path_resolve r w = path_resolve r v"
proof (induction p r arbitrary: v w rule: parts.induct)
  case (1 i p j r)
  then obtain u y where u: "ensure_index i v = Inr u" "path_assign p x (entry (held u) (index_key i)) = Inr y"
    "w = JV (slots u) (put_entry (index_key i) y (held u))" by (auto split: sum.splits)
  from u(1) obtain xs where xs: "held u = HArray (map_insert (index_key i) null_value xs)"
    "held v = HArray xs \<or> held v = HNull \<and> xs = []" by (rule ensure_index_cases)
  have v: "at_index v j = Inr (entry (HArray xs) (index_key j))" using xs(2) by (rule at_index_array)
  have w: "at_index w j = Inr (if j = i then y else entry (HArray xs) (index_key j))"
    using at_index_array [of w _ j] u(3) xs by simp
  show ?case
  proof (cases "i = j")
    case True
    with 1 u(2) xs(1) have "path_resolve r y = path_resolve r (entry (HArray xs) (index_key i))" by simp
    with True v w show ?thesis by simp
  qed (use v w in simp)
next
  case (2 k p l r)
  then obtain u y where u: "ensure_member k v = Inr u" "path_assign p x (entry (held u) (Name (c_str k))) = Inr y"
    "w = JV (slots u) (put_entry (Name (c_str k)) y (held u))" by (auto split: sum.splits)
  from u(1) obtain xs where xs: "held u = HObject (map_insert (Name (c_str k)) null_value xs)"
    "held v = HObject xs \<or> held v = HNull \<and> xs = []" by (rule ensure_member_cases)
  have v: "at_member v l = Inr (entry (HObject xs) (Name (c_str l)))" using xs(2) by (rule at_member_object)
  have w: "at_member w l = Inr (if c_str l = c_str k then y else entry (HObject xs) (Name (c_str l)))"
    using at_member_object [of w _ l] u(3) xs by simp
  show ?case
  proof (cases "c_str k = c_str l")
    case True
    with 2 u(2) xs(1) have "path_resolve r y = path_resolve r (entry (HObject xs) (Name (c_str k)))" by simp
    with True v w show ?thesis by simp
  qed (use v w in simp)
qed simp_all

text \<open>
  C23: what is assigned through a path is found at that path and changes nothing at any path that parts
  from it; it makes the containers that are missing, and succeeds on every value whose types fit the
  steps.
\<close>

theorem assigned_path_is_resolved:
  assumes "path_fits p v"
  shows "\<exists>w. path_assign p x v = Inr w \<and> (\<exists>y. path_resolve p w = Inr y \<and> held y = held x) \<and>
    (\<forall>r. parts p r \<longrightarrow> path_resolve r w = path_resolve r v)"
  using path_assign_fits [OF assms, of x] resolve_assigned [of p x v] resolve_elsewhere [of p x v] by blast

theorem assigned_path_is_resolved_witness:
  "\<exists>w y. path_assign [Arg_key ''a'', Arg_index 1] (string_value ''b'') null_value = Inr w \<and>
     path_resolve [Arg_key ''a'', Arg_index 1] w = Inr y \<and> held y = HString (Some ''b'') \<and>
     path_resolve [Arg_key ''a'', Arg_index 0] w = Inr null_value"
proof -
  have "path_fits [Arg_key ''a'', Arg_index 1] null_value" "parts [Arg_key ''a'', Arg_index 1] [Arg_key ''a'', Arg_index 0]"
    "path_resolve [Arg_key ''a'', Arg_index 0] null_value = Inr null_value" "held (string_value ''b'') = HString (Some ''b'')"
    by code_simp+
  then show ?thesis using assigned_path_is_resolved [of "[Arg_key ''a'', Arg_index 1]" null_value "string_value ''b''"]
    by metis
qed

text \<open>
  Resolving with a default has the test of the index the wrong way round: an element that is there is
  never found, and an index behind the end is followed.
\<close>

lemma default_hides_elements:
  "is_valid_index v i \<Longrightarrow> path_resolve_default (Arg_index i # p) v d = Inr d"
  "path_resolve_default [Arg_index i] (JV c HNull) d = Inr null_value"
  by (simp_all add: is_array_value_def value_kind_def is_valid_index_def value_size_def at_index_def find_index_def or_value_def)

text \<open>With names only it does what it says.\<close>

fun path_present :: "path_arg list \<Rightarrow> jvalue \<Rightarrow> bool" where
  "path_present [] v = True"
| "path_present (Arg_key k # p) v =
     (case held v of HObject ms \<Rightarrow> (case map_find ms (Name (c_str k)) of None \<Rightarrow> False | Some x \<Rightarrow> path_present p x) | _ \<Rightarrow> False)"
| "path_present (a # p) v = False"

lemma default_by_name:
  "list_all (\<lambda>a. kind_of a = Kind_key) p \<Longrightarrow>
   path_resolve_default p v d = (if path_present p v then path_resolve p v else Inr d)"
  by (induction p v rule: path_present.induct)
    (auto simp: is_object_value_def value_kind_def find_member_def at_member_def or_value_def split: held.splits option.splits)

section \<open>The text of a path\<close>

fun step_text :: "path_arg \<Rightarrow> string" where
  "step_text (Arg_index i) = CHR ''['' # show_nat (unat i) @ '']''"
| "step_text (Arg_key k) = CHR ''.'' # k"
| "step_text Arg_none = []"

definition path_source :: "path_arg list \<Rightarrow> string" where
  "path_source p = concat (map step_text p)"

fun plain_step :: "path_arg \<Rightarrow> bool" where
  "plain_step (Arg_index i) = True"
| "plain_step (Arg_key k) = (k \<noteq> [] \<and> hd k \<noteq> CHR ''%'' \<and> list_all (\<lambda>c. \<not> ends_name c) k)"
| "plain_step Arg_none = False"

lemma index_digits_of_nat:
  "foldl (\<lambda>n c. n * 10 + of_nat (dec_digit c)) (of_nat v) s = (of_nat (foldl (\<lambda>n c. n * 10 + dec_digit c) v s) :: 32 word)"
proof (induction s arbitrary: v)
  case (Cons c s)
  have "(of_nat v :: 32 word) * 10 + of_nat (dec_digit c) = of_nat (v * 10 + dec_digit c)" by simp
  with Cons.IH show ?case by (simp only: foldl.simps)
qed simp

lemma index_digits_show [simp]: "index_digits (show_nat (unat i)) = i"
  using index_digits_of_nat [of 0 "show_nat (unat i)"] dec_value_show_nat [of "unat i"]
  by (simp add: index_digits_def dec_value_def del: dec_value_show_nat show_nat.simps)

lemma takeWhile_digits:
  "list_all is_dec ds \<Longrightarrow> \<not> is_dec c \<Longrightarrow> takeWhile is_dec (ds @ c # s) = ds \<and> dropWhile is_dec (ds @ c # s) = c # s"
  by (induction ds) auto

lemma path_source_start: "list_all plain_step p \<Longrightarrow> path_source p = [] \<or> (\<exists>c s. path_source p = c # s \<and> ends_name c)"
proof (cases p)
  case (Cons a r)
  moreover assume "list_all plain_step p"
  ultimately show ?thesis by (cases a) (auto simp: path_source_def ends_name_def)
qed (simp add: path_source_def)

lemma takeWhile_name:
  "list_all (\<lambda>c. \<not> ends_name c) k \<Longrightarrow> s = [] \<or> (\<exists>c t. s = c # t \<and> ends_name c) \<Longrightarrow>
   takeWhile (\<lambda>c. \<not> ends_name c) (k @ s) = k \<and> dropWhile (\<lambda>c. \<not> ends_name c) (k @ s) = s"
  by (induction k) auto

lemma make_path_index:
  assumes "make_path ins s = Some p"
  shows "make_path ins (CHR ''['' # show_nat (unat i) @ CHR '']'' # s) = Some (Arg_index i # p)"
proof -
  obtain c ds where ds: "show_nat (unat i) = c # ds" using show_nat_nonempty by (meson list.exhaust)
  with show_nat_digits [of "unat i"] have "is_dec c" by simp
  then have c: "c \<noteq> CHR ''%''" by (auto simp: is_dec_def)
  have "\<not> is_dec (CHR '']'')" by (simp add: is_dec_def)
  note spans = takeWhile_digits [OF show_nat_digits this, of "unat i" s]
  show ?thesis
    using assms c spans by (subst make_path.simps) (simp add: ds del: show_nat.simps, simp flip: ds del: show_nat.simps)
qed

lemma make_path_key:
  assumes "plain_step (Arg_key k)" "s = [] \<or> (\<exists>c t. s = c # t \<and> ends_name c)" "make_path ins s = Some p"
  shows "make_path ins (CHR ''.'' # k @ s) = Some (Arg_key k # p)"
proof -
  obtain c t where k: "k = c # t" using assms(1) by (cases k) auto
  with assms(1) have c: "c \<noteq> CHR ''%''" "\<not> ends_name c" by simp_all
  have "make_path ins (k @ s) = Some (Arg_key k # p)"
    using takeWhile_name [of k s] assms c by (subst make_path.simps) (auto simp: k ends_name_def)
  then show ?thesis by (subst make_path.simps) simp
qed

text \<open>
  The text of a path is split into its steps again, whatever the arguments, when its names are not
  empty, do not start with a percent sign and hold no bracket, point or NUL byte.
\<close>

theorem path_text_is_split:
  assumes "list_all plain_step p"
  shows "make_path ins (path_source p) = Some p"
  using assms
proof (induction p)
  case Nil
  show ?case by (simp add: path_source_def make_path.simps)
next
  case (Cons a p)
  then have ih: "make_path ins (path_source p) = Some p" by simp
  show ?case
  proof (cases a)
    case (Arg_index i)
    with make_path_index [OF ih] show ?thesis by (simp add: path_source_def del: show_nat.simps)
  next
    case (Arg_key k)
    with make_path_key [OF _ path_source_start ih] Cons.prems show ?thesis by (simp add: path_source_def)
  qed (use Cons.prems in simp)
qed

theorem path_text_is_split_witness:
  "make_path [] ''.users[2].login'' = Some [Arg_key ''users'', Arg_index 2, Arg_key ''login'']"
proof -
  let ?p = "[Arg_key ''users'', Arg_index 2, Arg_key ''login'']"
  have "path_source ?p = ''.users[2].login''" "list_all plain_step ?p" by code_simp+
  with path_text_is_split [of ?p "[]"] show ?thesis by simp
qed

text \<open>
  Arguments: every percent sign takes the first one, and a bracket that is closed behind one becomes a
  name.
\<close>

lemma path_arguments:
  "make_path [Arg_key ''x'', Arg_key ''y''] ''.%.%'' = Some [Arg_key ''x'', Arg_key ''x'']"
  "make_path [Arg_index 7] ''[%].a'' = Some [Arg_index 7, Arg_key '']'', Arg_key ''a'']"
  by code_simp+

text \<open>Only a NUL byte keeps the loop from ending.\<close>

lemma make_path_ends: "CHR 0x00 \<notin> set s \<Longrightarrow> make_path ins s \<noteq> None"
proof (induction ins s rule: make_path.induct)
  case (1 ins s)
  have sub: "set (tl (dropWhile P t)) \<subseteq> set t" "set (dropWhile P t) \<subseteq> set t" for P and t :: string
  proof -
    have tl: "set (tl xs) \<subseteq> set xs" for xs :: string by (cases xs) auto
    show "set (dropWhile P t) \<subseteq> set t" by (auto dest: set_dropWhileD)
    with tl show "set (tl (dropWhile P t)) \<subseteq> set t" by (rule order_trans)
  qed
  show ?case
  proof (cases s)
    case (Cons c t)
    note ih = "1.IH" [OF Cons]
    have "CHR 0x00 \<notin> set t" "c \<noteq> CHR 0x00" using "1.prems" Cons by auto
    then have rest: "CHR 0x00 \<notin> set (tl t)" "CHR 0x00 \<notin> set (tl (dropWhile is_dec t))"
      "CHR 0x00 \<notin> set (dropWhile (\<lambda>c. \<not> ends_name c) s)"
      using sub(1) [of "\<lambda>_. False" t] sub(1) [of is_dec t] sub(2) [of "\<lambda>c. \<not> ends_name c" s] "1.prems" by (cases t; auto)+
    show ?thesis
      using ih rest \<open>CHR 0x00 \<notin> set t\<close> \<open>c \<noteq> CHR 0x00\<close> 
      by (subst make_path.simps) (auto simp: Cons)
  qed (simp add: make_path.simps)
qed

end
