(* ===== verification/Json_Styled.thy ===== *)
theory Json_Styled
  imports Json_Value Json_Correct
begin

text \<open>
  \<open>Json::StyledWriter\<close> (\<open>libs/json/json_writer.cpp\<close>): the writer for people. It breaks lines and
  indents; an array of small values is put on one line when it fits. The members of the writer are
  the state. What it writes is read back.
\<close>

section \<open>The writer\<close>

record styled =
  document :: string
  indent_string :: string
  child_values :: "string list"
  add_child_values :: bool

definition right_margin :: nat where
  "right_margin = 74"

definition indent_size :: nat where
  "indent_size = 3"

definition put_document :: "string \<Rightarrow> (styled, unit) eff" where
  "put_document s = modS (\<lambda>st. st\<lparr>document := document st @ s\<rparr>)"

definition push_value :: "string \<Rightarrow> (styled, unit) eff" where
  "push_value s = modS (\<lambda>st.
     if add_child_values st then st\<lparr>child_values := child_values st @ [s]\<rparr>
     else st\<lparr>document := document st @ s\<rparr>)"

definition write_indent :: "(styled, unit) eff" where
  "write_indent = modS (\<lambda>st.
     let d = document st in
     if d \<noteq> [] \<and> last d = CHR '' '' then st
     else st\<lparr>document := (if d \<noteq> [] \<and> last d \<noteq> CHR 0x0A then d @ [CHR 0x0A] else d) @ indent_string st\<rparr>)"

definition write_with_indent :: "string \<Rightarrow> (styled, unit) eff" where
  "write_with_indent s = bindE write_indent (\<lambda>_. put_document s)"

definition indent_more :: "(styled, unit) eff" where
  "indent_more = modS (\<lambda>st. st\<lparr>indent_string := indent_string st @ replicate indent_size (CHR '' '')\<rparr>)"

definition unindent :: "(styled, unit) eff" where
  "unindent st =
     (if length (indent_string st) < indent_size then (Inl Abort, st)
      else (Inr (), st\<lparr>indent_string := take (length (indent_string st) - indent_size) (indent_string st)\<rparr>))"

fun normalize_eol :: "string \<Rightarrow> string" where
  "normalize_eol [] = []"
| "normalize_eol (c # s) =
     (if c = CHR 0x0D then
        (case s of
           d # t \<Rightarrow> if d = CHR 0x0A then CHR 0x0A # normalize_eol t else CHR 0x0A # normalize_eol s
         | [] \<Rightarrow> [CHR 0x0A])
      else c # normalize_eol s)"

definition write_comment_before :: "jvalue \<Rightarrow> (styled, unit) eff" where
  "write_comment_before v =
     (if \<not> has_comment Comment_before v then ret ()
      else put_document (normalize_eol (get_comment Comment_before v) @ [CHR 0x0A]))"

definition write_comment_after :: "jvalue \<Rightarrow> (styled, unit) eff" where
  "write_comment_after v =
     bindE (if has_comment Comment_same_line v
            then put_document (CHR '' '' # normalize_eol (get_comment Comment_same_line v)) else ret ()) (\<lambda>_.
     if has_comment Comment_after v
     then put_document (CHR 0x0A # normalize_eol (get_comment Comment_after v) @ [CHR 0x0A]) else ret ())"

definition has_comment_for_value :: "jvalue \<Rightarrow> bool" where
  "has_comment_for_value v =
     (has_comment Comment_before v \<or> has_comment Comment_same_line v \<or> has_comment Comment_after v)"

text \<open>The values \<open>value[index]\<close> of an array, from 0 up to its size.\<close>

definition array_children :: "(czkey \<times> jvalue) list \<Rightarrow> jvalue list" where
  "array_children xs = map (\<lambda>i. entry (HArray xs) (Index (int i))) [0..<nat (last_index xs + 1)]"

text \<open>
  \<open>isMultineArray\<close>, the first test: too many elements, or one that is a container with something in it.
  The second loop asks for the comments of the elements only when the answer is already known (and so
  never): \<open>has_comment_for_value\<close> has no effect on it.
\<close>

definition has_inner :: "jvalue list \<Rightarrow> bool" where
  "has_inner vs = list_ex (\<lambda>v. (is_array_value v \<or> is_object_value v) \<and> 0 < value_size v) vs"

definition many_lines :: "jvalue list \<Rightarrow> bool" where
  "many_lines vs = (right_margin \<le> length vs * 3 \<or> has_inner vs)"

fun bound :: "jvalue list \<Rightarrow> nat" where
  "bound [] = 0"
| "bound (v # vs) = max (size v) (bound vs)"

lemma bound_less: "(\<forall>v \<in> set vs. size v < n) \<Longrightarrow> 0 < n \<Longrightarrow> bound vs < n"
  by (induction vs) simp_all

lemma item_smaller:
  "(k, v) \<in> set xs \<Longrightarrow> size v < size (JV c (HArray xs))"
  "(k, v) \<in> set xs \<Longrightarrow> size v < size (JV c (HObject xs))"
proof -
  have "(k, v) \<in> set xs \<Longrightarrow> size v \<le> size_list (size_prod (\<lambda>_. 0) size) xs"
    by (induction xs) auto
  then show "(k, v) \<in> set xs \<Longrightarrow> size v < size (JV c (HArray xs))" "(k, v) \<in> set xs \<Longrightarrow> size v < size (JV c (HObject xs))"
    by simp_all
qed

lemma entry_smaller:
  assumes "xs \<noteq> []"
  shows "size (entry (HArray xs) k) < size (JV c (HArray xs))"
proof (cases "map_find xs k")
  case None
  with assms show ?thesis by (cases xs) (auto simp: null_value_def new_value_def)
next
  case (Some v)
  then have "(k, v) \<in> set xs" by (auto simp: map_find_def dest: map_of_SomeD)
  with Some item_smaller(1) [of k v xs c] show ?thesis by simp
qed

lemma children_bound:
  "array_children xs \<noteq> [] \<Longrightarrow> bound (array_children xs) < size (JV c (HArray xs))"
proof (rule bound_less)
  assume "array_children xs \<noteq> []"
  then have "xs \<noteq> []" by (auto simp: array_children_def last_index_def)
  then show "\<forall>v \<in> set (array_children xs). size v < size (JV c (HArray xs))"
    using entry_smaller by (auto simp: array_children_def simp del: entry.simps)
qed simp

lemma members_bound: "bound (map snd ms) < size (JV c (HObject ms))"
  using item_smaller(2) by (intro bound_less) fastforce+

text \<open>
  \<open>writeValue\<close>, \<open>writeArrayValue\<close> with the two loops over the elements (into the list of texts, and
  over several lines) and the loop over the members. The string of a null pointer can not be written.
\<close>

function (sequential) styled_value :: "(rat \<Rightarrow> string) \<Rightarrow> jvalue \<Rightarrow> (styled, unit) eff"
  and styled_texts :: "(rat \<Rightarrow> string) \<Rightarrow> jvalue list \<Rightarrow> (styled, unit) eff"
  and styled_lines :: "(rat \<Rightarrow> string) \<Rightarrow> bool \<Rightarrow> nat \<Rightarrow> jvalue list \<Rightarrow> (styled, unit) eff"
  and styled_members :: "(rat \<Rightarrow> string) \<Rightarrow> (czkey \<times> jvalue) list \<Rightarrow> (styled, unit) eff" where
  "styled_value pf (JV c h) =
     (case h of
        HNull \<Rightarrow> push_value ''null''
      | HInt i \<Rightarrow> push_value (show_int i)
      | HUInt u \<Rightarrow> push_value (show_int u)
      | HReal r \<Rightarrow> push_value (pf r)
      | HString None \<Rightarrow> throw Abort
      | HString (Some s) \<Rightarrow> push_value (quoted s)
      | HBool b \<Rightarrow> push_value (if b then ''true'' else ''false'')
      | HArray xs \<Rightarrow>
          (let vs = array_children xs in
           if vs = [] then push_value ''[]''
           else
             bindE (modS (\<lambda>st. st\<lparr>child_values := []\<rparr>)) (\<lambda>_.
             bindE (if many_lines vs then ret True
                    else bindE (modS (\<lambda>st. st\<lparr>add_child_values := True\<rparr>)) (\<lambda>_.
                         bindE (styled_texts pf vs) (\<lambda>_.
                         bindE (modS (\<lambda>st. st\<lparr>add_child_values := False\<rparr>)) (\<lambda>_.
                         getS (\<lambda>st. right_margin \<le> 4 + (length vs - 1) * 2 + sum_list (map length (child_values st))))))) (\<lambda>multi.
             if multi then
               bindE (write_with_indent ''['') (\<lambda>_.
               bindE indent_more (\<lambda>_.
               bindE (getS (\<lambda>st. child_values st \<noteq> [])) (\<lambda>ready.
               bindE (styled_lines pf ready 0 vs) (\<lambda>_.
               bindE unindent (\<lambda>_. write_with_indent '']'')))))
             else
               bindE (getS child_values) (\<lambda>cs.
               if length cs \<noteq> length vs then throw Abort
               else put_document (''[ '' @ sep_by '', '' cs @ '' ]'')))))
      | HObject ms \<Rightarrow>
          if ms = [] then push_value ''{}''
          else
            bindE (write_with_indent ''{'') (\<lambda>_.
            bindE indent_more (\<lambda>_.
            bindE (styled_members pf ms) (\<lambda>_.
            bindE unindent (\<lambda>_. write_with_indent ''}'')))))"
| "styled_texts pf [] = ret ()"
| "styled_texts pf (v # vs) = bindE (styled_value pf v) (\<lambda>_. styled_texts pf vs)"
| "styled_lines pf ready i [] = ret ()"
| "styled_lines pf ready i (v # vs) =
     bindE (write_comment_before v) (\<lambda>_.
     bindE (if ready then bindE (getS child_values) (\<lambda>cs. if i < length cs then write_with_indent (cs ! i) else throw Abort)
            else bindE write_indent (\<lambda>_. styled_value pf v)) (\<lambda>_.
     if vs = [] then write_comment_after v
     else bindE (put_document '','') (\<lambda>_. bindE (write_comment_after v) (\<lambda>_. styled_lines pf ready (Suc i) vs))))"
| "styled_members pf [] = ret ()"
| "styled_members pf ((k, v) # ms) =
     bindE (write_comment_before v) (\<lambda>_.
     bindE (write_with_indent (quoted (key_name k))) (\<lambda>_.
     bindE (put_document '' : '') (\<lambda>_.
     bindE (styled_value pf v) (\<lambda>_.
     if ms = [] then write_comment_after v
     else bindE (put_document '','') (\<lambda>_. bindE (write_comment_after v) (\<lambda>_. styled_members pf ms))))))"
  by pat_completeness auto

termination
  by (relation "measures
      [case_sum (case_sum (\<lambda>(pf, v). size v) (\<lambda>(pf, vs). bound vs)) (case_sum (\<lambda>(pf, ready, i, vs). bound vs) (\<lambda>(pf, ms). bound (map snd ms))),
       case_sum (case_sum (\<lambda>_. 0) (\<lambda>_. 1)) (case_sum (\<lambda>_. 1) (\<lambda>_. 1)),
       case_sum (case_sum (\<lambda>_. 0) (\<lambda>(pf, vs). length vs)) (case_sum (\<lambda>(pf, ready, i, vs). length vs) (\<lambda>(pf, ms). length ms))]")
    (auto simp: children_bound members_bound less_max_iff_disj simp del: jvalue.size)

declare styled_value.simps [simp del]

text \<open>\<open>StyledWriter::write\<close> and \<open>Value::toStyledString\<close>\<close>

definition styled_write :: "(rat \<Rightarrow> string) \<Rightarrow> jvalue \<Rightarrow> (styled, string) eff" where
  "styled_write pf v =
     bindE (modS (\<lambda>st. st\<lparr>document := [], add_child_values := False, indent_string := []\<rparr>)) (\<lambda>_.
     bindE (write_comment_before v) (\<lambda>_.
     bindE (styled_value pf v) (\<lambda>_.
     bindE (write_comment_after v) (\<lambda>_.
     bindE (put_document [CHR 0x0A]) (\<lambda>_. getS document)))))"

definition to_styled_string :: "(rat \<Rightarrow> string) \<Rightarrow> jvalue \<Rightarrow> exn + string" where
  "to_styled_string pf v =
     fst (styled_write pf v \<lparr>document = [], indent_string = [], child_values = [], add_child_values = False\<rparr>)"

section \<open>What it appends\<close>

text \<open>Values the writer has nothing to say about but their content: no comments, no null strings.\<close>

fun tidy_held :: "bool held \<Rightarrow> bool" where
  "tidy_held (HString s) = (s \<noteq> None)"
| "tidy_held (HArray xs) = (array_ok xs \<and> list_all snd xs)"
| "tidy_held (HObject ms) = (length ms < 4294967296 \<and> list_all snd ms)"
| "tidy_held h = True"

primrec tidy :: "jvalue \<Rightarrow> bool" where
  "tidy (JV c h) = (c = no_comments \<and> tidy_held (map_held tidy h))"

text \<open>An effect that leaves a state as it found it and appends a text with a property to the document.\<close>

definition appends :: "(string list \<Rightarrow> bool) \<Rightarrow> (styled, unit) eff \<Rightarrow> (string \<Rightarrow> bool) \<Rightarrow> bool" where
  "appends C m P =
     (\<forall>st. \<not> add_child_values st \<longrightarrow> blank (indent_string st) \<longrightarrow> C (child_values st) \<longrightarrow>
       (\<exists>s st'. m st = (Inr (), st') \<and> P s \<and> document st' = document st @ s \<and>
          indent_string st' = indent_string st \<and> \<not> add_child_values st'))"

lemma appendsD:
  assumes "appends C m P" "\<not> add_child_values st" "blank (indent_string st)" "C (child_values st)"
  shows "\<exists>s st'. m st = (Inr (), st') \<and> P s \<and> document st' = document st @ s \<and>
    indent_string st' = indent_string st \<and> \<not> add_child_values st'"
  using assms unfolding appends_def by blast

lemma appends_bind:
  assumes "appends C m P" "appends (\<lambda>_. True) n Q" "\<And>s t. P s \<Longrightarrow> Q t \<Longrightarrow> R (s @ t)"
  shows "appends C (bindE m (\<lambda>_. n)) R"
  unfolding appends_def
proof (intro allI impI)
  fix st :: styled assume st: "\<not> add_child_values st" "blank (indent_string st)" "C (child_values st)"
  from appendsD [OF assms(1) st] obtain s u where u: "m st = (Inr (), u)" "P s" "document u = document st @ s"
    "indent_string u = indent_string st" "\<not> add_child_values u" by blast
  from appendsD [OF assms(2) u(5)] st(2) u(4) obtain t w where w: "n u = (Inr (), w)" "Q t" "document w = document u @ t"
    "indent_string w = indent_string u" "\<not> add_child_values w" by auto
  from assms(3) [OF u(2) w(2)] u w show "\<exists>s st'. bindE m (\<lambda>_. n) st = (Inr (), st') \<and> R s \<and>
      document st' = document st @ s \<and> indent_string st' = indent_string st \<and> \<not> add_child_values st'"
    by (intro exI [of _ "s @ t"] exI [of _ w]) simp
qed

lemma appends_weaken: "appends D m P \<Longrightarrow> (\<And>s. P s \<Longrightarrow> Q s) \<Longrightarrow> (\<And>cs. C cs \<Longrightarrow> D cs) \<Longrightarrow> appends C m Q"
  unfolding appends_def by meson

lemma appends_ret: "P [] \<Longrightarrow> appends C (ret ()) P"
  by (auto simp: appends_def)

lemma appends_put: "P s \<Longrightarrow> appends C (put_document s) P"
  by (auto simp: appends_def put_document_def)

lemma appends_push: "P s \<Longrightarrow> appends C (push_value s) P"
  by (auto simp: appends_def push_value_def)

text \<open>White space before a text: a line break and the indentation, or nothing.\<close>

lemma write_indent_state:
  assumes "blank (indent_string st)"
  obtains b where "blank b" "write_indent st = (Inr (), st\<lparr>document := document st @ b\<rparr>)"
proof -
  let ?d = "document st"
  consider "?d \<noteq> []" "last ?d = CHR '' ''" | "?d \<noteq> []" "last ?d \<noteq> CHR '' ''" "last ?d \<noteq> CHR 0x0A"
    | "?d = [] \<or> last ?d = CHR 0x0A"
    by blast
  then show thesis
  proof cases
    case 1
    then show thesis using that [of "[]"] by (simp add: write_indent_def)
  next
    case 2
    then show thesis using that [of "CHR 0x0A # indent_string st"] assms by (simp add: write_indent_def is_blank_def)
  next
    case 3
    then show thesis using that [of "indent_string st"] assms by (auto simp: write_indent_def Let_def)
  qed
qed

lemma write_with_indent_state:
  assumes "blank (indent_string st)"
  obtains b where "blank b" "write_with_indent s st = (Inr (), st\<lparr>document := document st @ b @ s\<rparr>)"
proof -
  from write_indent_state [OF assms] obtain b where "blank b" "write_indent st = (Inr (), st\<lparr>document := document st @ b\<rparr>)" .
  then show thesis using that by (simp add: write_with_indent_def put_document_def)
qed

lemma appends_indent: "appends C write_indent blank"
  unfolding appends_def by (metis (no_types, lifting) styled.select_convs styled.update_convs styled.surjective write_indent_state)

lemma appends_with_indent: "(\<And>b. blank b \<Longrightarrow> P (b @ s)) \<Longrightarrow> appends C (write_with_indent s) P"
  unfolding write_with_indent_def
  by (rule appends_bind [OF appends_indent appends_put, where Q = "\<lambda>t. t = s"]) auto

text \<open>Lines between two marks, indented.\<close>

definition indented_block :: "char \<Rightarrow> (styled, unit) eff \<Rightarrow> char \<Rightarrow> (styled, unit) eff" where
  "indented_block a m e =
     bindE (write_with_indent [a]) (\<lambda>_. bindE indent_more (\<lambda>_. bindE m (\<lambda>_. bindE unindent (\<lambda>_. write_with_indent [e]))))"

lemma appends_block:
  assumes "appends C m P" "\<And>b s c. blank b \<Longrightarrow> P s \<Longrightarrow> blank c \<Longrightarrow> Q (b @ a # s @ c @ [e])"
  shows "appends C (indented_block a m e) Q"
  unfolding appends_def
proof (intro allI impI)
  fix st :: styled assume st: "\<not> add_child_values st" "blank (indent_string st)" "C (child_values st)"
  let ?i = "indent_string st @ replicate indent_size (CHR '' '')"
  have i: "blank ?i" using st(2) by (simp add: indent_size_def is_blank_def numeral_3_eq_3)
  from write_with_indent_state [OF st(2)] obtain b where
    b: "blank b" "write_with_indent [a] st = (Inr (), st\<lparr>document := document st @ b @ [a]\<rparr>)" .
  let ?u = "st\<lparr>document := document st @ b @ [a], indent_string := ?i\<rparr>"
  from appendsD [OF assms(1), of ?u] st i obtain s u where u: "m ?u = (Inr (), u)" "P s"
    "document u = document st @ b @ a # s" "indent_string u = ?i" "\<not> add_child_values u" by auto
  let ?w = "u\<lparr>indent_string := indent_string st\<rparr>"
  have "unindent u = (Inr (), ?w)" using u(4) by (simp add: unindent_def indent_size_def)
  moreover from write_with_indent_state [of ?w "[e]"] st(2) obtain c where
    c: "blank c" "write_with_indent [e] ?w = (Inr (), ?w\<lparr>document := document u @ c @ [e]\<rparr>)" by auto
  ultimately have "indented_block a m e st = (Inr (), ?w\<lparr>document := document u @ c @ [e]\<rparr>)"
    using b(2) u(1) by (simp add: indented_block_def indent_more_def)
  with assms(2) [OF b(1) u(2) c(1)] u show "\<exists>s st'. indented_block a m e st = (Inr (), st') \<and> Q s \<and>
      document st' = document st @ s \<and> indent_string st' = indent_string st \<and> \<not> add_child_values st'"
    by (intro exI [of _ "b @ a # s @ c @ [e]"]) simp
qed

section \<open>It writes a text of the value\<close>

lemma bare_comments [simp]:
  "write_comment_before (JV no_comments h) = ret ()" "write_comment_after (JV no_comments h) = ret ()"
  by (simp_all add: write_comment_before_def write_comment_after_def has_comment_def no_comments_def)
    (simp add: bindE_def ret_def)

lemma tidy_slots: "tidy v \<Longrightarrow> v = JV no_comments (held v)"
  by (cases v) simp

lemma tidy_comments: "tidy v \<Longrightarrow> write_comment_before v = ret ()" "tidy v \<Longrightarrow> write_comment_after v = ret ()"
  by (metis tidy_slots bare_comments(1)) (metis tidy_slots bare_comments(2))

lemma tidy_null [simp]: "tidy null_value"
  by (simp add: null_value_def new_value_def)

lemma tidy_array:
  assumes "tidy (JV c (HArray xs))"
  shows "array_ok xs" "v \<in> set (array_children xs) \<Longrightarrow> tidy v"
proof -
  have "(\<lambda>(k, x). P k) \<circ> map_prod id tidy = (\<lambda>(k, x). P k)" for P :: "czkey \<Rightarrow> bool" by auto
  then show "array_ok xs" using assms
    by (simp add: array_ok_def map_ok_def list_all_iff split_def comp_def)
  have "tidy (entry (HArray xs) k)" for k
    using assms by (fastforce simp: map_find_def list_all_iff dest: map_of_SomeD split: option.split)
  then show "v \<in> set (array_children xs) \<Longrightarrow> tidy v" by (auto simp: array_children_def simp del: entry.simps)
qed

lemma tidy_object:
  assumes "tidy (JV c (HObject ms))"
  shows "length ms < 4294967296" "(k, v) \<in> set ms \<Longrightarrow> tidy v"
  using assms by (auto simp: list_all_iff)

lemma view_array: "view (JV c (HArray xs)) = JArray (map view (array_children xs))"
  by (auto simp: listed_def array_children_def map_find_map split: option.split)

text \<open>What goes on one line.\<close>

lemma small_value:
  assumes "tidy v" "\<not> ((is_array_value v \<or> is_object_value v) \<and> 0 < value_size v)"
  shows "\<exists>s. spells pf (view v) s \<and> styled_value pf v = push_value s"
proof -
  obtain h where v: "v = JV no_comments h" using tidy_slots [OF assms(1)] by metis
  have leaf: "is_leaf w \<Longrightarrow> spells pf w (write_value pf w)" for w
    using spells_spells_items_spells_members.Leaf [of "[]" w pf] by simp
  show ?thesis
  proof (cases h)
    case (HString s)
    with assms(1) v obtain t where "s = Some t" by auto
    with HString v leaf [of "JString t"] show ?thesis by (auto simp: styled_value.simps)
  next
    case (HArray xs)
    then have "array_ok xs" using assms(1) v tidy_array(1) by blast
    define n where "n = last_index xs + 1"
    have "n < 4294967296" "0 \<le> n"
      using last_index_bounds [OF \<open>array_ok xs\<close>] by (simp_all add: max_int_def n_def)
    moreover have "(word_of_int n :: 32 word) = 0"
      using assms(2) HArray v unfolding n_def
      by (simp only: is_array_value_def value_kind_def value_size_def word_greater_zero_iff jvalue.sel held.case held_type.simps) simp
    moreover have "uint (word_of_int n :: 32 word) = n mod 4294967296" by (simp add: uint_word_of_int)
    ultimately have "n = 0" by simp
    then have "array_children xs = []" by (simp add: array_children_def n_def)
    then show ?thesis using HArray v styled_value.simps [of pf no_comments h] spells_spells_items_spells_members.Empty_array [of "[]" "[]" pf] view_array [of no_comments xs]
      by auto
  next
    case (HObject ms)
    then have "length ms < 4294967296" using assms(1) v tidy_object(1) by blast
    moreover have "(of_nat (length ms) :: 32 word) = 0"
      using assms(2) HObject v by (simp add: is_object_value_def value_kind_def value_size_def word_greater_zero_iff)
    moreover have "unat (of_nat (length ms) :: 32 word) = length ms mod 4294967296" by (simp add: unat_of_nat)
    ultimately have "ms = []" by simp
    then show ?thesis using HObject v styled_value.simps [of pf no_comments h] spells_spells_items_spells_members.Empty_object [of "[]" "[]" pf] by auto
  qed (use v leaf [of JNull] leaf [of "JInt i" for i] leaf [of "JUInt i" for i] leaf [of "JReal i" for i]
      leaf [of "JBool True"] leaf [of "JBool False"] in \<open>auto simp: styled_value.simps\<close>)
qed

lemma small_texts:
  assumes "\<And>v. v \<in> set vs \<Longrightarrow> tidy v" "\<not> has_inner vs"
  shows "\<exists>cs. list_all2 (\<lambda>v s. spells pf (view v) s) vs cs \<and>
    (\<forall>st. add_child_values st \<longrightarrow> styled_texts pf vs st = (Inr (), st\<lparr>child_values := child_values st @ cs\<rparr>))"
  using assms
proof (induction vs)
  case Nil
  show ?case by (intro exI [of _ "[]"]) simp
next
  case (Cons v vs)
  then obtain cs where cs: "list_all2 (\<lambda>v s. spells pf (view v) s) vs cs"
    "\<forall>st. add_child_values st \<longrightarrow> styled_texts pf vs st = (Inr (), st\<lparr>child_values := child_values st @ cs\<rparr>)"
    by (auto simp: has_inner_def)
  from small_value [of v pf] Cons.prems obtain s where s: "spells pf (view v) s" "styled_value pf v = push_value s"
    by (auto simp: has_inner_def)
  show ?case
    using cs s by (intro exI [of _ "s # cs"]) (simp add: push_value_def)
qed

lemma spells_one_line:
  "list_all2 (\<lambda>v s. spells pf (view v) s) vs cs \<Longrightarrow> vs \<noteq> [] \<Longrightarrow> blank b \<Longrightarrow>
   spells_items pf (map view vs) (b @ sep_by '', '' cs)"
proof (induction vs cs arbitrary: b rule: list_all2_induct)
  case (Cons v vs s cs)
  have s: "spells pf (view v) (b @ s)" using Cons(1) Cons.prems(2) by (rule spells_blanks)
  show ?case
  proof (cases vs)
    case Nil
    with Cons(2) s show ?thesis by (simp add: spells_spells_items_spells_members.Item)
  next
    case (Cons w ws)
    then obtain d ds where cs: "cs = d # ds" using \<open>list_all2 _ vs cs\<close> by (cases cs) auto
    from Cons Cons.IH [of "'' ''"] have "spells_items pf (map view vs) (CHR '' '' # sep_by '', '' cs)" by (simp add: is_blank_def)
    from spells_spells_items_spells_members.Items [OF s this] show ?thesis by (simp add: cs)
  qed
qed simp

lemma ready_lines:
  assumes "list_all2 (\<lambda>v s. spells pf (view v) s) vs cs" "vs \<noteq> []" "\<And>v. v \<in> set vs \<Longrightarrow> tidy v"
  shows "appends (\<lambda>ds. ds = pre @ cs) (styled_lines pf True (length pre) vs) (spells_items pf (map view vs))"
  using assms
proof (induction vs cs arbitrary: pre rule: list_all2_induct)
  case (Cons v vs s cs)
  note tidy = tidy_comments [OF Cons.prems(2) [of v], simplified]
  show ?case unfolding appends_def
  proof (intro allI impI)
    fix st :: styled
    assume st: "\<not> add_child_values st" "blank (indent_string st)" "child_values st = pre @ s # cs"
    from write_with_indent_state [OF st(2)] obtain b where
      b: "blank b" "write_with_indent s st = (Inr (), st\<lparr>document := document st @ b @ s\<rparr>)" .
    have s: "spells pf (view v) (b @ s)" using Cons(1) b(1) by (rule spells_blanks)
    show "\<exists>t st'. styled_lines pf True (length pre) (v # vs) st = (Inr (), st') \<and> spells_items pf (map view (v # vs)) t \<and>
      document st' = document st @ t \<and> indent_string st' = indent_string st \<and> \<not> add_child_values st'"
    proof (cases "vs = []")
      case True
      then show ?thesis
        using st b s tidy by (intro exI [of _ "b @ s"]) (simp add: spells_spells_items_spells_members.Item)
    next
      case False
      let ?u = "st\<lparr>document := document st @ b @ s @ '',''\<rparr>"
      from appendsD [OF Cons.IH [OF False Cons.prems(2), of "pre @ [s]"], of ?u] st obtain t w where
        w: "styled_lines pf True (Suc (length pre)) vs ?u = (Inr (), w)" "spells_items pf (map view vs) t"
        "document w = document ?u @ t" "indent_string w = indent_string st" "\<not> add_child_values w" by auto
      have "styled_lines pf True (length pre) (v # vs) st = (Inr (), w)"
        using False st b tidy w(1) by (simp add: put_document_def)
      with spells_spells_items_spells_members.Items [OF s w(2)] w show ?thesis
        by (intro exI [of _ "(b @ s) @ CHR '','' # t"]) simp
    qed
  qed
qed simp

lemma bindE_ret: "bindE (ret x) k = k x"
  by (rule ext) simp

lemma bindE_assoc: "bindE (bindE m k) l = bindE m (\<lambda>x. bindE (k x) l)"
  by (rule ext) (simp add: bindE_def split: prod.split sum.split)

text \<open>The two ways to write an array that is not empty.\<close>

definition lines_block :: "(rat \<Rightarrow> string) \<Rightarrow> jvalue list \<Rightarrow> (styled, unit) eff" where
  "lines_block pf vs =
     indented_block CHR ''['' (bindE (getS (\<lambda>st. child_values st \<noteq> [])) (\<lambda>ready. styled_lines pf ready 0 vs)) CHR '']''"

lemma styled_array:
  "array_children xs \<noteq> [] \<Longrightarrow> styled_value pf (JV c (HArray xs)) =
     (let vs = array_children xs in
      bindE (modS (\<lambda>st. st\<lparr>child_values := []\<rparr>)) (\<lambda>_.
      bindE (if many_lines vs then ret True
             else bindE (modS (\<lambda>st. st\<lparr>add_child_values := True\<rparr>)) (\<lambda>_.
                  bindE (styled_texts pf vs) (\<lambda>_.
                  bindE (modS (\<lambda>st. st\<lparr>add_child_values := False\<rparr>)) (\<lambda>_.
                  getS (\<lambda>st. right_margin \<le> 4 + (length vs - 1) * 2 + sum_list (map length (child_values st))))))) (\<lambda>multi.
      if multi then lines_block pf vs
      else bindE (getS child_values) (\<lambda>cs.
           if length cs \<noteq> length vs then throw Abort else put_document (''[ '' @ sep_by '', '' cs @ '' ]'')))))"
  by (simp add: styled_value.simps lines_block_def indented_block_def bindE_assoc Let_def cong: if_cong)

lemma lines_block_appends:
  assumes "appends (\<lambda>cs. cs = ds) (styled_lines pf (ds \<noteq> []) 0 vs) (spells_items pf (map view vs))"
  shows "appends (\<lambda>cs. cs = ds) (lines_block pf vs) (spells pf (JArray (map view vs)))"
  unfolding lines_block_def
proof (rule appends_block)
  show "appends (\<lambda>cs. cs = ds) (bindE (getS (\<lambda>st. child_values st \<noteq> [])) (\<lambda>ready. styled_lines pf ready 0 vs))
      (spells_items pf (map view vs))"
    using assms by (simp add: appends_def bindE_def getS_def)
qed (rule spells_spells_items_spells_members.Array)

lemma array_appends:
  assumes "array_children xs \<noteq> []" "\<And>v. v \<in> set (array_children xs) \<Longrightarrow> tidy v"
    "appends (\<lambda>_. True) (styled_lines pf False 0 (array_children xs)) (spells_items pf (map view (array_children xs)))"
  shows "appends (\<lambda>_. True) (styled_value pf (JV c (HArray xs))) (spells pf (JArray (map view (array_children xs))))"
  unfolding appends_def
proof (intro allI impI)
  fix st :: styled
  assume st: "\<not> add_child_values st" "blank (indent_string st)"
  let ?vs = "array_children xs"
  let ?post = "\<lambda>m. \<exists>s st'. m = (Inr (), st') \<and> spells pf (JArray (map view ?vs)) s \<and> document st' = document st @ s \<and>
    indent_string st' = indent_string st \<and> \<not> add_child_values st'"
  show "?post (styled_value pf (JV c (HArray xs)) st)"
  proof (cases "many_lines ?vs")
    case True
    let ?u = "st\<lparr>child_values := []\<rparr>"
    have "appends (\<lambda>cs. cs = []) (styled_lines pf ([] \<noteq> ([] :: string list)) 0 ?vs) (spells_items pf (map view ?vs))"
      using appends_weaken [OF assms(3)] by simp
    from appendsD [OF lines_block_appends [OF this], of ?u] st have "?post (lines_block pf ?vs ?u)" by simp
    with True show ?thesis by (simp add: styled_array [OF assms(1)] Let_def)
  next
    case False
    then have "\<not> has_inner ?vs" by (simp add: many_lines_def)
    from small_texts [OF assms(2) this] obtain cs where
      cs: "list_all2 (\<lambda>v s. spells pf (view v) s) ?vs cs"
        "\<forall>st. add_child_values st \<longrightarrow> styled_texts pf ?vs st = (Inr (), st\<lparr>child_values := child_values st @ cs\<rparr>)" by blast
    let ?u = "st\<lparr>child_values := cs, add_child_values := False\<rparr>"
    have len: "length cs = length ?vs" using cs(1) by (simp add: list_all2_lengthD)
    let ?wide = "right_margin \<le> 4 + (length ?vs - 1) * 2 + sum_list (map length cs)"
    have run: "styled_value pf (JV c (HArray xs)) st =
        (if ?wide then lines_block pf ?vs ?u else put_document (''[ '' @ sep_by '', '' cs @ '' ]'') ?u)"
      using False cs(2) len by (simp add: styled_array [OF assms(1)] Let_def)
    show ?thesis
    proof (cases ?wide)
      case True
      have "cs \<noteq> []" using len assms(1) by (metis length_0_conv)
      with ready_lines [OF cs(1) assms(1) assms(2), of "[]"]
      have "appends (\<lambda>ds. ds = cs) (styled_lines pf (cs \<noteq> []) 0 ?vs) (spells_items pf (map view ?vs))" by auto
      from appendsD [OF lines_block_appends [OF this], of ?u] st True show ?thesis by (simp add: run)
    next
      case wide: False
      have "spells_items pf (map view ?vs) ('' '' @ sep_by '', '' cs)"
        using cs(1) assms(1) by (rule spells_one_line) (simp add: is_blank_def)
      from spells_spells_items_spells_members.Array [OF _ this, where b = "[]" and c = "'' ''"]
      have "spells pf (JArray (map view ?vs)) (''[ '' @ sep_by '', '' cs @ '' ]'')" by (simp add: is_blank_def)
      with st wide show ?thesis by (simp add: run put_document_def)
    qed
  qed
qed

lemma object_block:
  "ms \<noteq> [] \<Longrightarrow> styled_value pf (JV c (HObject ms)) = indented_block CHR ''{'' (styled_members pf ms) CHR ''}''"
  by (simp add: styled_value.simps indented_block_def)

definition viewed_members :: "(czkey \<times> jvalue) list \<Rightarrow> (string \<times> json) list" where
  "viewed_members ms = map (\<lambda>(k, v). (key_name k, view v)) ms"

lemma viewed_members_simps [simp]:
  "viewed_members [] = []" "viewed_members ((k, v) # ms) = (key_name k, view v) # viewed_members ms"
  by (simp_all add: viewed_members_def)

lemma view_object: "view (JV c (HObject ms)) = JObject (viewed_members ms)"
  by (simp add: viewed_members_def split_def comp_def)

lemma appends_member:
  assumes "appends (\<lambda>_. True) (styled_value pf v) (spells pf (view v))"
    "\<And>b s. blank b \<Longrightarrow> spells pf (view v) s \<Longrightarrow> P ((b @ quoted n) @ '' : '' @ s)"
  shows "appends (\<lambda>_. True) (bindE (write_with_indent (quoted n)) (\<lambda>_. bindE (put_document '' : '') (\<lambda>_. styled_value pf v))) P"
  by (rule appends_bind [OF appends_with_indent [where P = "\<lambda>t. \<exists>b. blank b \<and> t = b @ quoted n"]
        appends_bind [OF appends_put [where P = "\<lambda>t. t = '' : ''"] assms(1)
          , where R = "\<lambda>t. \<exists>s. spells pf (view v) s \<and> t = '' : '' @ s"]])
    (use assms(2) in auto)

lemma styled_appends:
  "tidy v \<Longrightarrow> appends (\<lambda>_. True) (styled_value pf v) (spells pf (view v))"
  "ws = (ws :: jvalue list)"
  "\<not> ready \<Longrightarrow> vs \<noteq> [] \<Longrightarrow> (\<And>v. v \<in> set vs \<Longrightarrow> tidy v) \<Longrightarrow>
    appends (\<lambda>_. True) (styled_lines pf ready i vs) (spells_items pf (map view vs))"
  "ms \<noteq> [] \<Longrightarrow> (\<And>k v. (k, v) \<in> set ms \<Longrightarrow> tidy v) \<Longrightarrow>
    appends (\<lambda>_. True) (styled_members pf ms) (spells_members pf (viewed_members ms))"
proof (induction pf v and pf ws and pf ready i vs and pf ms rule: styled_value_styled_texts_styled_lines_styled_members.induct)
  case (1 pf c h)
  show ?case
  proof (cases "\<exists>xs. h = HArray xs \<and> array_children xs \<noteq> [] \<or> (\<exists>ms. h = HObject ms \<and> ms \<noteq> [])")
    case False
    have "value_size (JV c h) = 0"
    proof (cases h)
      case (HArray xs)
      with "1.prems" tidy_array(1) have "array_ok xs" by blast
      with False HArray have "last_index xs + 1 = 0"
        using last_index_bounds [of xs] by (simp add: array_children_def)
      with HArray show ?thesis by (simp add: value_size_def)
    qed (use False in \<open>simp_all add: value_size_def\<close>)
    then have "\<not> ((is_array_value (JV c h) \<or> is_object_value (JV c h)) \<and> 0 < value_size (JV c h))" by simp
    from small_value [OF "1.prems" this] obtain s where
      "spells pf (view (JV c h)) s" "styled_value pf (JV c h) = push_value s" by blast
    then show ?thesis by (simp only: appends_push)
  next
    case True
    then show ?thesis
    proof (elim exE disjE conjE)
      fix xs assume h: "h = HArray xs" "array_children xs \<noteq> []"
      have tidy: "tidy v" if "v \<in> set (array_children xs)" for v
        using "1.prems" h(1) that tidy_array(2) by blast
      have "appends (\<lambda>_. True) (styled_lines pf False 0 (array_children xs)) (spells_items pf (map view (array_children xs)))"
        by (rule "1.IH"(2) [OF h(1) refl h(2) TrueI _ h(2)]) (use tidy in auto)
      from array_appends [OF h(2) tidy this] show ?thesis unfolding h(1) view_array .
    next
      fix ms assume h: "h = HObject ms" "ms \<noteq> []"
      have "appends (\<lambda>_. True) (styled_members pf ms) (spells_members pf (viewed_members ms))"
        by (rule "1.IH"(3) [OF h h(2)]) (use "1.prems" h(1) tidy_object(2) in blast)
      then show ?thesis unfolding h(1) view_object object_block [OF h(2)]
        by (rule appends_block) (rule spells_spells_items_spells_members.Object)
    qed
  qed
next
  case (5 pf ready i v vs)
  note tidy = tidy_comments [OF "5.prems"(3) [of v], simplified]
  have "appends (\<lambda>_. True) (styled_value pf v) (spells pf (view v))"
    using "5.IH"(1) "5.prems"(1,3) by simp
  then have first: "appends (\<lambda>_. True) (bindE write_indent (\<lambda>_. styled_value pf v)) (spells pf (view v))"
    by (rule appends_bind [OF appends_indent]) (rule spells_blanks)
  show ?case
  proof (cases "vs = []")
    case True
    then have "styled_lines pf ready i (v # vs) = bindE (bindE write_indent (\<lambda>_. styled_value pf v)) (\<lambda>_. ret ())"
      using tidy "5.prems"(1) by (simp add: bindE_ret)
    with appends_bind [OF first appends_ret [where P = "\<lambda>s. s = []"], of "spells_items pf [view v]"] True
    show ?thesis by (simp add: spells_spells_items_spells_members.Item)
  next
    case False
    then have rest: "appends (\<lambda>_. True) (styled_lines pf ready (Suc i) vs) (spells_items pf (map view vs))"
      using "5.IH"(2) "5.prems" by simp
    have "styled_lines pf ready i (v # vs) = bindE (bindE write_indent (\<lambda>_. styled_value pf v))
        (\<lambda>_. bindE (put_document '','') (\<lambda>_. styled_lines pf ready (Suc i) vs))"
      using tidy "5.prems"(1) False by (simp add: bindE_ret)
    moreover have "appends (\<lambda>_. True) (bindE (put_document '','') (\<lambda>_. styled_lines pf ready (Suc i) vs))
        (\<lambda>s. \<exists>t. s = CHR '','' # t \<and> spells_items pf (map view vs) t)"
      by (rule appends_bind [OF appends_put [where P = "\<lambda>s. s = '',''"] rest]) simp_all
    ultimately show ?thesis
      using appends_bind [OF first, where R = "spells_items pf (map view (v # vs))"]
      by (auto intro: spells_spells_items_spells_members.Items)
  qed
next
  case (7 pf k v ms)
  note tidy = tidy_comments [OF "7.prems"(2) [of k v], simplified]
  have v: "appends (\<lambda>_. True) (styled_value pf v) (spells pf (view v))"
    by (rule "7.IH"(1), rule "7.prems"(2) [of k v]) simp
  let ?first = "bindE (write_with_indent (quoted (key_name k))) (\<lambda>_. bindE (put_document '' : '') (\<lambda>_. styled_value pf v))"
  let ?P = "\<lambda>t. \<exists>b s. blank b \<and> spells pf (view v) s \<and> t = b @ quoted (key_name k) @ '' '' @ CHR '':'' # CHR '' '' # s"
  have first: "appends (\<lambda>_. True) ?first ?P"
    by (rule appends_member [OF v]) auto
  have spaced: "spells pf (view v) (CHR '' '' # s)" if "spells pf (view v) s" for s
    using spells_blanks [OF that, of "'' ''"] by (simp add: is_blank_def)
  show ?case
  proof (cases "ms = []")
    case True
    then have "styled_members pf ((k, v) # ms) = bindE ?first (\<lambda>_. ret ())"
      using tidy by (simp add: bindE_ret bindE_assoc)
    moreover have "spells_members pf [(key_name k, view v)] u" if u: "?P u" for u
    proof -
      from u obtain b s where bs: "blank b" "spells pf (view v) s" "u = b @ quoted (key_name k) @ '' '' @ CHR '':'' # CHR '' '' # s" by blast
      from spells_spells_items_spells_members.Member [OF bs(1) _ spaced [OF bs(2)], of "'' ''" "key_name k"] bs(3)
      show ?thesis by (simp add: is_blank_def)
    qed
    ultimately show ?thesis
      using appends_bind [OF first appends_ret [where P = "\<lambda>s. s = []"], of "spells_members pf [(key_name k, view v)]"] True by auto
  next
    case False
    have tail: "tidy w" if "(l, w) \<in> set ms" for l w using "7.prems"(2) [of l w] that by simp
    have rest: "appends (\<lambda>_. True) (styled_members pf ms) (spells_members pf (viewed_members ms))"
      by (rule "7.IH"(2) [OF False False tail])
    have eq: "styled_members pf ((k, v) # ms) = bindE ?first (\<lambda>_. bindE (put_document '','') (\<lambda>_. styled_members pf ms))"
      using tidy False by (simp add: bindE_ret bindE_assoc)
    have more: "appends (\<lambda>_. True) (bindE (put_document '','') (\<lambda>_. styled_members pf ms))
        (\<lambda>s. \<exists>t. s = CHR '','' # t \<and> spells_members pf (viewed_members ms) t)"
      by (rule appends_bind [OF appends_put [where P = "\<lambda>s. s = '',''"] rest]) simp_all
    have glued: "spells_members pf (viewed_members ((k, v) # ms)) (u @ CHR '','' # t)"
      if u: "?P u" and t: "spells_members pf (viewed_members ms) t" for u t
    proof -
      from u obtain b s where bs: "blank b" "spells pf (view v) s" "u = b @ quoted (key_name k) @ '' '' @ CHR '':'' # CHR '' '' # s" by blast
      from spells_spells_items_spells_members.Members [OF bs(1) _ spaced [OF bs(2)] t, of "'' ''" "key_name k"] bs(3)
      show ?thesis by (simp add: is_blank_def)
    qed
    show ?thesis unfolding eq by (rule appends_bind [OF first more]) (use glued in blast)
  qed
qed simp_all

text \<open>
  C17: what the writer for people writes is read back, as what the fast writer writes of the same value:
  it never fails a test of its own, whatever it wrote before, and the reader makes the value of the
  document, whatever follows. The value has no comments and no null strings, and fits the reader as
  for the fast writer.
\<close>

theorem styled_json_is_read:
  assumes "tidy v" "plain_json (view v)"
  shows "\<exists>doc st'. styled_write pf v st = (Inr doc, st') \<and>
    json_parse lf (doc @ junk) = Some (view v) \<and> json_parse lf (doc @ junk) = json_parse lf (fast_write pf (view v) @ junk)"
proof -
  let ?st = "st\<lparr>document := [], add_child_values := False, indent_string := []\<rparr>"
  from appendsD [OF styled_appends(1) [OF assms(1)], of ?st pf] obtain s u where
    u: "styled_value pf v ?st = (Inr (), u)" "spells pf (view v) s" "document u = s" by auto
  have "styled_write pf v st = (Inr (s @ [CHR 0x0A]), u\<lparr>document := s @ [CHR 0x0A]\<rparr>)"
    using u(1,3) by (simp add: styled_write_def tidy_comments [OF assms(1)] put_document_def)
  moreover have "stops_number (CHR 0x0A # junk)" by (simp add: stops_number_def is_number_char_def is_dec_def)
  from parse_spelled [OF u(2) assms(2) this] have "json_parse lf ((s @ [CHR 0x0A]) @ junk) = Some (view v)" by simp
  moreover have "json_parse lf (fast_write pf (view v) @ junk) = Some (view v)" by (rule parse_written [OF assms(2)])
  ultimately show ?thesis by metis
qed

definition sample_value :: jvalue where
  "sample_value = JV no_comments (HObject
     [(Name ''id'', JV no_comments (HInt 7)),
      (Name ''songs'', JV no_comments (HArray [(Index 0, JV no_comments (HObject [])), (Index 2, string_value ''x'')]))])"

definition fresh_writer :: styled where
  "fresh_writer = \<lparr>document = [], indent_string = [], child_values = [], add_child_values = False\<rparr>"

theorem styled_json_is_read_witness:
  "\<exists>doc st'. styled_write (\<lambda>_. []) sample_value fresh_writer = (Inr doc, st') \<and>
     json_parse (\<lambda>_. None) doc = Some (JObject [(''id'', JInt 7), (''songs'', JArray [JObject [], JNull, JString ''x''])])"
proof -
  have "tidy sample_value"
    by (simp add: sample_value_def string_value_def c_str_def array_ok_def map_ok_def max_int_def)
  moreover have "view sample_value = JObject [(''id'', JInt 7), (''songs'', JArray [JObject [], JNull, JString ''x''])]"
    by code_simp
  moreover have "plain_json (JObject [(''id'', JInt 7), (''songs'', JArray [JObject [], JNull, JString ''x''])])"
    by (simp add: map_ok_def plain_text_def)
  ultimately show ?thesis using styled_json_is_read [of sample_value "\<lambda>_. []" fresh_writer "\<lambda>_. None" "[]"] by simp blast
qed

text \<open>
  With comments it is not so: a comment behind the last member stands before a brace, where the reader
  does not expect one, and the comments in an array that fits a line are lost.
\<close>

lemma styled_comments:
  "to_styled_string (\<lambda>_. []) (JV no_comments (HObject [(Name ''a'', set_comment ''//'' Comment_same_line (JV no_comments (HInt 1)))])) =
     Inr (''{'' @ [CHR 0x0A] @ ''   \"a\" : 1 //'' @ [CHR 0x0A] @ ''}'' @ [CHR 0x0A])"
  "json_parse (\<lambda>_. None) (''{'' @ [CHR 0x0A] @ ''   \"a\" : 1 //'' @ [CHR 0x0A] @ ''}'' @ [CHR 0x0A]) = None"
  "to_styled_string (\<lambda>_. []) (JV no_comments (HArray [(Index 0, set_comment ''//'' Comment_same_line (JV no_comments (HInt 1)))])) =
     Inr (''[ 1 ]'' @ [CHR 0x0A])"
  by code_simp+

end
