(* ===== verification/Json_Reader.thy ===== *)
theory Json_Reader
  imports Json_Value Json_Correct
begin

text \<open>
  \<open>Json::Reader\<close> as it is written (\<open>libs/json/json_reader.cpp\<close>): the tree that is filled in through
  a stack of pointers, the comments that are collected on the way, and the errors with their places
  in the document. \<open>Json\<close> has the same reader as a function from texts to values; the refinement
  below says that this is what is left when comments and messages are forgotten.
\<close>

section \<open>Pointers into a value\<close>

text \<open>
  A pointer to a value below the root is the list of keys that leads to it.
\<close>

fun node_at :: "czkey list \<Rightarrow> jvalue \<Rightarrow> jvalue" where
  "node_at [] v = v"
| "node_at (k # p) v = node_at p (entry (held v) k)"

fun change_at :: "czkey list \<Rightarrow> (jvalue \<Rightarrow> jvalue) \<Rightarrow> jvalue \<Rightarrow> jvalue" where
  "change_at [] f v = f v"
| "change_at (k # p) f v = JV (slots v) (put_entry k (change_at p f (entry (held v) k)) (held v))"

section \<open>The state of a reader\<close>

text \<open>
  A place in the document is the text from there to its end. \<open>jr_last_value\<close> is nothing for the null
  pointer, and for a pointer whose value was destroyed: the reader follows neither.
\<close>

record json_token =
  tok_type :: token
  tok_start :: string
  tok_end :: string

record error_info =
  err_token :: json_token
  err_message :: string
  err_extra :: "string option"

record jreader =
  jr_collect :: bool
  jr_left :: string
  jr_last_end :: "string option"
  jr_last_value :: "czkey list option"
  jr_before :: string
  jr_errors :: "error_info list"
  jr_nodes :: "czkey list list"
  jr_root :: jvalue

definition start_reader :: "bool \<Rightarrow> string \<Rightarrow> jvalue \<Rightarrow> jreader" where
  "start_reader collect doc rv =
     \<lparr>jr_collect = collect, jr_left = doc, jr_last_end = None, jr_last_value = None, jr_before = [], jr_errors = [],
      jr_nodes = [[]], jr_root = rv\<rparr>"

definition strictly_below :: "czkey list \<Rightarrow> czkey list \<Rightarrow> bool" where
  "strictly_below p u = (length p < length u \<and> take (length p) u = p)"

text \<open>
  \<open>currentValue() = x\<close>: an assignment destroys what the value held, and a pointer to something in
  it dangles from then on.
\<close>

definition current_node :: "jreader \<Rightarrow> czkey list" where
  "current_node st = hd (jr_nodes st)"

definition assign_current :: "jvalue \<Rightarrow> (jreader, unit) eff" where
  "assign_current x = modS (\<lambda>st.
     let p = current_node st in
     st\<lparr>jr_root := change_at p (\<lambda>v. assign_value v x) (jr_root st),
        jr_last_value := (case jr_last_value st of Some u \<Rightarrow> if strictly_below p u then None else Some u | None \<Rightarrow> None)\<rparr>)"

text \<open>\<open>Value &value = currentValue()[ name ]; nodes_.push( &value )\<close>, and the same for an index\<close>

definition enter_with :: "(jvalue \<Rightarrow> exn + jvalue) \<Rightarrow> czkey \<Rightarrow> (jreader, unit) eff" where
  "enter_with ensure k st =
     (let p = current_node st in
      case ensure (node_at p (jr_root st)) of
        Inl e \<Rightarrow> (Inl e, st)
      | Inr w \<Rightarrow> (Inr (), st\<lparr>jr_root := change_at p (\<lambda>_. w) (jr_root st), jr_nodes := (p @ [k]) # jr_nodes st\<rparr>))"

definition enter_member :: "string \<Rightarrow> (jreader, unit) eff" where
  "enter_member n = enter_with (ensure_member n) (Name (c_str n))"

definition enter_index :: "32 word \<Rightarrow> (jreader, unit) eff" where
  "enter_index i = enter_with (ensure_index i) (index_key i)"

definition leave_node :: "(jreader, unit) eff" where
  "leave_node = modS (\<lambda>st. st\<lparr>jr_nodes := tl (jr_nodes st)\<rparr>)"

section \<open>Comments\<close>

definition text_between :: "string \<Rightarrow> string \<Rightarrow> string" where
  "text_between a b = take (length a - length b) a"

definition contains_new_line :: "string \<Rightarrow> bool" where
  "contains_new_line s = list_ex (\<lambda>c. c = CHR 0x0A \<or> c = CHR 0x0D) s"

text \<open>
  The end of \<open>readComment\<close>, with the comment between the two places: it belongs to the last value when
  it starts on the line that value ends in and, as a C comment, does not go over its end.
\<close>

definition comment_placement :: "string \<Rightarrow> string \<Rightarrow> jreader \<Rightarrow> placement" where
  "comment_placement start r st =
     (case jr_last_end st of
        None \<Rightarrow> Comment_before
      | Some e \<Rightarrow>
          if \<not> contains_new_line (text_between e start) \<and>
             (hd (tl start) \<noteq> CHR ''*'' \<or> \<not> contains_new_line (text_between start r)) then Comment_same_line
          else Comment_before)"

definition add_comment :: "string \<Rightarrow> placement \<Rightarrow> (jreader, unit) eff" where
  "add_comment t p st =
     (if p = Comment_same_line then
        (case jr_last_value st of
           None \<Rightarrow> (Inl Abort, st)
         | Some u \<Rightarrow> (Inr (), st\<lparr>jr_root := change_at u (set_comment t p) (jr_root st)\<rparr>))
      else (Inr (), st\<lparr>jr_before := (if jr_before st \<noteq> [] then jr_before st @ [CHR 0x0A] else []) @ t\<rparr>))"

text \<open>\<open>readToken\<close>, \<open>skipCommentTokens\<close> and \<open>expectToken\<close> (which nothing calls)\<close>

definition read_tok :: "(jreader, json_token) eff" where
  "read_tok st0 =
     (let start = skip_spaces (jr_left st0); (t, r) = read_token (jr_left st0);
          k = \<lparr>tok_type = t, tok_start = start, tok_end = r\<rparr>; st = st0\<lparr>jr_left := r\<rparr> in
      if t = CommentToken \<and> jr_collect st then
        bindE (add_comment (text_between start r) (comment_placement start r st)) (\<lambda>_. ret k) st
      else (Inr k, st))"

lemma add_comment_left: "jr_left (snd (add_comment t p st)) = jr_left st"
  by (simp add: add_comment_def split: option.splits)

lemma read_tok_token:
  "read_tok st = (Inr k, st') \<Longrightarrow> read_token (jr_left st) = (tok_type k, jr_left st') \<and> tok_end k = jr_left st' \<and>
     tok_start k = skip_spaces (jr_left st)"
  using add_comment_left [of _ _ "st\<lparr>jr_left := _\<rparr>"]
  by (auto simp: read_tok_def Let_def bindE_def ret_def split: prod.splits sum.splits if_splits) (metis snd_conv jreader.simps)+

function skip_comments :: "(jreader, json_token) eff" where
  "skip_comments st =
     (case read_tok st of
        (Inl e, st') \<Rightarrow> (Inl e, st')
      | (Inr k, st') \<Rightarrow> if tok_type k = CommentToken then skip_comments st' else (Inr k, st'))"
  by auto
termination
  by (relation "measure (\<lambda>st. length (jr_left st))") (auto dest!: read_tok_token [OF sym] read_token_shorter)

declare skip_comments.simps [simp del]

section \<open>Errors\<close>

definition add_error :: "string \<Rightarrow> json_token \<Rightarrow> string option \<Rightarrow> (jreader, bool) eff" where
  "add_error m k x st =
     (Inr False, st\<lparr>jr_errors := jr_errors st @ [\<lparr>err_token = k, err_message = m, err_extra = x\<rparr>]\<rparr>)"

definition expect_token :: "token \<Rightarrow> string \<Rightarrow> (jreader, bool) eff" where
  "expect_token t m = bindE read_tok (\<lambda>k. if tok_type k \<noteq> t then add_error m k None else ret True)"

function recover_loop :: "token \<Rightarrow> (jreader, unit) eff" where
  "recover_loop t st =
     (case read_tok st of
        (Inl e, st') \<Rightarrow> (Inl e, st')
      | (Inr k, st') \<Rightarrow> if tok_type k = t \<or> tok_type k = EndOfStream then (Inr (), st') else recover_loop t st')"
  by auto
termination
  by (relation "measure (\<lambda>(t, st). length (jr_left st))") (auto dest!: read_tok_token [OF sym] read_token_shorter)

declare recover_loop.simps [simp del]

definition recover_from_error :: "token \<Rightarrow> (jreader, bool) eff" where
  "recover_from_error t =
     bindE (getS (\<lambda>st. length (jr_errors st))) (\<lambda>n.
     bindE (recover_loop t) (\<lambda>_.
     bindE (modS (\<lambda>st. st\<lparr>jr_errors := take n (jr_errors st)\<rparr>)) (\<lambda>_. ret False)))"

definition add_error_and_recover :: "string \<Rightarrow> json_token \<Rightarrow> token \<Rightarrow> (jreader, bool) eff" where
  "add_error_and_recover m k t = bindE (add_error m k None) (\<lambda>_. recover_from_error t)"

text \<open>
  What \<open>decodeString\<close> and \<open>decodeUnicodeEscapeSequence\<close> report of a text they can not decode: the
  message, and what is left of the text at the place it refers to.
\<close>

fun string_fault :: "string \<Rightarrow> (string \<times> string) option" where
  "string_fault [] = None"
| "string_fault (c # s) =
     (if c = CHR 0x22 then None
      else if c = CHR 0x5C then
        (case s of
           [] \<Rightarrow> Some (''Empty escape sequence in string'', [])
         | e # t \<Rightarrow>
             if e \<in> {CHR 0x22, CHR ''/'', CHR 0x5C, CHR ''b'', CHR ''f'', CHR ''n'', CHR ''r'', CHR ''t''} then string_fault t
             else if e = CHR ''u'' then
               (case t of
                  h1 # h2 # h3 # h4 # r \<Rightarrow>
                    if list_all json_hex [h1, h2, h3, h4] then string_fault r
                    else Some (''Bad unicode escape sequence in string: hexadecimal digit expected.'', tl (dropWhile json_hex t))
                | _ \<Rightarrow> Some (''Bad unicode escape sequence in string: four digits expected.'', t))
             else Some (''Bad escape sequence in string'', t))
      else string_fault s)"

lemma string_fault_iff: "string_fault s = None \<longleftrightarrow> decode_string s \<noteq> None"
  by (induction s rule: string_fault.induct) (auto split: list.splits)

text \<open>\<open>decodeNumber\<close> with \<open>decodeDouble\<close>, and the two \<open>decodeString\<close>\<close>

fun held_json :: "json \<Rightarrow> jvalue" where
  "held_json (JInt i) = JV no_comments (HInt i)"
| "held_json (JUInt u) = JV no_comments (HUInt u)"
| "held_json (JReal r) = JV no_comments (HReal r)"
| "held_json _ = null_value"

definition decode_number_tok :: "(string \<Rightarrow> rat option) \<Rightarrow> string \<Rightarrow> json_token \<Rightarrow> (jreader, bool) eff" where
  "decode_number_tok lf x k =
     (case decode_number lf x of
        Some v \<Rightarrow> bindE (assign_current (held_json v)) (\<lambda>_. ret True)
      | None \<Rightarrow> add_error ([CHR 0x27] @ text_between (tok_start k) (tok_end k) @ [CHR 0x27] @ '' is not a number.'') k None)"

definition decode_string_tok :: "string \<Rightarrow> json_token \<Rightarrow> (jreader, string option) eff" where
  "decode_string_tok x k =
     (case decode_string x of
        Some s \<Rightarrow> ret (Some s)
      | None \<Rightarrow>
          (case string_fault x of
             None \<Rightarrow> ret None
           | Some (m, rem) \<Rightarrow> bindE (add_error m k (Some (rem @ CHR 0x22 # tok_end k))) (\<lambda>_. ret None)))"

definition decode_string_value :: "string \<Rightarrow> json_token \<Rightarrow> (jreader, bool) eff" where
  "decode_string_value x k =
     bindE (decode_string_tok x k) (\<lambda>d.
     case d of None \<Rightarrow> ret False | Some s \<Rightarrow> bindE (assign_current (string_value s)) (\<lambda>_. ret True))"

section \<open>Reading a value\<close>

text \<open>
  A run that counts its calls; \<open>once\<close> is an effect that makes none. What number is enough is shown
  below.
\<close>

type_synonym 'a run = "jreader \<Rightarrow> ((exn + 'a) \<times> jreader) option"

definition once :: "(jreader, 'a) eff \<Rightarrow> 'a run" where
  "once m = (\<lambda>st. Some (m st))"

definition andthen :: "'a run \<Rightarrow> ('a \<Rightarrow> 'b run) \<Rightarrow> 'b run" where
  "andthen m k = (\<lambda>st.
     case m st of
       None \<Rightarrow> None
     | Some (Inl e, st') \<Rightarrow> Some (Inl e, st')
     | Some (Inr x, st') \<Rightarrow> k x st')"

text \<open>The two ends of \<open>readValue\<close>: the comments before the value, and its place.\<close>

definition comment_value :: "(jreader, unit) eff" where
  "comment_value = modS (\<lambda>st.
     if jr_collect st \<and> jr_before st \<noteq> [] then
       st\<lparr>jr_root := change_at (current_node st) (set_comment (jr_before st) Comment_before) (jr_root st), jr_before := []\<rparr>
     else st)"

definition value_read :: "bool \<Rightarrow> (jreader, bool) eff" where
  "value_read ok =
     bindE (modS (\<lambda>st. if jr_collect st then st\<lparr>jr_last_end := Some (jr_left st), jr_last_value := Some (current_node st)\<rparr> else st))
       (\<lambda>_. ret ok)"

text \<open>The beginning of \<open>readArray\<close>: whether the array is empty, which is then read.\<close>

definition begin_array :: "(jreader, bool) eff" where
  "begin_array =
     bindE (assign_current (new_value ArrayValue)) (\<lambda>_.
     bindE (modS (\<lambda>st. st\<lparr>jr_left := skip_spaces (jr_left st)\<rparr>)) (\<lambda>_.
     bindE (getS jr_left) (\<lambda>s.
     if s \<noteq> [] \<and> hd s = CHR '']'' then bindE read_tok (\<lambda>_. ret True) else ret False)))"

definition assign_word :: "jvalue \<Rightarrow> (jreader, bool) eff" where
  "assign_word x = bindE (assign_current x) (\<lambda>_. ret True)"

fun run_value :: "(string \<Rightarrow> rat option) \<Rightarrow> nat \<Rightarrow> bool run"
  and run_members :: "(string \<Rightarrow> rat option) \<Rightarrow> nat \<Rightarrow> string \<Rightarrow> bool run"
  and run_elements :: "(string \<Rightarrow> rat option) \<Rightarrow> nat \<Rightarrow> 32 word \<Rightarrow> bool run" where
  "run_value lf 0 = (\<lambda>st. None)"
| "run_value lf (Suc n) =
     andthen (once skip_comments) (\<lambda>k.
     andthen (once comment_value) (\<lambda>_.
     case tok_type k of
       ObjectBegin \<Rightarrow>
         andthen (andthen (once (assign_current (new_value ObjectValue))) (\<lambda>_. run_members lf n [])) (\<lambda>ok. once (value_read ok))
     | ArrayBegin \<Rightarrow>
         andthen (andthen (once begin_array) (\<lambda>empty. if empty then once (ret True) else run_elements lf n 0)) (\<lambda>ok. once (value_read ok))
     | NumberToken x \<Rightarrow> andthen (once (decode_number_tok lf x k)) (\<lambda>ok. once (value_read ok))
     | StringToken x \<Rightarrow> andthen (once (decode_string_value x k)) (\<lambda>ok. once (value_read ok))
     | TrueToken \<Rightarrow> andthen (once (assign_word (JV no_comments (HBool True)))) (\<lambda>ok. once (value_read ok))
     | FalseToken \<Rightarrow> andthen (once (assign_word (JV no_comments (HBool False)))) (\<lambda>ok. once (value_read ok))
     | NullToken \<Rightarrow> andthen (once (assign_word null_value)) (\<lambda>ok. once (value_read ok))
     | _ \<Rightarrow> once (add_error ''Syntax error: value, object or array expected.'' k None)))"
| "run_members lf 0 name = (\<lambda>st. None)"
| "run_members lf (Suc n) name =
     andthen (once skip_comments) (\<lambda>k.
     case tok_type k of
       StringToken x \<Rightarrow>
         andthen (once (decode_string_tok x k)) (\<lambda>d.
         case d of
           None \<Rightarrow> once (recover_from_error ObjectEnd)
         | Some nm \<Rightarrow>
             andthen (once read_tok) (\<lambda>colon.
             if tok_type colon \<noteq> MemberSeparator then
               once (add_error_and_recover (''Missing '' @ [CHR 0x27, CHR '':'', CHR 0x27] @ '' after object member name'') colon ObjectEnd)
             else
               andthen (once (enter_member nm)) (\<lambda>_.
               andthen (run_value lf n) (\<lambda>ok.
               andthen (once leave_node) (\<lambda>_.
               if \<not> ok then once (recover_from_error ObjectEnd)
               else
                 andthen (once read_tok) (\<lambda>comma.
                 case tok_type comma of
                   ObjectEnd \<Rightarrow> once (ret True)
                 | ArraySeparator \<Rightarrow> run_members lf n nm
                 | _ \<Rightarrow> once (add_error_and_recover
                     (''Missing '' @ [CHR 0x27, CHR '','', CHR 0x27] @ '' or '' @ [CHR 0x27, CHR ''}'', CHR 0x27] @ '' in object declaration'')
                     comma ObjectEnd)))))))
     | t \<Rightarrow>
         if t = ObjectEnd \<and> name = [] then once (ret True)
         else once (add_error_and_recover (''Missing '' @ [CHR 0x27, CHR ''}'', CHR 0x27] @ '' or object member name'') k ObjectEnd))"
| "run_elements lf 0 i = (\<lambda>st. None)"
| "run_elements lf (Suc n) i =
     andthen (once (enter_index i)) (\<lambda>_.
     andthen (run_value lf n) (\<lambda>ok.
     andthen (once leave_node) (\<lambda>_.
     if \<not> ok then once (recover_from_error ArrayEnd)
     else
       andthen (once read_tok) (\<lambda>k.
       case tok_type k of
         ArraySeparator \<Rightarrow> run_elements lf n (i + 1)
       | ArrayEnd \<Rightarrow> once (ret True)
       | _ \<Rightarrow> once (add_error_and_recover
           (''Missing '' @ [CHR 0x27, CHR '','', CHR 0x27] @ '' or '' @ [CHR 0x27, CHR '']'', CHR 0x27] @ '' in array declaration'') k ArrayEnd)))))"

text \<open>\<open>Reader::parse\<close>; what stands behind the value is only read for its comments.\<close>

definition comment_root :: "(jreader, unit) eff" where
  "comment_root = modS (\<lambda>st.
     if jr_collect st \<and> jr_before st \<noteq> [] then st\<lparr>jr_root := set_comment (jr_before st) Comment_after (jr_root st)\<rparr> else st)"

definition reader_parse :: "(string \<Rightarrow> rat option) \<Rightarrow> bool \<Rightarrow> string \<Rightarrow> jvalue \<Rightarrow> ((exn + bool) \<times> jreader) option" where
  "reader_parse lf collect doc rv =
     andthen (run_value lf (2 * length doc + 1)) (\<lambda>ok.
     andthen (once skip_comments) (\<lambda>_.
     andthen (once comment_root) (\<lambda>_. once (ret ok)))) (start_reader collect doc rv)"

section \<open>The places of errors\<close>

text \<open>
  \<open>getLocationLineAndColumn\<close>: the loop over the document, with the text that is left, the position in
  it, the position asked for, the start of the line and the number of lines before it.
\<close>

fun line_loop :: "string \<Rightarrow> nat \<Rightarrow> nat \<Rightarrow> nat \<Rightarrow> nat \<Rightarrow> nat \<times> nat" where
  "line_loop [] i loc start n = (start, n)"
| "line_loop (c # s) i loc start n =
     (if \<not> i < loc then (start, n)
      else if c = CHR 0x0D then
        (case s of
           d # t \<Rightarrow> if d = CHR 0x0A then line_loop t (i + 2) loc (i + 2) (Suc n) else line_loop s (i + 1) loc (i + 1) (Suc n)
         | [] \<Rightarrow> (i + 1, Suc n))
      else if c = CHR 0x0A then line_loop s (i + 1) loc (i + 1) (Suc n)
      else line_loop s (i + 1) loc start n)"

definition line_and_column :: "string \<Rightarrow> string \<Rightarrow> nat \<times> int" where
  "line_and_column doc r =
     (let loc = length doc - length r; (start, n) = line_loop doc 0 loc 0 0 in (Suc n, int loc - int start + 1))"

definition location_text :: "string \<Rightarrow> string \<Rightarrow> string" where
  "location_text doc r = (let (l, c) = line_and_column doc r in ''Line '' @ show_nat l @ '', Column '' @ show_int c)"

definition formatted_errors :: "string \<Rightarrow> error_info list \<Rightarrow> string" where
  "formatted_errors doc es =
     concat (map (\<lambda>e.
       ''* '' @ location_text doc (tok_start (err_token e)) @ [CHR 0x0A] @ ''  '' @ err_message e @ [CHR 0x0A] @
       (case err_extra e of
          None \<Rightarrow> []
        | Some x \<Rightarrow> ''See '' @ location_text doc x @ '' for detail.'' @ [CHR 0x0A])) es)"

end
