(* ===== verification/Json_Reader_Correct.thy ===== *)
theory Json_Reader_Correct
  imports Json_Reader
begin

text \<open>
  What \<open>Json_Reader\<close> promises: its pointers are followed only where they point to something, and it
  refines the reader of \<open>Json\<close>. The proof goes call by call (\<open>value_step\<close>, \<open>member_step\<close>,
  \<open>elements_step\<close>): what was written below the top of the stack (\<open>wrote\<close>), and nothing else but
  comments (\<open>touched\<close>).
\<close>

section \<open>Following pointers\<close>

text \<open>A pointer names a value when its keys are there, in containers whose keys are in order.\<close>

fun present :: "czkey list \<Rightarrow> jvalue \<Rightarrow> bool" where
  "present [] v = True"
| "present (k # p) v =
     (case held v of
        HArray xs \<Rightarrow> map_ok xs \<and> map_find xs k \<noteq> None \<and> present p (entry (held v) k)
      | HObject ms \<Rightarrow> map_ok ms \<and> map_find ms k \<noteq> None \<and> present p (entry (held v) k)
      | _ \<Rightarrow> False)"

lemma strictly_below_simps [simp]:
  "strictly_below [] u = (u \<noteq> [])" "\<not> strictly_below p p" "\<not> strictly_below p []"
  "strictly_below (k # p) (j # u) = (k = j \<and> strictly_below p u)"
  by (auto simp: strictly_below_def)

lemma map_set_set [simp]: "map_set k x (map_set k y m) = map_set k x m"
  by (induction k y m rule: map_set.induct) auto

lemma map_set_found: "map_ok m \<Longrightarrow> map_find m k = Some x \<Longrightarrow> map_set k x m = m"
  by (induction k x m rule: map_set.induct) (force simp: map_find_def map_ok_def dest: map_of_SomeD split: if_splits)+

lemma put_put [simp]: "put_entry k x (put_entry k y h) = put_entry k x h"
  by (cases h) simp_all

lemma change_change: "change_at p f (change_at p g v) = change_at p (\<lambda>x. f (g x)) v"
proof (induction p arbitrary: v)
  case (Cons k p)
  show ?case by (cases "held v") (simp_all add: Cons)
qed simp

lemma change_append: "change_at (p @ r) f v = change_at p (change_at r f) v"
  by (induction p arbitrary: v) simp_all

lemma node_change: "present p v \<Longrightarrow> node_at p (change_at p f v) = f (node_at p v)"
  by (induction p arbitrary: v) (auto split: held.splits)

lemma present_append: "present (p @ r) v = (present p v \<and> present r (node_at p v))"
  by (induction p arbitrary: v) (auto split: held.splits)

lemma change_cong: "f (node_at p v) = g (node_at p v) \<Longrightarrow> change_at p f v = change_at p g v"
  by (induction p arbitrary: v) simp_all

lemma change_id: "present p v \<Longrightarrow> change_at p (\<lambda>x. x) v = v"
proof (induction p arbitrary: v)
  case (Cons k p)
  then show ?case by (cases v) (auto simp: map_set_found split: held.splits option.splits)
qed simp

lemma present_change:
  "present p v \<Longrightarrow> present u v \<Longrightarrow> (\<And>r. u = p @ r \<Longrightarrow> present r (f (node_at p v))) \<Longrightarrow> present u (change_at p f v)"
proof (induction p arbitrary: u v)
  case (Cons k p)
  show ?case
  proof (cases u)
    case (Cons j w)
    show ?thesis
    proof (cases "j = k")
      case True
      have "present w (change_at p f (entry (held v) k))"
        using Cons.prems True \<open>u = j # w\<close> by (intro Cons.IH) (auto split: held.splits)
      with True Cons.prems \<open>u = j # w\<close> show ?thesis by (auto split: held.splits)
    next
      case False
      with Cons.prems \<open>u = j # w\<close> show ?thesis by (auto split: held.splits)
    qed
  qed simp
qed simp

section \<open>Forgetting the comments\<close>

lemma slots_plain [simp]: "slots (plain v) = no_comments"
  by (cases v) simp

lemma held_plain [simp]: "held (plain v) = map_held plain (held v)"
  by (cases v) simp

lemma plain_null [simp]: "plain null_value = null_value"
  by (simp add: null_value_def new_value_def)

lemma map_set_map: "map (map_prod id f) (map_set k x m) = map_set k (f x) (map (map_prod id f) m)"
  by (induction k x m rule: map_set.induct) auto

lemma map_insert_map: "map (map_prod id f) (map_insert k x m) = map_insert k (f x) (map (map_prod id f) m)"
  by (auto simp: map_insert_def map_find_map map_set_map split: option.split)

lemma entry_plain: "entry (map_held plain h) k = plain (entry h k)"
  by (cases h) (auto simp: map_find_map split: option.split)

lemma plain_put: "map_held plain (put_entry k x h) = put_entry k (plain x) (map_held plain h)"
  by (cases h) (simp_all add: map_set_map)

lemma plain_node: "plain (node_at p v) = node_at p (plain v)"
  by (induction p arbitrary: v) (simp_all add: entry_plain)

lemma plain_change:
  "(\<And>v. plain (f v) = g (plain v)) \<Longrightarrow> plain (change_at p f v) = change_at p g (plain v)"
  by (induction p arbitrary: v) (simp_all add: entry_plain plain_put)

lemma plain_set_comment [simp]: "plain (set_comment t p v) = plain v"
  by (cases v) (simp add: set_comment_def)

lemma plain_assign [simp]: "plain (assign_value v x) = plain x"
  by (cases x) (simp add: assign_value_def)

lemma plain_comment_at: "present p (plain v) \<Longrightarrow> plain (change_at p (set_comment t c) v) = plain v"
  by (subst plain_change [of _ "\<lambda>x. x"]) (simp_all add: change_id)

section \<open>What tokens do to the state\<close>

text \<open>
  A state is safe when the last value can be followed wherever it is. Tokens only change the text and
  the comments (\<open>touched\<close>).
\<close>

definition safe :: "jreader \<Rightarrow> bool" where
  "safe st =
     ((if jr_collect st then jr_last_end st \<noteq> None \<longrightarrow> jr_last_value st \<noteq> None else jr_last_end st = None \<and> jr_last_value st = None) \<and>
      (\<forall>u. jr_last_value st = Some u \<longrightarrow> present u (plain (jr_root st))))"

definition touched :: "jreader \<Rightarrow> jreader \<Rightarrow> bool" where
  "touched st st' =
     (plain (jr_root st') = plain (jr_root st) \<and> jr_errors st' = jr_errors st \<and> jr_nodes st' = jr_nodes st \<and>
      jr_last_value st' = jr_last_value st \<and> jr_last_end st' = jr_last_end st \<and> jr_collect st' = jr_collect st)"

lemma touched_safe: "touched st st' \<Longrightarrow> safe st \<Longrightarrow> safe st'"
  by (simp add: touched_def safe_def)

lemma touched_trans [trans]: "touched a b \<Longrightarrow> touched b c \<Longrightarrow> touched a c"
  by (simp add: touched_def)

lemma touched_left [simp]: "touched st (st\<lparr>jr_left := r\<rparr>)"
  by (simp add: touched_def)

lemma add_comment_safe:
  assumes "safe st" "p = Comment_same_line \<longrightarrow> jr_last_end st \<noteq> None"
  obtains st' where "add_comment t p st = (Inr (), st')" "touched st st'" "jr_left st' = jr_left st"
proof (cases "p = Comment_same_line")
  case True
  with assms obtain u where u: "jr_last_value st = Some u" "present u (plain (jr_root st))"
    by (auto simp: safe_def split: if_splits)
  show thesis by (rule that [of "snd (add_comment t p st)"]) (use True u in \<open>simp_all add: add_comment_def touched_def plain_comment_at\<close>)
next
  case False
  show thesis by (rule that [of "snd (add_comment t p st)"]) (use False in \<open>simp_all add: add_comment_def touched_def\<close>)
qed

lemma read_tok_safe:
  assumes "safe st" "read_token (jr_left st) = (t, r)"
  obtains st' where "read_tok st = (Inr \<lparr>tok_type = t, tok_start = skip_spaces (jr_left st), tok_end = r\<rparr>, st')"
    "touched st st'" "jr_left st' = r" "safe st'"
proof -
  let ?s = "st\<lparr>jr_left := r\<rparr>"
  let ?c = "text_between (skip_spaces (jr_left st)) r" and ?p = "comment_placement (skip_spaces (jr_left st)) r ?s"
  have s: "safe ?s" using touched_safe [OF touched_left assms(1)] .
  have "?p = Comment_same_line \<longrightarrow> jr_last_end ?s \<noteq> None"
    by (simp add: comment_placement_def split: option.split)
  from add_comment_safe [OF s this, of ?c] obtain st' where
    st': "add_comment ?c ?p ?s = (Inr (), st')" "touched ?s st'" "jr_left st' = jr_left ?s" .
  show thesis
  proof (cases "t = CommentToken \<and> jr_collect st")
    case True
    show thesis
      by (rule that [of st']) (use True st' s assms touched_trans [OF touched_left st'(2)] touched_safe [OF st'(2)] in
          \<open>simp_all add: read_tok_def bindE_def ret_def\<close>)
  next
    case False
    show thesis by (rule that [of ?s]) (use False s assms in \<open>auto simp: read_tok_def Let_def\<close>)
  qed
qed

lemma skip_comments_safe:
  assumes "safe st" "next_token (jr_left st) = (t, r)"
  obtains k st' where "skip_comments st = (Inr k, st')" "tok_type k = t" "touched st st'" "jr_left st' = r" "safe st'"
  using assms
proof (induction "jr_left st" arbitrary: st thesis rule: next_token.induct)
  case 1
  obtain t1 r1 where tok: "read_token (jr_left st) = (t1, r1)" by fastforce
  from read_tok_safe [OF 1(3) tok] obtain st1 where
    st1: "read_tok st = (Inr \<lparr>tok_type = t1, tok_start = skip_spaces (jr_left st), tok_end = r1\<rparr>, st1)"
      "touched st st1" "jr_left st1 = r1" "safe st1" .
  show ?case
  proof (cases "t1 = CommentToken")
    case True
    have tok1: "(t1, jr_left st1) = read_token (jr_left st)" by (simp add: tok st1(3))
    from True 1(4) tok have "next_token (jr_left st1) = (t, r)" by (simp add: next_token.simps [of "jr_left st"] st1(3))
    from 1(1) [OF tok1 True _ st1(4) this] obtain k st' where
      "skip_comments st1 = (Inr k, st')" "tok_type k = t" "touched st1 st'" "jr_left st' = r" "safe st'" by blast
    with 1(2) [of k st'] st1 True touched_trans [OF st1(2)] show ?thesis by (simp add: skip_comments.simps [of st])
  next
    case False
    with 1(4) tok have "t = t1" "r = r1" by (simp_all add: next_token.simps [of "jr_left st"])
    with 1(2) [OF _ _ st1(2) _ st1(4)] st1 False show ?thesis by (simp add: skip_comments.simps [of st])
  qed
qed

lemma recover_loop_safe:
  assumes "safe st"
  obtains st' where "recover_loop t st = (Inr (), st')" "touched st st'" "safe st'"
  using assms
proof (induction "jr_left st" arbitrary: st thesis rule: measure_induct_rule [of length])
  case less
  obtain t1 r1 where tok: "read_token (jr_left st) = (t1, r1)" by fastforce
  from read_tok_safe [OF less(3) tok] obtain st1 where
    st1: "read_tok st = (Inr \<lparr>tok_type = t1, tok_start = skip_spaces (jr_left st), tok_end = r1\<rparr>, st1)"
      "touched st st1" "jr_left st1 = r1" "safe st1" .
  show ?case
  proof (cases "t1 = t \<or> t1 = EndOfStream")
    case True
    with less(2) [OF _ st1(2,4)] st1(1) show ?thesis by (simp add: recover_loop.simps [of t st])
  next
    case False
    with tok read_token_shorter have "length (jr_left st1) < length (jr_left st)" by (simp add: st1(3))
    from less(1) [OF this _ st1(4)] obtain st' where "recover_loop t st1 = (Inr (), st')" "touched st1 st'" "safe st'" by blast
    with less(2) [of st'] st1 False touched_trans [OF st1(2)] show ?thesis by (simp add: recover_loop.simps [of t st])
  qed
qed

lemma recover_safe:
  assumes "safe st"
  obtains st' where "recover_from_error t st = (Inr False, st')" "touched st st'" "safe st'"
proof -
  from recover_loop_safe [OF assms] obtain st' where st': "recover_loop t st = (Inr (), st')" "touched st st'" "safe st'" .
  then have "st'\<lparr>jr_errors := take (length (jr_errors st)) (jr_errors st')\<rparr> = st'" by (simp add: touched_def)
  with st' show thesis by (intro that) (simp_all add: recover_from_error_def getS_def modS_def ret_def bindE_def)
qed

text \<open>A failure: there is an error, and the stack of pointers is as before.\<close>

definition failed :: "jreader \<Rightarrow> jreader \<Rightarrow> bool" where
  "failed st st' = (jr_errors st' \<noteq> [] \<and> safe st' \<and> jr_nodes st' = jr_nodes st \<and> present (current_node st') (plain (jr_root st')))"

lemma add_error_failed:
  assumes "safe st" "present (current_node st) (plain (jr_root st))"
  obtains st' where "add_error m k x st = (Inr False, st')" "failed st st'"
  by (rule that [of "snd (add_error m k x st)"]) (use assms in \<open>simp_all add: add_error_def failed_def safe_def current_node_def\<close>)

lemma touched_failed: "failed st st1 \<Longrightarrow> touched st1 st' \<Longrightarrow> failed st st'"
  using touched_safe [of st1 st'] by (auto simp: failed_def touched_def current_node_def)

lemma failed_touched: "touched st st1 \<Longrightarrow> failed st1 st' \<Longrightarrow> failed st st'"
  by (simp add: failed_def touched_def)

lemma recover_failed:
  assumes "failed st st1"
  obtains st' where "recover_from_error t st1 = (Inr False, st')" "failed st st'"
proof -
  have "safe st1" using assms by (simp add: failed_def)
  from recover_safe [OF this] obtain st' where "recover_from_error t st1 = (Inr False, st')" "touched st1 st'" .
  with touched_failed [OF assms] show thesis by (auto intro: that)
qed

lemma error_and_recover_failed:
  assumes "safe st" "present (current_node st) (plain (jr_root st))"
  obtains st' where "add_error_and_recover m k t st = (Inr False, st')" "failed st st'"
proof -
  from add_error_failed [OF assms] obtain st1 where st1: "add_error m k None st = (Inr False, st1)" "failed st st1" .
  from recover_failed [OF st1(2)] obtain st' where "recover_from_error t st1 = (Inr False, st')" "failed st st'" .
  with st1(1) that show thesis by (simp add: add_error_and_recover_def bindE_def)
qed

section \<open>The value that is read\<close>

text \<open>The tree that stands for a value of \<open>Json\<close>, without comments.\<close>

fun indexed :: "nat \<Rightarrow> 'v list \<Rightarrow> (czkey \<times> 'v) list" where
  "indexed i [] = []"
| "indexed i (x # xs) = (Index (int i), x) # indexed (Suc i) xs"

fun tree_of :: "json \<Rightarrow> jvalue" where
  "tree_of JNull = null_value"
| "tree_of (JInt i) = JV no_comments (HInt i)"
| "tree_of (JUInt u) = JV no_comments (HUInt u)"
| "tree_of (JReal r) = JV no_comments (HReal r)"
| "tree_of (JString s) = string_value s"
| "tree_of (JBool b) = JV no_comments (HBool b)"
| "tree_of (JArray xs) = JV no_comments (HArray (indexed 0 (map tree_of xs)))"
| "tree_of (JObject ms) = JV no_comments (HObject (map (\<lambda>(n, x). (Name n, tree_of x)) ms))"

lemma indexed_append: "indexed i (xs @ ys) = indexed i xs @ indexed (i + length xs) ys"
  by (induction xs arbitrary: i) simp_all

lemma indexed_keys: "(k, x) \<in> set (indexed i xs) \<Longrightarrow> \<exists>j. k = Index (int j) \<and> i \<le> j"
  by (induction xs arbitrary: i) (fastforce dest: Suc_leD)+

lemma map_ok_indexed: "map_ok (indexed i xs)"
  by (induction xs arbitrary: i) (fastforce simp: map_ok_def dest: indexed_keys)+

lemma map_set_indexed: "map_set (Index (int (i + length xs))) x (indexed i xs) = indexed i (xs @ [x])"
proof (induction xs arbitrary: i)
  case (Cons y xs)
  from Cons [of "Suc i"] show ?case by (simp add: ac_simps)
qed simp

lemma map_set_names: "map_set (Name n) (f x) (map (\<lambda>(n, x). (Name n, f x)) ms) = map (\<lambda>(n, x). (Name n, f x)) (map_set n x ms)"
  by (induction n x ms rule: map_set.induct) auto

lemma map_ok_names: "map_ok (map (\<lambda>(n, x). (Name n, f x)) ms) = map_ok ms"
  by (induction ms) (auto simp: map_ok_def)

text \<open>What was written at a pointer, and nothing else but comments.\<close>

definition wrote :: "jreader \<Rightarrow> czkey list \<Rightarrow> jvalue \<Rightarrow> jreader \<Rightarrow> bool" where
  "wrote st p t st' =
     (plain (jr_root st') = change_at p (\<lambda>_. t) (plain (jr_root st)) \<and> jr_errors st' = jr_errors st \<and>
      jr_nodes st' = jr_nodes st \<and> safe st')"

lemma wrote_touched: "wrote st p t st1 \<Longrightarrow> touched st1 st' \<Longrightarrow> wrote st p t st'"
  using touched_safe [of st1 st'] by (simp add: wrote_def touched_def)

lemma touched_wrote: "touched st st1 \<Longrightarrow> wrote st1 p t st' \<Longrightarrow> wrote st p t st'"
  by (simp add: wrote_def touched_def)

lemma wrote_wrote: "wrote st p t st1 \<Longrightarrow> wrote st1 p u st' \<Longrightarrow> wrote st p u st'"
  by (simp add: wrote_def change_change)

lemma wrote_failed: "wrote st p t st1 \<Longrightarrow> failed st1 st' \<Longrightarrow> failed st st'"
  by (simp add: wrote_def failed_def)

lemma wrote_present: "wrote st p t st1 \<Longrightarrow> present p (plain (jr_root st)) \<Longrightarrow>
    present p (plain (jr_root st1)) \<and> node_at p (plain (jr_root st1)) = t"
  by (auto simp: wrote_def node_change intro!: present_change)

text \<open>How a run answers what the reader of \<open>Json\<close> answers.\<close>

definition outcome :: "json read_result \<Rightarrow> ((exn + bool) \<times> jreader) option \<Rightarrow> jreader \<Rightarrow> czkey list \<Rightarrow> bool" where
  "outcome a run st p =
     (case a of
        Out_of_fuel \<Rightarrow> run = None
      | Failed \<Rightarrow> \<exists>st'. run = Some (Inr False, st') \<and> failed st st'
      | Parsed v r \<Rightarrow> \<exists>st'. run = Some (Inr True, st') \<and> wrote st p (tree_of v) st' \<and> jr_left st' = r)"

lemma outcome_Parsed: "outcome (Parsed v r) run st p \<longleftrightarrow> (\<exists>st'. run = Some (Inr True, st') \<and> wrote st p (tree_of v) st' \<and> jr_left st' = r)"
  and outcome_Failed: "outcome Failed run st p \<longleftrightarrow> (\<exists>st'. run = Some (Inr False, st') \<and> failed st st')"
  and outcome_fuel: "outcome Out_of_fuel run st p \<longleftrightarrow> run = None"
  by (simp_all add: outcome_def)

lemmas outcomes = outcome_Parsed outcome_Failed outcome_fuel

lemma outcome_touched: "outcome a run st1 p \<Longrightarrow> touched st st1 \<Longrightarrow> outcome a run st p"
  by (cases a) (auto simp: outcomes intro: touched_wrote failed_touched)

lemma outcome_wrote: "outcome a run st1 p \<Longrightarrow> wrote st p t st1 \<Longrightarrow> outcome a run st p"
  by (cases a) (auto simp: outcomes intro: wrote_wrote wrote_failed)

lemma andthen_simps:
  "m st = (Inr x, st') \<Longrightarrow> andthen (once m) k st = k x st'"
  "f st = None \<Longrightarrow> andthen f k st = None"
  "f st = Some (Inr x, st') \<Longrightarrow> andthen f k st = k x st'"
  by (simp_all add: andthen_def once_def)

lemma once_apply [simp]: "once m st = Some (m st)"
  by (simp add: once_def)

section \<open>The steps of the reader\<close>

text \<open>A value can be read into the top of the stack.\<close>

definition ready :: "czkey list \<Rightarrow> jreader \<Rightarrow> bool" where
  "ready p st =
     ((\<exists>ns. jr_nodes st = p # ns) \<and> safe st \<and> present p (plain (jr_root st)) \<and>
      (\<forall>u. jr_last_value st = Some u \<longrightarrow> \<not> strictly_below p u))"

lemma ready_touched: "ready p st \<Longrightarrow> touched st st' \<Longrightarrow> ready p st'"
  using touched_safe [of st st'] by (simp add: ready_def touched_def)

lemma ready_current: "ready p st \<Longrightarrow> current_node st = p"
  by (auto simp: ready_def current_node_def)

lemma assign_ready:
  assumes "ready p st"
  obtains st' where "assign_current x st = (Inr (), st')" "wrote st p (plain x) st'" "jr_left st' = jr_left st" "ready p st'"
    "jr_last_value st' = jr_last_value st"
proof -
  have cur: "current_node st = p" using assms by (rule ready_current)
  have same: "(case jr_last_value st of Some u \<Rightarrow> if strictly_below (current_node st) u then None else Some u | None \<Rightarrow> None) = jr_last_value st"
    using assms by (auto simp: ready_def cur split: option.split)
  let ?st' = "st\<lparr>jr_root := change_at p (\<lambda>v. assign_value v x) (jr_root st)\<rparr>"
  have root: "plain (jr_root ?st') = change_at p (\<lambda>_. plain x) (plain (jr_root st))"
    by (simp add: plain_change [of _ "\<lambda>_. plain x"])
  have keep: "present u (change_at p (\<lambda>_. plain x) (plain (jr_root st)))"
    if "present u (plain (jr_root st))" "\<not> strictly_below p u" for u
    using that assms by (intro present_change) (auto simp: ready_def strictly_below_def)
  have "safe ?st'"
    using assms keep unfolding safe_def root by (auto simp: ready_def safe_def split: if_splits)
  moreover have "assign_current x st = (Inr (), ?st')"
    using same by (simp add: assign_current_def modS_def Let_def cur)
  moreover have "present p (plain (jr_root ?st'))" unfolding root using keep [of p] assms by (simp add: ready_def)
  ultimately show thesis using that [of ?st'] root assms by (auto simp: wrote_def ready_def)
qed

lemma comment_value_ready:
  assumes "ready p st"
  obtains st' where "comment_value st = (Inr (), st')" "touched st st'" "jr_left st' = jr_left st" "ready p st'"
proof -
  have "touched st (snd (comment_value st))" "jr_left (snd (comment_value st)) = jr_left st"
    using assms ready_current [OF assms]
    by (auto simp: comment_value_def modS_def touched_def ready_def plain_comment_at)
  then show thesis
    by (intro that [of "snd (comment_value st)"] ready_touched [OF assms]) (simp_all add: comment_value_def modS_def)
qed

lemma value_read_safe:
  assumes "safe st" "present (current_node st) (plain (jr_root st))"
  obtains st' where "value_read ok st = (Inr ok, st')" "safe st'" "jr_root st' = jr_root st" "jr_errors st' = jr_errors st"
    "jr_nodes st' = jr_nodes st" "jr_left st' = jr_left st" "jr_last_value st' = None \<or> jr_last_value st' = Some (current_node st)"
  by (rule that [of "snd (value_read ok st)"])
    (use assms in \<open>auto simp: value_read_def bindE_def modS_def ret_def safe_def\<close>)

text \<open>The end of \<open>readValue\<close> makes the value the last one.\<close>

definition value_outcome :: "json read_result \<Rightarrow> ((exn + bool) \<times> jreader) option \<Rightarrow> jreader \<Rightarrow> czkey list \<Rightarrow> bool" where
  "value_outcome a run st p =
     (outcome a run st p \<and> (\<forall>st'. run = Some (Inr True, st') \<longrightarrow> jr_last_value st' = None \<or> jr_last_value st' = Some p))"

lemma value_outcome_touched: "value_outcome a run st1 p \<Longrightarrow> touched st st1 \<Longrightarrow> value_outcome a run st p"
  using outcome_touched by (auto simp: value_outcome_def)

lemma value_readI:
  assumes "ready p st" "outcome a (f st1) st p"
  shows "value_outcome a (andthen f (\<lambda>ok. once (value_read ok)) st1) st p"
proof (cases a)
  case Out_of_fuel
  with assms(2) show ?thesis by (simp add: value_outcome_def outcomes andthen_simps)
next
  case Failed
  with assms(2) obtain st2 where st2: "f st1 = Some (Inr False, st2)" "failed st st2" by (auto simp: outcomes)
  then have "safe st2" "present (current_node st2) (plain (jr_root st2))" by (simp_all add: failed_def)
  from value_read_safe [OF this] obtain st' where
    "value_read False st2 = (Inr False, st')" "safe st'" "jr_root st' = jr_root st2" "jr_errors st' = jr_errors st2"
    "jr_nodes st' = jr_nodes st2" by blast
  with st2 Failed show ?thesis
    by (auto simp: value_outcome_def outcomes andthen_simps failed_def current_node_def)
next
  case (Parsed v r)
  with assms(2) obtain st2 where st2: "f st1 = Some (Inr True, st2)" "wrote st p (tree_of v) st2" "jr_left st2 = r"
    by (auto simp: outcomes)
  have cur: "current_node st2 = p" using st2(2) assms(1) by (auto simp: wrote_def ready_def current_node_def)
  have "safe st2" "present (current_node st2) (plain (jr_root st2))"
    using st2(2) wrote_present [OF st2(2)] assms(1) cur by (simp_all add: wrote_def ready_def)
  from value_read_safe [OF this, of True] obtain st' where
    "value_read True st2 = (Inr True, st')" "safe st'" "jr_root st' = jr_root st2" "jr_errors st' = jr_errors st2"
    "jr_nodes st' = jr_nodes st2" "jr_left st' = jr_left st2" "jr_last_value st' = None \<or> jr_last_value st' = Some p"
    unfolding cur by blast
  with st2 Parsed show ?thesis by (auto simp: value_outcome_def outcomes andthen_simps wrote_def)
qed

text \<open>
  A container that is being filled: its node stands at the top of the stack, and the last value is no
  deeper than its entries.
\<close>

definition filling :: "czkey list \<Rightarrow> jvalue \<Rightarrow> jreader \<Rightarrow> bool" where
  "filling p t st =
     ((\<exists>ns. jr_nodes st = p # ns) \<and> safe st \<and> present p (plain (jr_root st)) \<and> node_at p (plain (jr_root st)) = t \<and>
      (\<forall>u k. jr_last_value st = Some u \<longrightarrow> \<not> strictly_below (p @ [k]) u))"

lemma strictly_below_prefix: "strictly_below (p @ r) u \<Longrightarrow> strictly_below p u"
proof (induction p arbitrary: u)
  case (Cons a p)
  then show ?case by (cases u) auto
qed auto

lemma ready_filling:
  assumes "ready p st" "wrote st p t st'" "jr_last_value st' = jr_last_value st"
  shows "filling p t st'"
  using assms wrote_present [OF assms(2)]
  by (auto simp: filling_def ready_def wrote_def dest: strictly_below_prefix)

lemma filling_touched: "filling p t st \<Longrightarrow> touched st st' \<Longrightarrow> filling p t st'"
  using touched_safe [of st st'] by (simp add: filling_def touched_def)

text \<open>An entry is made; what was there stays.\<close>

lemma enter_filling:
  assumes "filling p t st" "ensure (node_at p (jr_root st)) = Inr w" "present [k] (plain w)"
    and "\<And>r. present r t \<Longrightarrow> present r (plain w)"
  obtains st1 where "enter_with ensure k st = (Inr (), st1)" "ready (p @ [k]) st1" "jr_left st1 = jr_left st"
    "plain (jr_root st1) = change_at p (\<lambda>_. plain w) (plain (jr_root st))" "jr_nodes st1 = (p @ [k]) # jr_nodes st"
    "jr_errors st1 = jr_errors st"
proof -
  have cur: "current_node st = p" using assms(1) by (auto simp: filling_def current_node_def)
  let ?st1 = "st\<lparr>jr_root := change_at p (\<lambda>_. w) (jr_root st), jr_nodes := (p @ [k]) # jr_nodes st\<rparr>"
  have root: "plain (jr_root ?st1) = change_at p (\<lambda>_. plain w) (plain (jr_root st))"
    by (simp add: plain_change [of _ "\<lambda>_. plain w"])
  have keep: "present u (change_at p (\<lambda>_. plain w) (plain (jr_root st)))" if "present u (plain (jr_root st))" for u
    using that assms by (intro present_change) (auto simp: filling_def present_append)
  have p: "present p (plain (jr_root st))" using assms(1) by (simp add: filling_def)
  have "present (p @ [k]) (plain (jr_root ?st1))"
    unfolding root present_append using keep [OF p] node_change [OF p, of "\<lambda>_. plain w"] assms(3) by simp
  moreover have "safe ?st1" using assms(1) keep unfolding safe_def root by (auto simp: filling_def safe_def split: if_splits)
  ultimately have "ready (p @ [k]) ?st1" using assms(1) by (auto simp: ready_def filling_def)
  with root that [of ?st1] assms(2) show thesis by (simp add: enter_with_def Let_def cur)
qed

text \<open>The entry was read, and the stack is popped.\<close>

lemma leave_filling:
  assumes "filling p t st" "plain (jr_root st1) = change_at p (\<lambda>_. w) (plain (jr_root st))"
    and "jr_nodes st1 = (p @ [k]) # jr_nodes st" "jr_errors st1 = jr_errors st"
    and "wrote st1 (p @ [k]) x st2" "jr_last_value st2 = None \<or> jr_last_value st2 = Some (p @ [k])"
  obtains st3 where "leave_node st2 = (Inr (), st3)" "wrote st p (JV (slots w) (put_entry k x (held w))) st3"
    "filling p (JV (slots w) (put_entry k x (held w))) st3" "jr_left st3 = jr_left st2"
proof -
  let ?st3 = "st2\<lparr>jr_nodes := tl (jr_nodes st2)\<rparr>" and ?t = "JV (slots w) (put_entry k x (held w))"
  have "plain (jr_root ?st3) = change_at p (\<lambda>_. ?t) (plain (jr_root st))"
    using assms(2,5) by (simp add: wrote_def change_append change_change)
  moreover have safe: "safe ?st3"
  proof -
    have "safe st2" using assms(5) by (simp add: wrote_def)
    then show ?thesis by (simp add: safe_def)
  qed
  ultimately have w: "wrote st p ?t ?st3" using assms(3-5) by (simp add: wrote_def)
  have "present p (plain (jr_root st))" using assms(1) by (simp add: filling_def)
  with wrote_present [OF w] assms(1,3,5,6) safe have "filling p ?t ?st3"
    by (auto simp: filling_def wrote_def strictly_below_def)
  with w show thesis by (intro that [of ?st3]) (simp_all add: leave_node_def modS_def)
qed

lemma leave_failed:
  assumes "filling p t st" "jr_nodes st1 = (p @ [k]) # jr_nodes st" "failed st1 st2"
  obtains st3 where "leave_node st2 = (Inr (), st3)" "failed st st3"
proof -
  have "present p (plain (jr_root st2))" using assms by (auto simp: failed_def current_node_def present_append)
  with assms have "failed st (st2\<lparr>jr_nodes := tl (jr_nodes st2)\<rparr>)"
    by (auto simp: failed_def current_node_def safe_def filling_def)
  then show thesis by (intro that) (simp_all add: leave_node_def modS_def)
qed

lemma filling_error:
  assumes "filling p t st"
  obtains st' where "add_error_and_recover m k e st = (Inr False, st')" "failed st st'"
proof -
  have "safe st" "present (current_node st) (plain (jr_root st))"
    using assms by (auto simp: filling_def current_node_def)
  from error_and_recover_failed [OF this] show thesis using that .
qed

text \<open>The entries of objects and arrays.\<close>

lemma enter_object:
  assumes "filling p (tree_of (JObject ms)) st" "map_ok ms"
  obtains st1 w where "enter_member n st = (Inr (), st1)" "ready (p @ [Name (c_str n)]) st1" "jr_left st1 = jr_left st"
    "plain (jr_root st1) = change_at p (\<lambda>_. w) (plain (jr_root st))" "jr_nodes st1 = (p @ [Name (c_str n)]) # jr_nodes st"
    "jr_errors st1 = jr_errors st"
    "\<forall>v. JV (slots w) (put_entry (Name (c_str n)) (tree_of v) (held w)) = tree_of (JObject (map_set (c_str n) v ms))"
proof -
  let ?k = "Name (c_str n)" and ?v = "node_at p (jr_root st)" and ?t = "map (\<lambda>(n, x). (Name n, tree_of x)) ms"
  have "plain ?v = tree_of (JObject ms)" using assms(1) by (simp add: filling_def plain_node)
  then have "map_held plain (held ?v) = HObject ?t" by (metis held_plain jvalue.sel(2) tree_of.simps(8))
  then obtain xs where xs: "held ?v = HObject xs" "map (map_prod id plain) xs = ?t" by (cases "held ?v") auto
  let ?w = "JV (slots ?v) (HObject (map_insert ?k null_value xs))"
  have w: "ensure_member n ?v = Inr ?w" by (simp add: ensure_member_def xs(1))
  have pw: "plain ?w = JV no_comments (HObject (map_insert ?k null_value ?t))"
    by (simp add: map_insert_map xs(2))
  have ok: "map_ok ?t" using assms(2) by (simp add: map_ok_names)
  have one: "present [?k] (plain ?w)" using map_ok_insert [OF ok] unfolding pw by (simp split: option.split)
  have grow: "present r (plain ?w)" if "present r (tree_of (JObject ms))" for r
    using that map_ok_insert [OF ok] unfolding pw by (cases r) (auto split: option.splits)
  from enter_filling [where ensure = "ensure_member n" and k = ?k and w = ?w, OF assms(1) w one grow] obtain st1 where st1: "enter_with (ensure_member n) ?k st = (Inr (), st1)"
    "ready (p @ [?k]) st1" "jr_left st1 = jr_left st" "plain (jr_root st1) = change_at p (\<lambda>_. plain ?w) (plain (jr_root st))"
    "jr_nodes st1 = (p @ [?k]) # jr_nodes st" "jr_errors st1 = jr_errors st" by blast
  have "JV (slots (plain ?w)) (put_entry ?k (tree_of v) (held (plain ?w))) = tree_of (JObject (map_set (c_str n) v ms))" for v
    unfolding pw by (simp add: map_set_insert map_set_names)
  with st1 that show thesis by (auto simp: enter_member_def)
qed

lemma enter_array:
  assumes "filling p (tree_of (JArray xs)) st" "length xs < 2147483647"
  obtains st1 k w where "enter_index (of_nat (length xs)) st = (Inr (), st1)" "ready (p @ [k]) st1" "jr_left st1 = jr_left st"
    "plain (jr_root st1) = change_at p (\<lambda>_. w) (plain (jr_root st))" "jr_nodes st1 = (p @ [k]) # jr_nodes st"
    "jr_errors st1 = jr_errors st"
    "\<forall>v. JV (slots w) (put_entry k (tree_of v) (held w)) = tree_of (JArray (xs @ [v]))"
proof -
  let ?i = "of_nat (length xs) :: 32 word" and ?v = "node_at p (jr_root st)" and ?t = "indexed 0 (map tree_of xs)"
  have "unat ?i = length xs" using assms(2) by (simp add: unsigned_of_nat take_bit_nat_eq_self)
  then have k: "index_key ?i = Index (int (length xs))" using assms(2) by (simp add: index_key_small)
  have "plain ?v = tree_of (JArray xs)" using assms(1) by (simp add: filling_def plain_node)
  then have "map_held plain (held ?v) = HArray ?t" by (metis held_plain jvalue.sel(2) tree_of.simps(7))
  then obtain ys where ys: "held ?v = HArray ys" "map (map_prod id plain) ys = ?t" by (cases "held ?v") auto
  let ?w = "JV (slots ?v) (HArray (map_insert (index_key ?i) null_value ys))"
  have w: "ensure_index ?i ?v = Inr ?w" by (simp add: ensure_index_def ys(1))
  have pw: "plain ?w = JV no_comments (HArray (map_insert (index_key ?i) null_value ?t))"
    by (simp add: map_insert_map ys(2))
  have ok: "map_ok (map_insert (index_key ?i) null_value ?t)" by (intro map_ok_insert map_ok_indexed)
  have one: "present [index_key ?i] (plain ?w)" using ok unfolding pw by (simp split: option.split)
  have grow: "present r (plain ?w)" if "present r (tree_of (JArray xs))" for r
    using that ok unfolding pw by (cases r) (auto split: option.splits)
  from enter_filling [where ensure = "ensure_index ?i" and k = "index_key ?i" and w = ?w, OF assms(1) w one grow]
  obtain st1 where st1: "enter_with (ensure_index ?i) (index_key ?i) st = (Inr (), st1)"
    "ready (p @ [index_key ?i]) st1" "jr_left st1 = jr_left st" "plain (jr_root st1) = change_at p (\<lambda>_. plain ?w) (plain (jr_root st))"
    "jr_nodes st1 = (p @ [index_key ?i]) # jr_nodes st" "jr_errors st1 = jr_errors st" by blast
  have "JV (slots (plain ?w)) (put_entry (index_key ?i) (tree_of v) (held (plain ?w))) = tree_of (JArray (xs @ [v]))" for v
    unfolding pw using map_set_indexed [of 0 "map tree_of xs" "tree_of v"] by (simp add: map_set_insert k)
  with st1 that show thesis by (auto simp: enter_index_def)
qed

section \<open>The reader refines the one of \<open>Json\<close>\<close>

definition value_refines :: "(string \<Rightarrow> rat option) \<Rightarrow> nat \<Rightarrow> bool" where
  "value_refines lf n =
     (\<forall>p st. ready p st \<longrightarrow> length (jr_left st) < 2147483647 \<longrightarrow>
        value_outcome (read_value lf n (jr_left st)) (run_value lf n st) st p)"

definition members_refines :: "(string \<Rightarrow> rat option) \<Rightarrow> nat \<Rightarrow> bool" where
  "members_refines lf n =
     (\<forall>p st name ms. filling p (tree_of (JObject ms)) st \<longrightarrow> map_ok ms \<longrightarrow> length (jr_left st) < 2147483647 \<longrightarrow>
        outcome (read_members lf n name ms (jr_left st)) (run_members lf n name st) st p)"

definition elements_refines :: "(string \<Rightarrow> rat option) \<Rightarrow> nat \<Rightarrow> bool" where
  "elements_refines lf n =
     (\<forall>p st xs. filling p (tree_of (JArray xs)) st \<longrightarrow> length xs + length (jr_left st) < 2147483647 \<longrightarrow>
        outcome (read_elements lf n xs (jr_left st)) (run_elements lf n (of_nat (length xs)) st) st p)"

text \<open>The leaves.\<close>

lemma word_outcome:
  assumes "ready p st" "plain x = tree_of v"
  shows "outcome (Parsed v (jr_left st)) (once (assign_word x) st) st p"
proof -
  from assign_ready [OF assms(1), of x] obtain st' where
    "assign_current x st = (Inr (), st')" "wrote st p (plain x) st'" "jr_left st' = jr_left st" by blast
  with assms(2) show ?thesis by (simp add: assign_word_def bindE_def ret_def outcomes)
qed

lemma decode_number_held: "decode_number lf x = Some v \<Longrightarrow> plain (held_json v) = tree_of v"
  by (auto simp: decode_number_def decode_double_def Let_def split: if_splits digits.splits)

lemma number_outcome:
  assumes "ready p st"
  shows "outcome (parsed_or_failed (decode_number lf x) (jr_left st)) (once (decode_number_tok lf x k) st) st p"
proof (cases "decode_number lf x")
  case None
  have "safe st" "present (current_node st) (plain (jr_root st))" using assms by (auto simp: ready_def current_node_def)
  from add_error_failed [OF this, of "[CHR 0x27] @ text_between (tok_start k) (tok_end k) @ [CHR 0x27] @ '' is not a number.''" k None]
  obtain st' where "decode_number_tok lf x k st = (Inr False, st')" "failed st st'"
    by (auto simp: decode_number_tok_def None)
  with None show ?thesis by (simp add: outcomes parsed_or_failed_def)
next
  case (Some v)
  from word_outcome [OF assms decode_number_held [OF Some]] Some show ?thesis
    by (simp add: decode_number_tok_def parsed_or_failed_def assign_word_def)
qed

lemma decode_string_failed:
  assumes "decode_string x = None" "safe st" "present (current_node st) (plain (jr_root st))"
  obtains st' where "decode_string_tok x k st = (Inr None, st')" "failed st st'"
proof -
  obtain m rem where f: "string_fault x = Some (m, rem)" using assms(1) string_fault_iff [of x] by (cases "string_fault x") auto
  from add_error_failed [OF assms(2,3), of m k "Some (rem @ CHR 0x22 # tok_end k)"] obtain st' where
    "add_error m k (Some (rem @ CHR 0x22 # tok_end k)) st = (Inr False, st')" "failed st st'" .
  with assms(1) f that show thesis by (simp add: decode_string_tok_def bindE_def ret_def)
qed

lemma string_outcome:
  assumes "ready p st"
  shows "outcome (parsed_or_failed (map_option JString (decode_string x)) (jr_left st)) (once (decode_string_value x k) st) st p"
proof (cases "decode_string x")
  case None
  have "safe st" "present (current_node st) (plain (jr_root st))" using assms by (auto simp: ready_def current_node_def)
  from decode_string_failed [OF None this, of k] obtain st' where "decode_string_tok x k st = (Inr None, st')" "failed st st'" .
  with None show ?thesis by (simp add: decode_string_value_def outcomes parsed_or_failed_def bindE_def ret_def)
next
  case (Some s)
  have "plain (string_value s) = tree_of (JString s)" by (simp add: string_value_def)
  from word_outcome [OF assms this] Some show ?thesis
    by (simp add: decode_string_value_def decode_string_tok_def parsed_or_failed_def assign_word_def bindE_def ret_def)
qed

text \<open>The beginning of an array.\<close>

lemma skip_spaces_idem [simp]: "skip_spaces (skip_spaces s) = skip_spaces s"
  by (simp add: skip_spaces_def)

lemma begin_array_ready:
  assumes "ready p st"
  obtains st' where "begin_array st = (Inr (case skip_spaces (jr_left st) of [] \<Rightarrow> False | c # r \<Rightarrow> c = CHR '']''), st')"
    "wrote st p (tree_of (JArray [])) st'" "filling p (tree_of (JArray [])) st'"
    "jr_left st' = (case skip_spaces (jr_left st) of [] \<Rightarrow> [] | c # r \<Rightarrow> if c = CHR '']'' then r else c # r)"
proof -
  have "plain (new_value ArrayValue) = tree_of (JArray [])" by (simp add: new_value_def)
  with assign_ready [OF assms, of "new_value ArrayValue"] obtain st1 where
    st1: "assign_current (new_value ArrayValue) st = (Inr (), st1)" "wrote st p (tree_of (JArray [])) st1"
      "jr_left st1 = jr_left st" "jr_last_value st1 = jr_last_value st" by metis
  let ?st2 = "st1\<lparr>jr_left := skip_spaces (jr_left st)\<rparr>"
  have w2: "wrote st p (tree_of (JArray [])) ?st2" by (rule wrote_touched [OF st1(2)]) simp
  have f2: "filling p (tree_of (JArray [])) ?st2" by (rule ready_filling [OF assms w2]) (simp add: st1(4))
  have begun: "begin_array st = (if skip_spaces (jr_left st) \<noteq> [] \<and> hd (skip_spaces (jr_left st)) = CHR '']''
      then bindE read_tok (\<lambda>_. ret True) ?st2 else (Inr False, ?st2))"
    by (simp add: begin_array_def bindE_def modS_def getS_def ret_def st1(1,3))
  show thesis
  proof (cases "skip_spaces (jr_left st)")
    case Nil
    with begun w2 f2 show thesis by (intro that [of ?st2]) simp_all
  next
    case (Cons c r)
    show thesis
    proof (cases "c = CHR '']''")
      case True
      have "read_token (jr_left ?st2) = (ArrayEnd, r)" using Cons True by simp
      moreover have "safe ?st2" using w2 by (simp add: wrote_def)
      ultimately obtain st3 k where
        "read_tok ?st2 = (Inr k, st3)" "touched ?st2 st3" "jr_left st3 = r" using read_tok_safe by metis
      with begun Cons True w2 f2 show thesis
        by (intro that [of st3]) (auto simp: bindE_def ret_def intro: wrote_touched filling_touched)
    next
      case False
      with begun Cons w2 f2 show thesis by (intro that [of ?st2]) simp_all
    qed
  qed
qed

text \<open>
  One call of each function, when the calls it makes agree. The token that is skipped to and the state
  in front of the value are the same in all cases.
\<close>

lemma value_step:
  assumes ih: "members_refines lf n" "elements_refines lf n" and r: "ready p st" and len: "length (jr_left st) < 2147483647"
  shows "value_outcome (read_value lf (Suc n) (jr_left st)) (run_value lf (Suc n) st) st p"
proof -
  have "safe st" using r by (simp add: ready_def)
  obtain t u where tok: "next_token (jr_left st) = (t, u)" by fastforce
  from skip_comments_safe [OF \<open>safe st\<close> tok] obtain k st1 where
    k: "skip_comments st = (Inr k, st1)" "tok_type k = t" "touched st st1" "jr_left st1 = u" .
  from comment_value_ready [OF ready_touched [OF r k(3)]] obtain st2 where
    c: "comment_value st1 = (Inr (), st2)" "touched st1 st2" "jr_left st2 = u" "ready p st2" using k(4) by metis
  note run = andthen_simps(1) [where m = skip_comments, OF k(1)] andthen_simps(1) [where m = comment_value, OF c(1)] k(2)
  have len_u: "t \<noteq> EndOfStream \<Longrightarrow> length u < 2147483646" using next_token_shorter [OF tok] len by simp
  have bad: "value_outcome Failed (Some (add_error m k None st2)) st2 p" for m
  proof -
    have "safe st2" "present (current_node st2) (plain (jr_root st2))" using c(4) by (auto simp: ready_def current_node_def)
    from add_error_failed [OF this, of m k None] obtain st' where "add_error m k None st2 = (Inr False, st')" "failed st2 st'" .
    then show ?thesis by (simp add: value_outcome_def outcomes)
  qed
  have "value_outcome (read_value lf (Suc n) (jr_left st)) (run_value lf (Suc n) st) st2 p"
  proof (cases t)
    case ObjectBegin
    have "plain (new_value ObjectValue) = tree_of (JObject [])" by (simp add: new_value_def)
    with assign_ready [OF c(4), of "new_value ObjectValue"] obtain st3 where
      st3: "assign_current (new_value ObjectValue) st2 = (Inr (), st3)" "wrote st2 p (tree_of (JObject [])) st3"
        "jr_left st3 = u" "jr_last_value st3 = jr_last_value st2" using c(3) by metis
    have "outcome (read_members lf n [] [] u) (run_members lf n [] st3) st3 p"
      using ih(1) ready_filling [OF c(4) st3(2,4)] len_u ObjectBegin unfolding members_refines_def by (fastforce simp flip: st3(3))
    from value_readI [OF c(4), of _ "andthen (once (assign_current (new_value ObjectValue))) (\<lambda>_. run_members lf n [])" st2]
      outcome_wrote [OF this st3(2)] st3(1)
    show ?thesis by (simp add: run ObjectBegin tok andthen_simps)
  next
    case ArrayBegin
    from begin_array_ready [OF c(4)] obtain st3 where
      st3: "begin_array st2 = (Inr (case skip_spaces u of [] \<Rightarrow> False | c # r \<Rightarrow> c = CHR '']''), st3)"
        "wrote st2 p (tree_of (JArray [])) st3" "filling p (tree_of (JArray [])) st3"
        "jr_left st3 = (case skip_spaces u of [] \<Rightarrow> [] | c # r \<Rightarrow> if c = CHR '']'' then r else c # r)"
      unfolding c(3) by blast
    let ?run = "andthen (once begin_array) (\<lambda>empty. if empty then once (ret True) else run_elements lf n 0)"
    have elems: "outcome (read_elements lf n [] (jr_left st3)) (run_elements lf n 0 st3) st2 p"
      using ih(2) st3(3) len_u ArrayBegin length_skip_spaces [of u] unfolding elements_refines_def
      by (intro outcome_wrote [OF _ st3(2)]) (fastforce simp: st3(4) split: list.splits)
    have "outcome (read_value lf (Suc n) (jr_left st)) (?run st2) st2 p"
      using elems st3 by (cases "skip_spaces u") (auto simp: ArrayBegin tok andthen_simps(1) [where m = begin_array, OF st3(1)] ret_def outcomes)
    from value_readI [where f = ?run and ?st1.0 = st2, OF c(4) this] show ?thesis by (simp add: run ArrayBegin)
  next
    case (NumberToken x)
    from value_readI [where f = "once (decode_number_tok lf x k)" and ?st1.0 = st2, OF c(4) number_outcome [OF c(4)]] show ?thesis by (simp add: run NumberToken tok c(3))
  next
    case (StringToken x)
    from value_readI [where f = "once (decode_string_value x k)" and ?st1.0 = st2, OF c(4) string_outcome [OF c(4)]] show ?thesis by (simp add: run StringToken tok c(3))
  next
    case TrueToken
    from value_readI [where f = "once (assign_word (JV no_comments (HBool True)))" and ?st1.0 = st2, OF c(4) word_outcome [OF c(4), of _ "JBool True"]]
    show ?thesis by (simp add: run TrueToken tok c(3))
  next
    case FalseToken
    from value_readI [where f = "once (assign_word (JV no_comments (HBool False)))" and ?st1.0 = st2, OF c(4) word_outcome [OF c(4), of _ "JBool False"]]
    show ?thesis by (simp add: run FalseToken tok c(3))
  next
    case NullToken
    from value_readI [where f = "once (assign_word null_value)" and ?st1.0 = st2, OF c(4) word_outcome [OF c(4), of _ JNull]]
    show ?thesis by (simp add: run NullToken tok c(3))
  qed (use bad in \<open>simp_all add: run tok\<close>)
  with touched_trans [OF k(3) c(2)] show ?thesis by (rule value_outcome_touched [rotated])
qed

text \<open>An entry of a container: its value is read below it, and what follows goes on in the container.\<close>

definition entry_run :: "(string \<Rightarrow> rat option) \<Rightarrow> nat \<Rightarrow> token \<Rightarrow> bool run \<Rightarrow> bool run" where
  "entry_run lf n e g =
     andthen (run_value lf n) (\<lambda>ok. andthen (once leave_node) (\<lambda>_. if \<not> ok then once (recover_from_error e) else g))"

lemma entry_step:
  assumes ih: "value_refines lf n" and f: "filling p t st" and len: "length (jr_left st) < 2147483647"
    and st1: "ready (p @ [k]) st1" "jr_left st1 = jr_left st"
      "plain (jr_root st1) = change_at p (\<lambda>_. w) (plain (jr_root st))" "jr_nodes st1 = (p @ [k]) # jr_nodes st"
      "jr_errors st1 = jr_errors st"
  shows "read_value lf n (jr_left st) = Out_of_fuel \<Longrightarrow> entry_run lf n e g st1 = None"
    and "read_value lf n (jr_left st) = Failed \<Longrightarrow> \<exists>st'. entry_run lf n e g st1 = Some (Inr False, st') \<and> failed st st'"
    and "read_value lf n (jr_left st) = Parsed v r \<Longrightarrow>
      \<exists>st3. entry_run lf n e g st1 = g st3 \<and> wrote st p (JV (slots w) (put_entry k (tree_of v) (held w))) st3 \<and>
        filling p (JV (slots w) (put_entry k (tree_of v) (held w))) st3 \<and> jr_left st3 = r"
proof -
  have out: "value_outcome (read_value lf n (jr_left st)) (run_value lf n st1) st1 (p @ [k])"
    using ih st1(1,2) len unfolding value_refines_def by metis
  show "entry_run lf n e g st1 = None" if "read_value lf n (jr_left st) = Out_of_fuel"
    using out that by (simp add: entry_run_def value_outcome_def outcomes andthen_simps)
  show "\<exists>st'. entry_run lf n e g st1 = Some (Inr False, st') \<and> failed st st'" if "read_value lf n (jr_left st) = Failed"
  proof -
    from out that obtain st2 where st2: "run_value lf n st1 = Some (Inr False, st2)" "failed st1 st2"
      by (auto simp: value_outcome_def outcomes)
    from leave_failed [OF f st1(4) st2(2)] obtain st3 where st3: "leave_node st2 = (Inr (), st3)" "failed st st3" .
    from recover_failed [OF st3(2), of e] obtain st' where "recover_from_error e st3 = (Inr False, st')" "failed st st'" .
    then show ?thesis
      by (simp add: entry_run_def andthen_simps(3) [where f = "run_value lf n", OF st2(1)]
          andthen_simps(1) [where m = leave_node, OF st3(1)])
  qed
  show "\<exists>st3. entry_run lf n e g st1 = g st3 \<and> wrote st p (JV (slots w) (put_entry k (tree_of v) (held w))) st3 \<and>
      filling p (JV (slots w) (put_entry k (tree_of v) (held w))) st3 \<and> jr_left st3 = r"
    if "read_value lf n (jr_left st) = Parsed v r"
  proof -
    from out that obtain st2 where st2: "run_value lf n st1 = Some (Inr True, st2)" "wrote st1 (p @ [k]) (tree_of v) st2"
      "jr_left st2 = r" "jr_last_value st2 = None \<or> jr_last_value st2 = Some (p @ [k])"
      by (auto simp: value_outcome_def outcomes)
    from leave_filling [OF f st1(3-5) st2(2,4)] obtain st3 where
      "leave_node st2 = (Inr (), st3)" "wrote st p (JV (slots w) (put_entry k (tree_of v) (held w))) st3"
      "filling p (JV (slots w) (put_entry k (tree_of v) (held w))) st3" "jr_left st3 = jr_left st2" .
    with st2(3) show ?thesis
      by (auto simp: entry_run_def andthen_simps(3) [where f = "run_value lf n", OF st2(1)] andthen_simps(1) [where m = leave_node])
  qed
qed

lemma filling_safe: "filling p t st \<Longrightarrow> safe st"
  by (simp add: filling_def)

lemma elements_step:
  assumes ih: "value_refines lf n" "elements_refines lf n" and f: "filling p (tree_of (JArray xs)) st"
    and len: "length xs + length (jr_left st) < 2147483647"
  shows "outcome (read_elements lf (Suc n) xs (jr_left st)) (run_elements lf (Suc n) (of_nat (length xs)) st) st p"
proof -
  have "length xs < 2147483647" "length (jr_left st) < 2147483647" using len by simp_all
  from enter_array [OF f this(1)] obtain st1 k w where
    en: "enter_index (of_nat (length xs)) st = (Inr (), st1)" and
    st1: "ready (p @ [k]) st1" "jr_left st1 = jr_left st"
      "plain (jr_root st1) = change_at p (\<lambda>_. w) (plain (jr_root st))" "jr_nodes st1 = (p @ [k]) # jr_nodes st"
      "jr_errors st1 = jr_errors st" and
    w: "\<forall>v. JV (slots w) (put_entry k (tree_of v) (held w)) = tree_of (JArray (xs @ [v]))" .
  note step = entry_step [OF ih(1) f \<open>length (jr_left st) < 2147483647\<close> st1]
  let ?g = "andthen (once read_tok) (\<lambda>k. case tok_type k of
           ArraySeparator \<Rightarrow> run_elements lf n (of_nat (length xs) + 1)
         | ArrayEnd \<Rightarrow> once (ret True)
         | _ \<Rightarrow> once (add_error_and_recover
             (''Missing '' @ [CHR 0x27, CHR '','', CHR 0x27] @ '' or '' @ [CHR 0x27, CHR '']'', CHR 0x27] @ '' in array declaration'') k ArrayEnd))"
  have run: "run_elements lf (Suc n) (of_nat (length xs)) st = entry_run lf n ArrayEnd ?g st1"
    by (simp only: run_elements.simps entry_run_def andthen_simps(1) [where m = "enter_index (of_nat (length xs))", OF en])
  show ?thesis
  proof (cases "read_value lf n (jr_left st)")
    case (Parsed v r)
    obtain t u where tok: "read_token r = (t, u)" by fastforce
    have "length r < length (jr_left st)" using read_shorter [of lf n] Parsed by blast
    then have len_u: "t \<noteq> EndOfStream \<Longrightarrow> length (xs @ [v]) + length u < 2147483647"
      using read_token_shorter [OF tok] len by simp
    from step(3) [OF Parsed, of ArrayEnd ?g, unfolded w [rule_format]] obtain st3 where st3: "entry_run lf n ArrayEnd ?g st1 = ?g st3"
      "wrote st p (tree_of (JArray (xs @ [v]))) st3" "filling p (tree_of (JArray (xs @ [v]))) st3" "jr_left st3 = r"
      by blast
    from read_tok_safe [OF filling_safe [OF st3(3)] tok [folded st3(4)]] obtain k st4 where
      k: "read_tok st3 = (Inr k, st4)" "tok_type k = t" "touched st3 st4" "jr_left st4 = u" by (metis json_token.select_convs(1))
    note run2 = run st3(1) andthen_simps(1) [where m = read_tok, OF k(1)] k(2)
    have w4: "wrote st p (tree_of (JArray (xs @ [v]))) st4" by (rule wrote_touched [OF st3(2) k(3)])
    have f4: "filling p (tree_of (JArray (xs @ [v]))) st4" by (rule filling_touched [OF st3(3) k(3)])
    have bad: "outcome Failed (Some (add_error_and_recover m k e st4)) st p" for m e
    proof -
      from filling_error [OF f4] obtain st' where "add_error_and_recover m k e st4 = (Inr False, st')" "failed st4 st'" .
      with wrote_failed [OF w4] show ?thesis by (simp add: outcomes)
    qed
    show ?thesis
    proof (cases t)
      case ArraySeparator
      have "outcome (read_elements lf n (xs @ [v]) (jr_left st4)) (run_elements lf n (of_nat (length (xs @ [v]))) st4) st4 p"
        using ih(2) f4 len_u ArraySeparator unfolding elements_refines_def k(4) [symmetric] by blast
      from outcome_wrote [OF this w4] show ?thesis by (simp add: run2 ArraySeparator Parsed tok k(4) add.commute del: tree_of.simps run_elements.simps)
    next
      case ArrayEnd
      with w4 show ?thesis by (simp add: run2 Parsed tok outcomes ret_def k(4) del: tree_of.simps run_elements.simps)
    qed (use bad in \<open>simp_all add: run2 Parsed tok del: run_elements.simps\<close>)
  next
    case Failed
    with step(2) [OF Failed] show ?thesis by (simp add: run outcomes del: run_elements.simps)
  next
    case Out_of_fuel
    with step(1) [OF Out_of_fuel] show ?thesis by (simp add: run outcomes del: run_elements.simps)
  qed
qed

text \<open>A member whose name was decoded.\<close>

definition member_run :: "(string \<Rightarrow> rat option) \<Rightarrow> nat \<Rightarrow> string \<Rightarrow> bool run" where
  "member_run lf n nm =
     andthen (once read_tok) (\<lambda>colon.
     if tok_type colon \<noteq> MemberSeparator then
       once (add_error_and_recover (''Missing '' @ [CHR 0x27, CHR '':'', CHR 0x27] @ '' after object member name'') colon ObjectEnd)
     else
       andthen (once (enter_member nm)) (\<lambda>_.
       entry_run lf n ObjectEnd
         (andthen (once read_tok) (\<lambda>comma.
          case tok_type comma of
            ObjectEnd \<Rightarrow> once (ret True)
          | ArraySeparator \<Rightarrow> run_members lf n nm
          | _ \<Rightarrow> once (add_error_and_recover
              (''Missing '' @ [CHR 0x27, CHR '','', CHR 0x27] @ '' or '' @ [CHR 0x27, CHR ''}'', CHR 0x27] @ '' in object declaration'')
              comma ObjectEnd)))))"

definition member_result :: "(string \<Rightarrow> rat option) \<Rightarrow> nat \<Rightarrow> string \<Rightarrow> (string, json) smap \<Rightarrow> string \<Rightarrow> json read_result" where
  "member_result lf n nm ms r =
     (case read_token r of
        (MemberSeparator, r1) \<Rightarrow>
          (case read_value lf n r1 of
             Parsed v r2 \<Rightarrow>
               (case read_token r2 of
                  (ObjectEnd, r3) \<Rightarrow> Parsed (JObject (map_set (c_str nm) v ms)) r3
                | (ArraySeparator, r3) \<Rightarrow> read_members lf n nm (map_set (c_str nm) v ms) r3
                | _ \<Rightarrow> Failed)
           | Failed \<Rightarrow> Failed
           | Out_of_fuel \<Rightarrow> Out_of_fuel)
      | _ \<Rightarrow> Failed)"

lemma filling_failed:
  assumes "filling p t st"
  shows "outcome Failed (Some (add_error_and_recover m k e st)) st p"
proof -
  from filling_error [OF assms] obtain st' where "add_error_and_recover m k e st = (Inr False, st')" "failed st st'" .
  then show ?thesis by (simp add: outcomes)
qed

lemma member_step:
  assumes ih: "value_refines lf n" "members_refines lf n" and f: "filling p (tree_of (JObject ms)) st"
    and ok: "map_ok ms" and len: "length (jr_left st) < 2147483647"
  shows "outcome (member_result lf n nm ms (jr_left st)) (member_run lf n nm st) st p"
proof -
  obtain t1 r1 where tok1: "read_token (jr_left st) = (t1, r1)" by fastforce
  from read_tok_safe [OF filling_safe [OF f] tok1] obtain k1 st1 where
    k1: "read_tok st = (Inr k1, st1)" "tok_type k1 = t1" "touched st st1" "jr_left st1 = r1" by (metis json_token.select_convs(1))
  have f1: "filling p (tree_of (JObject ms)) st1" by (rule filling_touched [OF f k1(3)])
  show ?thesis
  proof (cases "t1 = MemberSeparator")
    case False
    with tok1 have "member_result lf n nm ms (jr_left st) = Failed" by (cases t1) (simp_all add: member_result_def)
    moreover have "member_run lf n nm st = Some (add_error_and_recover
        (''Missing '' @ [CHR 0x27, CHR '':'', CHR 0x27] @ '' after object member name'') k1 ObjectEnd st1)"
      using False k1(2) by (simp add: member_run_def andthen_simps(1) [where m = read_tok, OF k1(1)])
    ultimately show ?thesis using outcome_touched [OF filling_failed [OF f1] k1(3)] by simp
  next
    case True
    with tok1 read_token_shorter have len1: "length (jr_left st1) < 2147483647" using len by (fastforce simp: k1(4))
    from enter_object [OF f1 ok, of nm] obtain st2 w where
      en: "enter_member nm st1 = (Inr (), st2)" and
      st2: "ready (p @ [Name (c_str nm)]) st2" "jr_left st2 = jr_left st1"
        "plain (jr_root st2) = change_at p (\<lambda>_. w) (plain (jr_root st1))" "jr_nodes st2 = (p @ [Name (c_str nm)]) # jr_nodes st1"
        "jr_errors st2 = jr_errors st1" and
      w: "\<forall>v. JV (slots w) (put_entry (Name (c_str nm)) (tree_of v) (held w)) = tree_of (JObject (map_set (c_str nm) v ms))" .
    note step = entry_step [OF ih(1) f1 len1 st2]
    let ?g = "andthen (once read_tok) (\<lambda>comma.
          case tok_type comma of
            ObjectEnd \<Rightarrow> once (ret True)
          | ArraySeparator \<Rightarrow> run_members lf n nm
          | _ \<Rightarrow> once (add_error_and_recover
              (''Missing '' @ [CHR 0x27, CHR '','', CHR 0x27] @ '' or '' @ [CHR 0x27, CHR ''}'', CHR 0x27] @ '' in object declaration'')
              comma ObjectEnd))"
    have run: "member_run lf n nm st = entry_run lf n ObjectEnd ?g st2"
      using True k1(2)
      by (simp add: member_run_def andthen_simps(1) [where m = read_tok, OF k1(1)] andthen_simps(1) [where m = "enter_member nm", OF en])
    have res: "member_result lf n nm ms (jr_left st) =
        (case read_value lf n (jr_left st1) of
             Parsed v r2 \<Rightarrow>
               (case read_token r2 of
                  (ObjectEnd, r3) \<Rightarrow> Parsed (JObject (map_set (c_str nm) v ms)) r3
                | (ArraySeparator, r3) \<Rightarrow> read_members lf n nm (map_set (c_str nm) v ms) r3
                | _ \<Rightarrow> Failed)
           | Failed \<Rightarrow> Failed
           | Out_of_fuel \<Rightarrow> Out_of_fuel)"
      by (simp add: member_result_def tok1 True k1(4))
    have "outcome (member_result lf n nm ms (jr_left st)) (member_run lf n nm st) st1 p"
    proof (cases "read_value lf n (jr_left st1)")
      case (Parsed v r)
      let ?ms = "map_set (c_str nm) v ms"
      obtain t u where tok: "read_token r = (t, u)" by fastforce
      have "length r < length (jr_left st1)" using read_shorter [of lf n] Parsed by blast
      then have len_u: "t \<noteq> EndOfStream \<Longrightarrow> length u < 2147483647" using read_token_shorter [OF tok] len1 by simp
      from step(3) [OF Parsed, of ObjectEnd ?g, unfolded w [rule_format]] obtain st3 where
        st3: "entry_run lf n ObjectEnd ?g st2 = ?g st3" "wrote st1 p (tree_of (JObject ?ms)) st3"
          "filling p (tree_of (JObject ?ms)) st3" "jr_left st3 = r" by blast
      from read_tok_safe [OF filling_safe [OF st3(3)] tok [folded st3(4)]] obtain k st4 where
        k: "read_tok st3 = (Inr k, st4)" "tok_type k = t" "touched st3 st4" "jr_left st4 = u" by (metis json_token.select_convs(1))
      note run2 = run st3(1) andthen_simps(1) [where m = read_tok, OF k(1)] k(2) res Parsed tok
      have w4: "wrote st1 p (tree_of (JObject ?ms)) st4" by (rule wrote_touched [OF st3(2) k(3)])
      have f4: "filling p (tree_of (JObject ?ms)) st4" by (rule filling_touched [OF st3(3) k(3)])
      have bad: "outcome Failed (Some (add_error_and_recover m k e st4)) st1 p" for m e
        by (rule outcome_wrote [OF filling_failed [OF f4] w4])
      show ?thesis
      proof (cases t)
        case ArraySeparator
        have "outcome (read_members lf n nm ?ms (jr_left st4)) (run_members lf n nm st4) st4 p"
          using ih(2) f4 map_ok_set [OF ok] len_u ArraySeparator unfolding members_refines_def k(4) [symmetric] by blast
        from outcome_wrote [OF this w4] show ?thesis by (simp add: run2 ArraySeparator k(4))
      next
        case ObjectEnd
        with w4 show ?thesis by (simp add: run2 outcomes ret_def k(4) del: tree_of.simps)
      qed (use bad in \<open>simp_all add: run2\<close>)
    next
      case Failed
      with step(2) [OF Failed] show ?thesis by (simp add: run res outcomes)
    next
      case Out_of_fuel
      with step(1) [OF Out_of_fuel] show ?thesis by (simp add: run res outcomes)
    qed
    from outcome_touched [OF this k1(3)] show ?thesis .
  qed
qed

lemma members_step:
  assumes ih: "value_refines lf n" "members_refines lf n" and f: "filling p (tree_of (JObject ms)) st"
    and ok: "map_ok ms" and len: "length (jr_left st) < 2147483647"
  shows "outcome (read_members lf (Suc n) name ms (jr_left st)) (run_members lf (Suc n) name st) st p"
proof -
  obtain t u where tok: "next_token (jr_left st) = (t, u)" by fastforce
  from skip_comments_safe [OF filling_safe [OF f] tok] obtain k st1 where
    k: "skip_comments st = (Inr k, st1)" "tok_type k = t" "touched st st1" "jr_left st1 = u" .
  have f1: "filling p (tree_of (JObject ms)) st1" by (rule filling_touched [OF f k(3)])
  have w1: "wrote st p (tree_of (JObject ms)) st1"
  proof -
    have "change_at p (\<lambda>_. node_at p (plain (jr_root st))) (plain (jr_root st)) = change_at p (\<lambda>x. x) (plain (jr_root st))"
      by (rule change_cong) simp
    then show ?thesis using f f1 k(3) change_id [of p "plain (jr_root st)"] by (auto simp: wrote_def touched_def filling_def)
  qed
  note run = andthen_simps(1) [where m = skip_comments, OF k(1)] k(2) tok
  have bad: "outcome Failed (Some (add_error_and_recover m k e st1)) st p" for m e
    by (rule outcome_touched [OF filling_failed [OF f1] k(3)])
  show ?thesis
  proof (cases t)
    case (StringToken x)
    have len1: "length (jr_left st1) < 2147483647" using next_token_shorter [OF tok] StringToken len by (simp add: k(4))
    show ?thesis
    proof (cases "decode_string x")
      case None
      have "safe st1" "present (current_node st1) (plain (jr_root st1))" using f1 by (auto simp: filling_def current_node_def)
      from decode_string_failed [OF None this, of k] obtain st2 where
        st2: "decode_string_tok x k st1 = (Inr None, st2)" "failed st1 st2" .
      from recover_failed [OF st2(2), of ObjectEnd] obtain st3 where
        "recover_from_error ObjectEnd st2 = (Inr False, st3)" "failed st1 st3" .
      with failed_touched [OF k(3)] show ?thesis
        by (simp add: run StringToken None andthen_simps(1) [where m = "decode_string_tok x k", OF st2(1)] outcomes)
    next
      case (Some nm)
      have d: "decode_string_tok x k st1 = (Inr (Some nm), st1)" by (simp add: decode_string_tok_def Some ret_def)
      from outcome_touched [OF member_step [OF ih f1 ok len1, of nm] k(3)] show ?thesis
        unfolding member_run_def entry_run_def member_result_def k(4)
        by (simp add: run StringToken Some andthen_simps(1) [where m = "decode_string_tok x k", OF d] del: tree_of.simps)
    qed
  next
    case ObjectEnd
    with bad w1 k(4) show ?thesis by (simp add: run outcomes ret_def del: tree_of.simps)
  qed (use bad in \<open>simp_all add: run\<close>)
qed

lemma reader_refines: "value_refines lf n \<and> members_refines lf n \<and> elements_refines lf n"
proof (induction n)
  case 0
  show ?case by (simp add: value_refines_def members_refines_def elements_refines_def value_outcome_def outcomes)
next
  case (Suc n)
  then show ?case
    using value_step [of lf n] members_step [of lf n] elements_step [of lf n]
    unfolding value_refines_def [of _ "Suc n"] members_refines_def [of _ "Suc n"] elements_refines_def [of _ "Suc n"]
    by blast
qed

text \<open>Strings are cut at their first NUL byte when they are assigned.\<close>

fun cut :: "json \<Rightarrow> json" where
  "cut (JString s) = JString (c_str s)"
| "cut (JArray xs) = JArray (map cut xs)"
| "cut (JObject ms) = JObject (map (\<lambda>(n, x). (n, cut x)) ms)"
| "cut v = v"

lemma map_find_indexed: "j < length xs \<Longrightarrow> map_find (indexed i xs) (Index (int (i + j))) = Some (xs ! j)"
proof (induction xs arbitrary: i j)
  case (Cons x xs)
  show ?case
  proof (cases j)
    case (Suc m)
    with Cons.IH [of m "Suc i"] Cons.prems show ?thesis by (simp add: map_find_def)
  qed (simp add: map_find_def)
qed simp

lemma last_indexed: "last_index (indexed i xs) = (if xs = [] then - 1 else int (i + length xs) - 1)"
  by (cases xs rule: rev_cases) (simp_all add: indexed_append last_index_def)

lemma listed_indexed: "listed (indexed 0 xs) = xs"
proof (rule nth_equalityI)
  show "length (listed (indexed 0 xs)) = length xs" by (simp add: length_listed last_indexed)
  fix j assume j: "j < length (listed (indexed 0 xs))"
  then have "j < length xs" by (simp add: length_listed last_indexed split: if_splits)
  with map_find_indexed [of j xs 0] show "listed (indexed 0 xs) ! j = xs ! j" by (simp add: nth_listed [OF j])
qed

lemma map_indexed: "map (map_prod id f) (indexed i xs) = indexed i (map f xs)"
  by (induction xs arbitrary: i) simp_all

lemma view_tree: "view (tree_of v) = cut v"
proof (induction v rule: tree_of.induct)
  case (7 xs)
  then show ?case by (simp add: map_indexed listed_indexed cong: map_cong)
next
  case (8 ms)
  then show ?case by (auto simp: comp_def split_def)
qed (simp_all add: string_value_def)

lemma view_plain [simp]: "view (plain v) = view v"
proof (induction v)
  case (JV c h)
  then show ?case by (cases h) (auto simp: comp_def intro!: arg_cong [of _ _ listed], force+)
qed

lemma view_set_comment [simp]: "view (set_comment t p v) = view v"
  by (metis view_plain plain_set_comment)

section \<open>The whole document\<close>

lemma start_ready: "ready [] (start_reader c doc rv)"
  by (simp add: ready_def start_reader_def safe_def)

text \<open>
  C18: the reader refines the function from texts to values that the rest of the program is verified
  with, whether it collects comments or not and whatever the value it is given held before: it never
  follows a pointer that does not point to a value, ends, answers true exactly on the documents the
  function reads, and then without an error, with the value of the function in the tree; and when it answers
  false it has an error to report.
\<close>

theorem reader_refines_json:
  assumes "length doc < 2147483647"
  shows "\<exists>st. reader_parse lf c doc rv = Some (Inr (json_parse lf doc \<noteq> None), st) \<and>
    (jr_errors st = [] \<longleftrightarrow> json_parse lf doc \<noteq> None) \<and>
    (\<forall>v. json_parse lf doc = Some v \<longrightarrow> view (jr_root st) = cut v)"
proof -
  let ?st = "start_reader c doc rv"
  define n where "n = 2 * length doc + 1"
  have doc: "jr_left ?st = doc" by (simp add: start_reader_def)
  have json: "json_parse lf doc = (case read_value lf n doc of Parsed v r \<Rightarrow> Some v | _ \<Rightarrow> None)"
    by (simp only: json_parse_def n_def)
  have "value_refines lf n" using reader_refines by blast
  then have out: "outcome (read_value lf n doc) (run_value lf n ?st) ?st []"
    using start_ready [of c doc rv] assms doc unfolding value_refines_def value_outcome_def by metis
  have ending: "\<exists>st. reader_parse lf c doc rv = Some (Inr ok, st) \<and> jr_errors st = jr_errors st1 \<and> view (jr_root st) = view (jr_root st1)"
    if st1: "run_value lf n ?st = Some (Inr ok, st1)" "safe st1" for ok st1
  proof -
    obtain t u where "next_token (jr_left st1) = (t, u)" by fastforce
    from skip_comments_safe [OF st1(2) this] obtain k st2 where st2: "skip_comments st1 = (Inr k, st2)" "touched st1 st2" .
    have "view (jr_root st2) = view (jr_root st1)" using st2(2) view_plain [of "jr_root st2"] by (simp add: touched_def)
    moreover have "reader_parse lf c doc rv = Some (Inr ok, snd (comment_root st2))"
      by (simp only: reader_parse_def n_def [symmetric] andthen_simps(3) [where f = "run_value lf n", OF st1(1)]
          andthen_simps(1) [where m = skip_comments, OF st2(1)]) (simp add: andthen_def comment_root_def modS_def ret_def)
    ultimately show ?thesis using st2(2) by (simp add: comment_root_def modS_def touched_def)
  qed
  have "read_value lf n doc \<noteq> Out_of_fuel" using fuel_enough [of n lf] by (simp add: n_def)
  then show ?thesis
  proof (cases "read_value lf n doc")
    case (Parsed v r)
    with out obtain st1 where st1: "run_value lf n ?st = Some (Inr True, st1)" "wrote ?st [] (tree_of v) st1"
      by (auto simp: outcomes)
    have "safe st1" "jr_errors st1 = []" "plain (jr_root st1) = tree_of v"
      using st1(2) by (simp_all add: wrote_def start_reader_def)
    with ending [OF st1(1)] view_tree [of v] view_plain [of "jr_root st1"] Parsed show ?thesis by (auto simp: json)
  next
    case Failed
    with out obtain st1 where st1: "run_value lf n ?st = Some (Inr False, st1)" "failed ?st st1" by (auto simp: outcomes)
    with ending [OF st1(1)] Failed show ?thesis by (auto simp: json failed_def)
  qed simp
qed

theorem reader_refines_json_witness:
  "\<exists>st. reader_parse (\<lambda>_. None) True ''[1] // x'' null_value = Some (Inr True, st) \<and> jr_errors st = [] \<and>
     view (jr_root st) = JArray [JInt 1]"
proof -
  have "json_parse (\<lambda>_. None) ''[1] // x'' = Some (JArray [JInt 1])" by code_simp
  with reader_refines_json [of "''[1] // x''" "\<lambda>_. None" True null_value] show ?thesis by auto
qed

text \<open>
  Where comments go, and what happens to them: one before a value is kept with it, one behind a value
  on the same line replaces the one that value had, and one at the end of the document belongs to
  the root. In front of a comma, a closing bracket or a colon a comment is a syntax error.
\<close>

definition comments_of :: "string \<Rightarrow> (string option \<times> string option \<times> string option) list" where
  "comments_of doc =
     (case reader_parse (\<lambda>_. None) True doc null_value of
        Some (Inr ok, st) \<Rightarrow>
          map (\<lambda>v. (comment_before (slots v), comment_same_line (slots v), comment_after (slots v)))
            (jr_root st # (case held (jr_root st) of HArray xs \<Rightarrow> map snd xs | _ \<Rightarrow> []))
      | _ \<Rightarrow> [])"

lemma comments_are_placed:
  "comments_of (''/*a*/ [1, // b'' @ CHR 0x0A # ''/*c*/ 2] // d'' @ CHR 0x0A # ''/*e*/'') =
     [(Some ''/*a*/'', Some (''// d'' @ [CHR 0x0A]), Some ''/*e*/''), (None, Some (''// b'' @ [CHR 0x0A]), None), (Some ''/*c*/'', None, None)]"
  "comments_of ''[1, /*a*/ /*b*/ 2]'' = [(None, None, None), (None, Some ''/*b*/'', None), (None, None, None)]"
  by code_simp+

end
