(* ===== verification/Json_Places.thy ===== *)
theory Json_Places
  imports Json_Reader "HOL-Library.Sublist"
begin

text \<open>
  The places in the reports of \<open>Json_Reader\<close>: that they are places of tokens is an invariant of every
  run (\<open>holds\<close>), and the loop that counts lines agrees with the lines of the text.
\<close>

section \<open>Lines and columns\<close>

text \<open>The lines of a text, with the three ends a line can have.\<close>

fun text_lines :: "string \<Rightarrow> string list" where
  "text_lines [] = [[]]"
| "text_lines (c # s) =
     (if c = CHR 0x0D then
        (case s of
           d # t \<Rightarrow> if d = CHR 0x0A then [] # text_lines t else [] # text_lines s
         | [] \<Rightarrow> [[], []])
      else if c = CHR 0x0A then [] # text_lines s
      else (case text_lines s of l # ls \<Rightarrow> (c # l) # ls | [] \<Rightarrow> [[c]]))"

declare text_lines.simps(2) [simp del]

lemma text_lines_cases [case_names Return_feed Return_end Return Feed Other]:
  obtains t where "c = CHR 0x0D" "s = CHR 0x0A # t" "text_lines (c # s) = [] # text_lines t"
  | "c = CHR 0x0D" "s = []" "text_lines (c # s) = [[], []]"
  | d t where "c = CHR 0x0D" "s = d # t" "d \<noteq> CHR 0x0A" "text_lines (c # s) = [] # text_lines s"
  | "c = CHR 0x0A" "text_lines (c # s) = [] # text_lines s"
  | "c \<noteq> CHR 0x0D" "c \<noteq> CHR 0x0A" "text_lines (c # s) = (case text_lines s of l # ls \<Rightarrow> (c # l) # ls | [] \<Rightarrow> [[c]])"
  by (cases "c = CHR 0x0D"; cases "c = CHR 0x0A"; cases s) (auto simp: text_lines.simps(2) split: if_splits)

lemma text_lines_nonempty [simp]: "text_lines s \<noteq> []"
proof (cases s)
  case (Cons c t)
  then show ?thesis by (cases c t rule: text_lines_cases) (auto split: list.split)
qed simp

lemma one_line: "length (text_lines s) = Suc 0 \<Longrightarrow> text_lines s = [s]"
proof (induction s)
  case (Cons c s)
  show ?case
    by (cases c s rule: text_lines_cases) (use Cons in \<open>auto split: list.splits\<close>)
qed simp

lemma last_line_length: "length (last (text_lines s)) \<le> length s"
proof (induction s rule: text_lines.induct)
  case (2 c s)
  show ?case
  proof (cases c s rule: text_lines_cases)
    case (Return_feed t)
    with 2(1) [OF Return_feed(1,2) refl] show ?thesis by simp
  next
    case (Return d t)
    with 2(2) [OF Return(1,2,3)] show ?thesis by simp
  next
    case Feed
    with 2(3) show ?thesis by simp
  next
    case Other
    with 2(4) show ?thesis by (cases "text_lines s") (auto split: if_splits)
  qed simp
qed simp

definition splits_line_end :: "string \<Rightarrow> string \<Rightarrow> bool" where
  "splits_line_end s r = (s \<noteq> [] \<and> last s = CHR 0x0D \<and> r \<noteq> [] \<and> hd r = CHR 0x0A)"

lemma line_loop_lines:
  "\<not> splits_line_end s r \<Longrightarrow> line_loop (s @ r) i (i + length s) start n =
     (if length (text_lines s) = Suc 0 then start else i + length s - length (last (text_lines s)), n + length (text_lines s) - 1)"
proof (induction s arbitrary: i start n rule: text_lines.induct)
  case 1
  show ?case by (cases r) simp_all
next
  case (2 c s)
  have tail: "\<not> splits_line_end s r" if "s \<noteq> []" using 2(5) that by (auto simp: splits_line_end_def)
  note facts = last_line_length [of s] one_line [of s] text_lines_nonempty [of s]
  show ?case
  proof (cases c s rule: text_lines_cases)
    case (Return_feed t)
    have "\<not> splits_line_end t r" using 2(5) Return_feed by (auto simp: splits_line_end_def)
    from 2(1) [OF Return_feed(1,2) refl this, of "i + 2" "i + 2" "Suc n"] Return_feed last_line_length [of t] one_line [of t]
    show ?thesis by (cases "text_lines t") (auto simp: ac_simps)
  next
    case Return_end
    with 2(5) show ?thesis by (cases r) (auto simp: splits_line_end_def split: list.split)
  next
    case (Return d t)
    from 2(2) [OF Return(1,2,3) tail, of "i + 1" "i + 1" "Suc n"] Return facts
    show ?thesis by (cases "text_lines s") (auto simp: ac_simps)
  next
    case Feed
    have "\<not> splits_line_end s r" using tail by (cases s) (auto simp: splits_line_end_def)
    from 2(3) [OF _ Feed(1) this, of "i + 1" "i + 1" "Suc n"] Feed facts
    show ?thesis by (cases "text_lines s") (auto simp: ac_simps)
  next
    case Other
    have "\<not> splits_line_end s r" using tail by (cases s) (auto simp: splits_line_end_def)
    from 2(4) [OF Other(1,2) this, of "i + 1" start n] Other facts
    show ?thesis by (cases "text_lines s") (auto simp: ac_simps split: if_splits)
  qed
qed

text \<open>What is left after a token is an end of what there was.\<close>

lemma suffix_skip: "suffix (skip_spaces s) s"
  by (simp add: skip_spaces_def suffix_dropWhile)

lemma suffix_string: "read_string s = Some (x, r) \<Longrightarrow> suffix r s"
proof (induction s arbitrary: x r rule: read_string.induct)
  case (2 c s)
  show ?case
  proof (cases "c = CHR 0x5C")
    case True
    with 2(3) obtain d t y where s: "s = d # t" "read_string t = Some (y, r)" by (auto split: list.splits)
    from 2(1) [OF True s] show ?thesis by (simp add: s(1) suffix_ConsI)
  next
    case no: False
    show ?thesis
    proof (cases "c = CHR 0x22")
      case True
      with 2(3) no show ?thesis by (simp add: suffix_ConsI)
    next
      case False
      with 2(3) no obtain y where "read_string s = Some (y, r)" by auto
      from 2(2) [OF no False this] show ?thesis by (rule suffix_ConsI)
    qed
  qed
qed simp

lemma suffix_c_comment: "suffix (snd (c_comment s)) s"
  by (induction s rule: c_comment.induct) (auto intro: suffix_ConsI)

lemma suffix_cpp_comment: "suffix (cpp_comment s) s"
  by (induction s) (auto intro: suffix_ConsI)

lemma suffix_comment: "suffix (snd (read_comment s)) s"
  using suffix_c_comment suffix_cpp_comment by (cases s) (auto simp: read_comment_def split_def Let_def intro!: suffix_ConsI)

lemma suffix_word: "suffix (snd (match_word p t s)) s"
  by (simp add: match_word_def suffix_drop)

lemma suffix_if: "suffix (snd x) s \<Longrightarrow> suffix (snd y) s \<Longrightarrow> suffix (snd (if b then x else y)) s"
  by simp

lemma suffix_token: "suffix (snd (read_token s)) s"
proof (cases "skip_spaces s")
  case (Cons c u)
  have quote: "suffix (snd (case read_string u of None \<Rightarrow> (ErrorToken, []) | Some (x, r) \<Rightarrow> (StringToken x, r))) u"
    using suffix_string [of u] by (auto split: option.split)
  have "suffix (snd (read_token s)) u"
    unfolding read_token_def Cons list.case
    by (intro suffix_if quote suffix_comment suffix_word) (simp_all add: suffix_dropWhile)
  with suffix_skip [of s] Cons show ?thesis by (metis suffix_ConsD suffix_order.trans)
qed (simp add: read_token_def)

text \<open>Every place of an error is the start of a token of the document.\<close>

definition token_place :: "string \<Rightarrow> string \<Rightarrow> bool" where
  "token_place doc r = (suffix r doc \<and> skip_spaces r = r)"

definition places_ok :: "string \<Rightarrow> jreader \<Rightarrow> bool" where
  "places_ok doc st = (suffix (jr_left st) doc \<and> (\<forall>e \<in> set (jr_errors st). token_place doc (tok_start (err_token e))))"

definition holds :: "string \<Rightarrow> 'a run \<Rightarrow> ('a \<Rightarrow> bool) \<Rightarrow> bool" where
  "holds doc m P =
     (\<forall>st r st'. places_ok doc st \<longrightarrow> m st = Some (r, st') \<longrightarrow> places_ok doc st' \<and> (\<forall>x. r = Inr x \<longrightarrow> P x))"

lemma holdsI: "(\<And>st r st'. places_ok doc st \<Longrightarrow> m st = Some (r, st') \<Longrightarrow> places_ok doc st' \<and> (\<forall>x. r = Inr x \<longrightarrow> P x)) \<Longrightarrow> holds doc m P"
  by (simp add: holds_def)

lemma holdsD: "holds doc m P \<Longrightarrow> places_ok doc st \<Longrightarrow> m st = Some (r, st') \<Longrightarrow> places_ok doc st' \<and> (\<forall>x. r = Inr x \<longrightarrow> P x)"
  unfolding holds_def by blast

lemma holds_andthen:
  assumes m: "holds doc m P" and k: "\<And>x. P x \<Longrightarrow> holds doc (k x) Q"
  shows "holds doc (andthen m k) Q"
proof (rule holdsI)
  fix st r st' assume st: "places_ok doc st" and run: "andthen m k st = Some (r, st')"
  then obtain a s1 where a: "m st = Some (a, s1)" by (auto simp: andthen_def split: option.splits)
  with holdsD [OF m st] have s1: "places_ok doc s1" "\<forall>x. a = Inr x \<longrightarrow> P x" by blast+
  show "places_ok doc st' \<and> (\<forall>x. r = Inr x \<longrightarrow> Q x)"
  proof (cases a)
    case (Inl e)
    with run a s1 show ?thesis by (auto simp: andthen_def)
  next
    case (Inr x)
    with run a have "k x s1 = Some (r, st')" by (simp add: andthen_def)
    with holdsD [OF k s1(1)] s1(2) Inr show ?thesis by blast
  qed
qed

lemma once_bind: "once (bindE m k) = andthen (once m) (\<lambda>x. once (k x))"
  by (rule ext) (simp add: once_def andthen_def bindE_def split: prod.split sum.split)

lemma holds_weaken: "holds doc m P \<Longrightarrow> (\<And>x. P x \<Longrightarrow> Q x) \<Longrightarrow> holds doc m Q"
  unfolding holds_def by blast

text \<open>Effects that change neither the text nor the errors.\<close>

definition quiet :: "(jreader, 'a) eff \<Rightarrow> bool" where
  "quiet m = (\<forall>st. jr_left (snd (m st)) = jr_left st \<and> jr_errors (snd (m st)) = jr_errors st)"

lemma quiet_holds: "quiet m \<Longrightarrow> holds doc (once m) (\<lambda>_. True)"
  by (rule holdsI) (simp add: quiet_def places_ok_def once_def, metis snd_conv)

lemma quiet_steps [simp]:
  "quiet (ret x)" "quiet (assign_current v)" "quiet (enter_with f k)" "quiet leave_node" "quiet comment_value"
  "quiet (add_comment t p)" "quiet comment_root"
  by (auto simp: quiet_def ret_def assign_current_def modS_def Let_def enter_with_def leave_node_def comment_value_def
      add_comment_def comment_root_def split: sum.split option.split)

lemma quiet_bind:
  assumes "quiet m" "\<And>x. quiet (k x)"
  shows "quiet (bindE m k)"
  unfolding quiet_def
proof (rule allI)
  fix st
  obtain r s1 where m: "m st = (r, s1)" by fastforce
  with assms(1) have "jr_left s1 = jr_left st" "jr_errors s1 = jr_errors st" by (auto simp: quiet_def dest!: spec [of _ st])
  with assms(2) m show "jr_left (snd (bindE m k st)) = jr_left st \<and> jr_errors (snd (bindE m k st)) = jr_errors st"
    by (cases r) (simp_all add: bindE_def quiet_def)
qed

lemma quiet_more [simp]:
  "quiet (enter_member n)" "quiet (enter_index i)" "quiet (assign_word v)" "quiet (value_read ok)"
proof -
  have "quiet (modS (\<lambda>st. if jr_collect st then st\<lparr>jr_last_end := Some (jr_left st), jr_last_value := Some (current_node st)\<rparr> else st))"
    by (simp add: quiet_def modS_def)
  then show "quiet (enter_member n)" "quiet (enter_index i)" "quiet (assign_word v)" "quiet (value_read ok)"
    by (simp_all add: enter_member_def enter_index_def assign_word_def value_read_def quiet_bind)
qed

text \<open>The tokens and the errors.\<close>

definition good_token :: "string \<Rightarrow> json_token \<Rightarrow> bool" where
  "good_token doc k = token_place doc (tok_start k)"

lemma read_tok_places: "holds doc (once read_tok) (good_token doc)"
proof (rule holdsI)
  fix st r st' assume st: "places_ok doc st" and run: "once read_tok st = Some (r, st')"
  have q: "jr_errors (snd (add_comment t p s)) = jr_errors s" "jr_left (snd (add_comment t p s)) = jr_left s" for t p s
    by (simp_all add: add_comment_def split: option.split)
  have "jr_left st' = snd (read_token (jr_left st)) \<and> jr_errors st' = jr_errors st \<and>
      (\<forall>k. r = Inr k \<longrightarrow> tok_start k = skip_spaces (jr_left st))"
    using run q [of _ _ "st\<lparr>jr_left := _\<rparr>"]
    by (auto simp: once_def read_tok_def Let_def bindE_def ret_def split: prod.splits sum.splits if_splits) (metis snd_conv jreader.simps)+
  moreover have "suffix (skip_spaces (jr_left st)) doc" "suffix (snd (read_token (jr_left st))) doc"
    using st suffix_skip [of "jr_left st"] suffix_token [of "jr_left st"] by (auto simp: places_ok_def dest: suffix_order.trans)
  ultimately show "places_ok doc st' \<and> (\<forall>x. r = Inr x \<longrightarrow> good_token doc x)"
    using st by (simp add: places_ok_def good_token_def token_place_def skip_spaces_def)
qed

lemma skip_comments_places: "holds doc (once skip_comments) (good_token doc)"
proof (rule holdsI)
  fix st r st' assume "places_ok doc st" "once skip_comments st = Some (r, st')"
  then show "places_ok doc st' \<and> (\<forall>x. r = Inr x \<longrightarrow> good_token doc x)"
  proof (induction st rule: skip_comments.induct)
    case (1 st)
    obtain a s1 where a: "read_tok st = (a, s1)" by fastforce
    then have s1: "places_ok doc s1" "\<forall>x. a = Inr x \<longrightarrow> good_token doc x"
      using holdsD [OF read_tok_places 1(2), of a s1] by (simp_all add: once_def)
    show ?case
    proof (cases "\<exists>k. a = Inr k \<and> tok_type k = CommentToken")
      case True
      then obtain k where k: "a = Inr k" "tok_type k = CommentToken" by blast
      with 1(3) a have "once skip_comments s1 = Some (r, st')" by (simp add: once_def skip_comments.simps [of st])
      from 1(1) [OF a [symmetric] k(1) k(2) s1(1) this] show ?thesis .
    next
      case False
      with 1(3) a have "r = a" "st' = s1" by (auto simp: once_def skip_comments.simps [of st] split: sum.splits)
      with s1 show ?thesis by simp
    qed
  qed
qed

lemma recover_loop_places: "holds doc (once (recover_loop t)) (\<lambda>_. True)"
proof (rule holdsI)
  fix st r st' assume "places_ok doc st" "once (recover_loop t) st = Some (r, st')"
  then show "places_ok doc st' \<and> (\<forall>x. r = Inr x \<longrightarrow> True)"
  proof (induction t st rule: recover_loop.induct)
    case (1 t st)
    obtain a s1 where a: "read_tok st = (a, s1)" by fastforce
    then have s1: "places_ok doc s1" using holdsD [OF read_tok_places 1(2), of a s1] by (simp add: once_def)
    show ?case
    proof (cases "\<exists>k. a = Inr k \<and> \<not> (tok_type k = t \<or> tok_type k = EndOfStream)")
      case True
      then obtain k where k: "a = Inr k" "\<not> (tok_type k = t \<or> tok_type k = EndOfStream)" by blast
      with 1(3) a have "once (recover_loop t) s1 = Some (r, st')" by (simp add: once_def recover_loop.simps [of t st])
      from 1(1) [OF a [symmetric] k s1 this] show ?thesis .
    next
      case False
      with 1(3) a have "st' = s1" by (auto simp: once_def recover_loop.simps [of t st] split: sum.splits if_splits)
      with s1 show ?thesis by simp
    qed
  qed
qed

lemma holds_mods: "(\<And>st. places_ok doc st \<Longrightarrow> places_ok doc (f st)) \<Longrightarrow> holds doc (once (modS f)) (\<lambda>_. True)"
  by (rule holdsI) (auto simp: once_def modS_def)

lemma getS_quiet: "quiet (getS f)"
  by (simp add: quiet_def getS_def)

lemma recover_places: "holds doc (once (recover_from_error t)) (\<lambda>_. True)"
proof -
  have "holds doc (once (modS (\<lambda>st. st\<lparr>jr_errors := take n (jr_errors st)\<rparr>))) (\<lambda>_. True)" for n
    by (rule holds_mods) (auto simp: places_ok_def dest: in_set_takeD)
  then show ?thesis
    unfolding recover_from_error_def once_bind
    by (intro holds_andthen [OF quiet_holds [OF getS_quiet]] holds_andthen [OF recover_loop_places] holds_andthen quiet_holds)
      simp_all
qed

lemma add_error_places: "good_token doc k \<Longrightarrow> holds doc (once (add_error m k x)) (\<lambda>_. True)"
  by (rule holdsI) (auto simp: once_def add_error_def places_ok_def good_token_def)

lemma error_and_recover_places: "good_token doc k \<Longrightarrow> holds doc (once (add_error_and_recover m k t)) (\<lambda>_. True)"
  unfolding add_error_and_recover_def once_bind by (intro holds_andthen [OF add_error_places] recover_places)

lemma decode_places:
  "good_token doc k \<Longrightarrow> holds doc (once (decode_number_tok lf x k)) (\<lambda>_. True)"
  "good_token doc k \<Longrightarrow> holds doc (once (decode_string_tok x k)) (\<lambda>_. True)"
  "good_token doc k \<Longrightarrow> holds doc (once (decode_string_value x k)) (\<lambda>_. True)"
proof -
  assume k: "good_token doc k"
  show "holds doc (once (decode_number_tok lf x k)) (\<lambda>_. True)"
    by (cases "decode_number lf x") (simp_all add: decode_number_tok_def add_error_places [OF k] quiet_holds quiet_bind)
  show tok: "holds doc (once (decode_string_tok x k)) (\<lambda>_. True)"
    by (auto simp: decode_string_tok_def once_bind quiet_holds split: option.split
        intro: holds_andthen [OF add_error_places [OF k]])
  show "holds doc (once (decode_string_value x k)) (\<lambda>_. True)"
    unfolding decode_string_value_def once_bind
    by (rule holds_andthen [OF tok]) (auto simp: quiet_holds quiet_bind split: option.split)
qed

lemma begin_array_places: "holds doc (once begin_array) (\<lambda>_. True)"
proof -
  have left: "holds doc (once (modS (\<lambda>st. st\<lparr>jr_left := skip_spaces (jr_left st)\<rparr>))) (\<lambda>_. True)"
    using suffix_skip by (intro holds_mods) (auto simp: places_ok_def intro: suffix_order.trans)
  have "holds doc (once (if b then bindE read_tok (\<lambda>_. ret True) else ret False)) (\<lambda>_. True)" for b
    by (auto simp: once_bind quiet_holds intro: holds_andthen [OF read_tok_places])
  then show ?thesis
    unfolding begin_array_def once_bind [of "assign_current _"] once_bind [of "modS _"] once_bind [of "getS _"]
    by (intro holds_andthen [OF quiet_holds] holds_andthen [OF left]) (simp_all add: getS_quiet)
qed

lemmas places = skip_comments_places read_tok_places recover_places add_error_places error_and_recover_places decode_places
  begin_array_places quiet_steps [THEN quiet_holds] quiet_more [THEN quiet_holds]

lemma run_places:
  "holds doc (run_value lf n) (\<lambda>_. True) \<and> (\<forall>name. holds doc (run_members lf n name) (\<lambda>_. True)) \<and>
   (\<forall>i. holds doc (run_elements lf n i) (\<lambda>_. True))"
proof (induction n)
  case 0
  show ?case by (simp add: holds_def)
next
  case (Suc n)
  then have ih: "holds doc (run_value lf n) (\<lambda>_. True)" "\<And>name. holds doc (run_members lf n name) (\<lambda>_. True)"
    "\<And>i. holds doc (run_elements lf n i) (\<lambda>_. True)" by blast+
  have rest: "holds doc (andthen m k) (\<lambda>_. True)" if "holds doc m (\<lambda>_. True)" "\<And>x. holds doc (k x) (\<lambda>_. True)"
    for m :: "'y run" and k :: "'y \<Rightarrow> 'z run" using holds_andthen [OF that(1)] that(2) by blast
  have "holds doc (run_value lf (Suc n)) (\<lambda>_. True)"
    unfolding run_value.simps
    by (intro holds_andthen [OF skip_comments_places] holds_andthen [OF quiet_holds [OF quiet_steps(5)]])
      (auto split: token.split intro!: rest places ih)
  moreover have "holds doc (run_members lf (Suc n) name) (\<lambda>_. True)" for name
    unfolding run_members.simps
    by (intro holds_andthen [OF skip_comments_places])
      (auto split: token.split option.split intro!: rest places ih holds_andthen [OF read_tok_places])
  moreover have "holds doc (run_elements lf (Suc n) i) (\<lambda>_. True)" for i
    unfolding run_elements.simps
    by (auto split: token.split intro!: rest places ih holds_andthen [OF read_tok_places])
  ultimately show ?case by blast
qed

text \<open>Its text fits the buffer of \<open>sprintf\<close>.\<close>

lemma length_show_nat: "n < 10 ^ k \<Longrightarrow> 0 < k \<Longrightarrow> length (show_nat n) \<le> k"
proof (induction k arbitrary: n)
  case (Suc k)
  show ?case
  proof (cases "n < 10")
    case True
    then show ?thesis by (simp add: show_nat.simps [of n])
  next
    case False
    then have "k \<noteq> 0" "n div 10 < 10 ^ k" using Suc.prems by (auto simp: less_mult_imp_div_less mult.commute intro: ccontr)
    with Suc.IH [of "n div 10"] False show ?thesis by (simp add: show_nat.simps [of n])
  qed
qed simp

lemma length_text_lines: "length (text_lines s) \<le> Suc (length s)"
proof (induction s rule: text_lines.induct)
  case (2 c s)
  show ?case
  proof (cases c s rule: text_lines_cases)
    case (Return_feed t)
    with 2(1) [OF Return_feed(1,2) refl] show ?thesis by simp
  next
    case (Return d t)
    with 2(2) [OF Return(1,2,3)] show ?thesis by simp
  next
    case Feed
    with 2(3) show ?thesis by simp
  next
    case Other
    with 2(4) show ?thesis by (cases "text_lines s") auto
  qed simp
qed simp

lemma place_of_token:
  assumes "token_place doc r"
  obtains s where "doc = s @ r" "line_and_column doc r = (length (text_lines s), int (length (last (text_lines s))) + 1)"
proof -
  from assms obtain s where s: "doc = s @ r" by (auto simp: token_place_def suffix_def)
  have "r = [] \<or> \<not> is_blank (hd r)"
    using assms by (metis token_place_def skip_spaces_def dropWhile_eq_Cons_conv list.exhaust_sel hd_dropWhile)
  then have "\<not> splits_line_end s r" by (auto simp: splits_line_end_def is_blank_def)
  from line_loop_lines [OF this, of 0 0 0] one_line [of s] last_line_length [of s]
  have "line_and_column doc r = (length (text_lines s), int (length (last (text_lines s))) + 1)"
    by (cases "text_lines s") (auto simp: line_and_column_def s Let_def)
  with s that show thesis by blast
qed

lemma reader_places:
  assumes "reader_parse lf c doc rv = Some (r, st)" "e \<in> set (jr_errors st)"
  shows "token_place doc (tok_start (err_token e))"
proof -
  have "holds doc (andthen (run_value lf (2 * length doc + 1)) (\<lambda>ok.
     andthen (once skip_comments) (\<lambda>_. andthen (once comment_root) (\<lambda>_. once (ret ok))))) (\<lambda>_. True)"
    by (intro holds_andthen [OF run_places [THEN conjunct1]] holds_andthen [OF skip_comments_places]
        holds_andthen [OF quiet_holds [OF quiet_steps(7)]] quiet_holds quiet_steps)
  moreover have "places_ok doc (start_reader c doc rv)" by (simp add: places_ok_def start_reader_def)
  ultimately have "places_ok doc st" using assms(1) unfolding reader_parse_def by (blast dest: holdsD)
  with assms(2) show ?thesis by (simp add: places_ok_def)
qed

text \<open>
  C22: the line and the column of every error that the reader reports are those of the start of a token of
  the document: the number of its lines up to there, and one more than what stands before it on
  its line, however the lines end; and their text fits the buffer of 51 bytes it is printed into.
\<close>

theorem error_places_are_lines:
  assumes "reader_parse lf c doc rv = Some (r, st)" "e \<in> set (jr_errors st)" "length doc < 2147483647"
  shows "\<exists>s. doc = s @ tok_start (err_token e) \<and>
    line_and_column doc (tok_start (err_token e)) = (length (text_lines s), int (length (last (text_lines s))) + 1) \<and>
    length (location_text doc (tok_start (err_token e))) < 18 + 16 + 16 + 1"
proof -
  from place_of_token [OF reader_places [OF assms(1,2)]] obtain s where
    s: "doc = s @ tok_start (err_token e)" and
    place: "line_and_column doc (tok_start (err_token e)) = (length (text_lines s), int (length (last (text_lines s))) + 1)" .
  have "length s < 2147483647" using assms(3) arg_cong [OF s, of length] by simp
  then have "length (text_lines s) < 10 ^ 10" "Suc (length (last (text_lines s))) < 10 ^ 10"
    using length_text_lines [of s] last_line_length [of s] by simp_all
  then have "length (show_nat (length (text_lines s))) \<le> 10" "length (show_nat (Suc (length (last (text_lines s))))) \<le> 10"
    by (auto intro: length_show_nat)
  moreover have "show_int (int (length (last (text_lines s))) + 1) = show_nat (Suc (length (last (text_lines s))))"
    by (simp add: show_int_def nat_add_distrib)
  ultimately show ?thesis using s place by (auto simp: location_text_def)
qed

lemma first_error:
  "\<not> Option.is_none x \<Longrightarrow> length (jr_errors (snd (the x))) = 1 \<Longrightarrow>
   x = Some (fst (the x), snd (the x)) \<and> hd (jr_errors (snd (the x))) \<in> set (jr_errors (snd (the x)))"
  by (cases x; cases "jr_errors (snd (the x))") auto

theorem error_places_are_lines_witness:
  "\<exists>s. ''[1,'' @ CHR 0x0A # '' x]'' = s @ tok_start (err_token (hd (jr_errors (snd (the
       (reader_parse (\<lambda>_. None) False (''[1,'' @ CHR 0x0A # '' x]'') null_value))))))"
proof -
  let ?p = "reader_parse (\<lambda>_. None) False (''[1,'' @ CHR 0x0A # '' x]'') null_value"
  have "\<not> Option.is_none ?p" "length (jr_errors (snd (the ?p))) = 1" by code_simp+
  then have "?p = Some (fst (the ?p), snd (the ?p)) \<and> hd (jr_errors (snd (the ?p))) \<in> set (jr_errors (snd (the ?p)))"
    by (rule first_error)
  from error_places_are_lines [OF this [THEN conjunct1] this [THEN conjunct2]] show ?thesis by auto
qed

text \<open>
  Two reports: a document with a letter that starts no value, and a comment in front of a comma.
\<close>

definition report_of :: "string \<Rightarrow> string" where
  "report_of doc = (case reader_parse (\<lambda>_. None) True doc null_value of Some (r, st) \<Rightarrow> formatted_errors doc (jr_errors st) | None \<Rightarrow> [])"

lemma reports:
  "report_of (''[1,'' @ CHR 0x0A # '' x]'') =
     ''* Line 2, Column 2'' @ CHR 0x0A # ''  Syntax error: value, object or array expected.'' @ [CHR 0x0A]"
  "report_of ''[1 /*a*/, 2]'' =
     ''* Line 1, Column 4'' @ CHR 0x0A # ''  Missing '' @ CHR 0x27 # '','' @ CHR 0x27 # '' or '' @ CHR 0x27 # '']'' @ CHR 0x27 #
     '' in array declaration'' @ [CHR 0x0A]"
  by code_simp+

end
