(* ===== verification/Json_Arrays.thy ===== *)
theory Json_Arrays
  imports Json_Value
begin

text \<open>
  The paged arrays of \<open>libs/json/json_internalarray.inl\<close> and the pool their pages come from
  (\<open>json_batchallocator.h\<close>), which take the place of the ordered map in an array when the library is
  built with \<open>JSON_VALUE_USE_INTERNAL_MAP\<close>. Access outside of allocated memory is \<open>Abort\<close>. Sizes are
  natural numbers: a page has eight places, and no array of this process reaches 32 bits.
\<close>

section \<open>The pool\<close>

text \<open>
  A batch has a number and the offset of its first unused object; the places of a batch are the offsets
  below \<open>n * per_page\<close>, for objects that are allocated \<open>n\<close> at a time. The list is the linked list, and
  the batch 0 is the dummy that the constructor makes.
\<close>

record batch =
  batch_id :: nat
  batch_used :: nat
  batch_end :: nat

record pool =
  pool_batches :: "batch list"
  pool_current :: nat
  pool_free :: "(nat \<times> nat) list"

definition new_pool :: pool where
  "new_pool = \<lparr>pool_batches = [\<lparr>batch_id = 0, batch_used = 0, batch_end = 0\<rparr>], pool_current = 0, pool_free = []\<rparr>"

definition allocate_batch :: "nat \<Rightarrow> nat \<Rightarrow> batch" where
  "allocate_batch k per_page = \<lparr>batch_id = k, batch_used = 0, batch_end = per_page\<rparr>"

definition find_batch :: "nat \<Rightarrow> batch list \<Rightarrow> batch list" where
  "find_batch k bs = dropWhile (\<lambda>b. batch_id b \<noteq> k) bs"

text \<open>\<open>allocate\<close>: from the free list, or the current batch, or the next one that is not used up, or a new one.\<close>

definition use_batch :: "nat \<Rightarrow> nat \<Rightarrow> pool \<Rightarrow> (nat \<times> nat) \<times> pool" where
  "use_batch n k p =
     (let used = batch_used (hd (find_batch k (pool_batches p))) in
      ((k, used), p\<lparr>pool_current := k,
         pool_batches := map (\<lambda>b. if batch_id b = k then b\<lparr>batch_used := used + n\<rparr> else b) (pool_batches p)\<rparr>))"

definition allocate :: "nat \<Rightarrow> nat \<Rightarrow> pool \<Rightarrow> (nat \<times> nat) \<times> pool" where
  "allocate n per_page p =
     (case pool_free p of
        a # fs \<Rightarrow> (a, p\<lparr>pool_free := fs\<rparr>)
      | [] \<Rightarrow>
          (case dropWhile (\<lambda>b. batch_used b = batch_end b) (find_batch (pool_current p) (pool_batches p)) of
             b # _ \<Rightarrow> use_batch n (batch_id b) p
           | [] \<Rightarrow>
               let k = length (pool_batches p) in
               use_batch n k (p\<lparr>pool_batches := allocate_batch k per_page # pool_batches p\<rparr>)))"

definition release :: "nat \<times> nat \<Rightarrow> pool \<Rightarrow> pool" where
  "release a p = p\<lparr>pool_free := a # pool_free p\<rparr>"

text \<open>What is allocated when nothing is released, in order.\<close>

fun allocations :: "nat \<Rightarrow> nat \<Rightarrow> nat \<Rightarrow> pool \<Rightarrow> (nat \<times> nat) list" where
  "allocations n per_page 0 p = []"
| "allocations n per_page (Suc m) p = (case allocate n per_page p of (a, p') \<Rightarrow> a # allocations n per_page m p')"

definition inside_batch :: "nat \<Rightarrow> nat \<Rightarrow> nat \<times> nat \<Rightarrow> bool" where
  "inside_batch n per_page a = (snd a + n \<le> n * per_page)"

text \<open>
  The end of a batch is set as if its objects were allocated one at a time. When they are allocated
  in groups that do not divide the objects of a page, as the eight places of an array page do not
  divide 255, the end is stepped over: no new batch is ever made, and from the group 255 on the pages lie behind
  the memory of the batch.
\<close>

lemma only_batch:
  assumes "\<not> n dvd per_page" "pool_free p = []" "pool_current p = Suc 0"
    "pool_batches p = [\<lparr>batch_id = Suc 0, batch_used = n * j, batch_end = per_page\<rparr>, \<lparr>batch_id = 0, batch_used = 0, batch_end = 0\<rparr>]"
  shows "allocations n per_page m p = map (\<lambda>i. (Suc 0, n * i)) [j..<j + m]"
  using assms(2-)
proof (induction m arbitrary: p j)
  case (Suc m)
  have "n * j \<noteq> per_page" using assms(1) by auto
  then have "allocate n per_page p = ((Suc 0, n * j), p\<lparr>pool_batches :=
      [\<lparr>batch_id = Suc 0, batch_used = n * Suc j, batch_end = per_page\<rparr>, \<lparr>batch_id = 0, batch_used = 0, batch_end = 0\<rparr>]\<rparr>)"
    using Suc.prems by (simp add: allocate_def use_batch_def find_batch_def Let_def)
  moreover have "[j..<j + Suc m] = j # [Suc j..<Suc j + m]" by (simp add: upt_conv_Cons)
  ultimately show ?case using Suc.prems by (simp add: Suc.IH [where j = "Suc j"])
qed simp

lemma groups_step_over_the_end:
  assumes "\<not> n dvd per_page"
  shows "allocations n per_page m new_pool = map (\<lambda>i. (Suc 0, n * i)) [0..<m]"
proof (cases m)
  case (Suc k)
  let ?p = "\<lparr>pool_batches = [\<lparr>batch_id = Suc 0, batch_used = n * Suc 0, batch_end = per_page\<rparr>,
      \<lparr>batch_id = 0, batch_used = 0, batch_end = 0\<rparr>], pool_current = Suc 0, pool_free = []\<rparr>"
  have "allocate n per_page new_pool = ((Suc 0, 0), ?p)"
    using assms by (cases "per_page = 0") (simp_all add: allocate_def use_batch_def find_batch_def new_pool_def allocate_batch_def Let_def)
  moreover have "allocations n per_page k ?p = map (\<lambda>i. (Suc 0, n * i)) [Suc 0..<Suc 0 + k]"
    by (rule only_batch [OF assms]) simp_all
  moreover have "[0..<m] = 0 # [Suc 0..<Suc 0 + k]" using Suc by (simp add: upt_conv_Cons)
  ultimately show ?thesis using Suc by simp
qed simp

lemma array_pages_overrun:
  "\<not> inside_batch 8 255 (allocations 8 255 256 new_pool ! 255)"
  "\<forall>i < 255. inside_batch 8 255 (allocations 8 255 256 new_pool ! i)"
  by (simp_all add: groups_step_over_the_end inside_batch_def del: upt_Suc)

text \<open>
  When a group has as many objects as divide a page, which holds for the arrays, maps and links that
  are allocated one at a time, the pool is right: what it hands out lies in a batch and is not in use.
\<close>

definition pool_ok :: "nat \<Rightarrow> nat \<Rightarrow> (nat \<times> nat) set \<Rightarrow> pool \<Rightarrow> bool" where
  "pool_ok n per_page A p \<longleftrightarrow>
     pool_current p \<in> batch_id ` set (pool_batches p)
     \<and> distinct (map batch_id (pool_batches p))
     \<and> (\<forall>b\<in>set (pool_batches p). batch_id b < length (pool_batches p) \<and> n dvd batch_used b
          \<and> n dvd batch_end b \<and> batch_used b \<le> batch_end b \<and> batch_end b \<le> per_page)
     \<and> distinct (pool_free p) \<and> set (pool_free p) \<inter> A = {}
     \<and> (\<forall>a\<in>A \<union> set (pool_free p). n dvd snd a
          \<and> (\<exists>b\<in>set (pool_batches p). batch_id b = fst a \<and> snd a + n \<le> batch_used b))"

lemma pool_ok_given:
  assumes "pool_ok n per_page A p" "a \<in> A \<union> set (pool_free p)"
  shows "\<exists>b\<in>set (pool_batches p). batch_id b = fst a \<and> snd a + n \<le> batch_used b \<and> batch_used b \<le> per_page"
proof -
  have "\<forall>b\<in>set (pool_batches p). batch_used b \<le> per_page" using assms(1) by (auto simp: pool_ok_def)
  moreover have "\<exists>b\<in>set (pool_batches p). batch_id b = fst a \<and> snd a + n \<le> batch_used b"
    using assms unfolding pool_ok_def by blast
  ultimately show ?thesis by blast
qed

lemma pool_ok_new: "pool_ok n per_page {} new_pool"
  by (simp add: pool_ok_def new_pool_def)

lemma pool_ok_release:
  assumes "pool_ok n per_page A p" "a \<in> A"
  shows "pool_ok n per_page (A - {a}) (release a p)"
  using assms by (auto simp: pool_ok_def release_def)

definition took :: "nat \<Rightarrow> nat \<Rightarrow> batch list \<Rightarrow> batch list" where
  "took n k bs = map (\<lambda>b. if batch_id b = k then b\<lparr>batch_used := batch_used b + n\<rparr> else b) bs"

lemma took_ids [simp]: "map batch_id (took n k bs) = map batch_id bs" "length (took n k bs) = length bs"
  "batch_id ` set (took n k bs) = batch_id ` set bs"
  by (induction bs) (auto simp: took_def)

lemma took_member:
  "c \<in> set bs \<Longrightarrow> \<exists>d\<in>set (took n k bs). batch_id d = batch_id c \<and> batch_used c \<le> batch_used d
     \<and> (batch_id c = k \<longrightarrow> batch_used d = batch_used c + n)"
  by (induction bs) (auto simp: took_def)

lemma find_batch_hd:
  assumes "b \<in> set bs" "distinct (map batch_id bs)"
  shows "\<exists>r. find_batch (batch_id b) bs = b # r \<and> set r \<subseteq> set bs"
  using assms
proof (induction bs)
  case (Cons c cs)
  show ?case
  proof (cases "b = c")
    case False
    then have "batch_id c \<noteq> batch_id b" "b \<in> set cs" using Cons.prems by (auto simp: image_iff)
    with Cons show ?thesis by (auto simp: find_batch_def)
  qed (auto simp: find_batch_def)
qed simp

lemma pool_ok_use:
  assumes ok: "pool_ok n per_page A p" and free: "pool_free p = []"
    and b: "b \<in> set (pool_batches p)" "batch_used b \<noteq> batch_end b" and "0 < n"
  shows "\<exists>p'. use_batch n (batch_id b) p = ((batch_id b, batch_used b), p')
    \<and> pool_ok n per_page (insert (batch_id b, batch_used b) A) p' \<and> (batch_id b, batch_used b) \<notin> A
    \<and> batch_used b + n \<le> per_page"
proof -
  let ?bs = "pool_batches p" and ?k = "batch_id b"
  let ?p = "p\<lparr>pool_current := ?k, pool_batches := took n ?k ?bs\<rparr>"
  have dist: "distinct (map batch_id ?bs)" using ok by (simp add: pool_ok_def)
  then have same: "c = b" if "c \<in> set ?bs" "batch_id c = ?k" for c
    using b(1) that by (metis distinct_map inj_onD)
  have took: "took n ?k ?bs = map (\<lambda>c. if batch_id c = ?k then c\<lparr>batch_used := batch_used b + n\<rparr> else c) ?bs"
    using same by (auto simp: took_def)
  have "use_batch n ?k p = ((?k, batch_used b), ?p)"
    using find_batch_hd [OF b(1) dist] by (auto simp: use_batch_def Let_def took)
  moreover have fits: "batch_used b + n \<le> batch_end b" "batch_end b \<le> per_page"
  proof -
    have d: "n dvd batch_used b" "n dvd batch_end b" "batch_used b < batch_end b" and "batch_end b \<le> per_page"
      using ok b by (auto simp: pool_ok_def order_less_le)
    have "n dvd batch_end b - batch_used b" "0 < batch_end b - batch_used b" using d by simp_all
    then have "n \<le> batch_end b - batch_used b" by (rule dvd_imp_le)
    then show "batch_used b + n \<le> batch_end b" "batch_end b \<le> per_page"
      using d(3) \<open>batch_end b \<le> per_page\<close> by simp_all
  qed
  moreover have "(?k, batch_used b) \<notin> A"
  proof
    assume "(?k, batch_used b) \<in> A"
    then obtain c where c: "c \<in> set ?bs" "batch_id c = ?k" "batch_used b + n \<le> batch_used c"
      using pool_ok_given [OF ok, of "(?k, batch_used b)"] by auto
    from same [OF c(1,2)] c(3) \<open>0 < n\<close> show False by simp
  qed
  moreover have "pool_ok n per_page (insert (?k, batch_used b) A) ?p"
  proof -
    have new: "\<exists>c\<in>set (took n ?k ?bs). batch_id c = i \<and> j + n \<le> batch_used c"
      if "c \<in> set ?bs" "batch_id c = i" "j + n \<le> batch_used c" for c i j
      using took_member [OF that(1), of n ?k] that(2,3) by (auto intro: le_trans)
    have "\<exists>c\<in>set (took n ?k ?bs). batch_id c = ?k \<and> batch_used b + n \<le> batch_used c"
      using took_member [OF b(1), of n ?k] by auto
    moreover have "\<forall>c\<in>set (took n ?k ?bs). batch_id c < length ?bs \<and> n dvd batch_used c
          \<and> n dvd batch_end c \<and> batch_used c \<le> batch_end c \<and> batch_end c \<le> per_page"
    proof
      fix d assume "d \<in> set (took n ?k ?bs)"
      then obtain c where "c \<in> set ?bs" "d = (if batch_id c = ?k then c\<lparr>batch_used := batch_used c + n\<rparr> else c)"
        by (auto simp: took_def)
      with ok fits same [of c] show "batch_id d < length ?bs \<and> n dvd batch_used d
          \<and> n dvd batch_end d \<and> batch_used d \<le> batch_end d \<and> batch_end d \<le> per_page"
        by (auto simp: pool_ok_def)
    qed
    moreover have "n dvd batch_used b" using ok b by (simp add: pool_ok_def)
    moreover have "n dvd snd a \<and> (\<exists>c\<in>set (took n ?k ?bs). batch_id c = fst a \<and> snd a + n \<le> batch_used c)"
      if "a \<in> A" for a
    proof -
      have "n dvd snd a" using ok that by (simp add: pool_ok_def)
      with pool_ok_given [OF ok, of a] that new show ?thesis by blast
    qed
    ultimately have "\<forall>a\<in>insert (?k, batch_used b) A. n dvd snd a
        \<and> (\<exists>c\<in>set (took n ?k ?bs). batch_id c = fst a \<and> snd a + n \<le> batch_used c)"
      "\<forall>c\<in>set (took n ?k ?bs). batch_id c < length ?bs \<and> n dvd batch_used c
          \<and> n dvd batch_end c \<and> batch_used c \<le> batch_end c \<and> batch_end c \<le> per_page"
      by simp_all
    then show ?thesis using dist b(1) free by (simp add: pool_ok_def)
  qed
  ultimately show ?thesis by auto
qed

text \<open>Here \<open>dropWhile_hit\<close> says what the walk along the batches finds.\<close>

lemma dropWhile_hit: "dropWhile P xs = y # ys \<Longrightarrow> y \<in> set xs \<and> \<not> P y"
  by (metis dropWhile_eq_Cons_conv in_set_conv_decomp)

lemma pool_gives_fresh_memory:
  assumes ok: "pool_ok n per_page A p" and "0 < n" "n dvd per_page" "0 < per_page"
  shows "case allocate n per_page p of (a, p') \<Rightarrow>
    a \<notin> A \<and> inside_batch n per_page a \<and> pool_ok n per_page (insert a A) p'"
proof (cases "pool_free p")
  case (Cons a fs)
  have "a \<notin> A" using ok Cons by (auto simp: pool_ok_def)
  moreover have "snd a + n \<le> per_page" using pool_ok_given [OF ok, of a] Cons by auto
  then have "inside_batch n per_page a"
    using \<open>0 < n\<close> by (simp add: inside_batch_def) (metis One_nat_def Suc_leI le_trans mult_le_mono1 nat_mult_1)
  moreover have "pool_ok n per_page (insert a A) (p\<lparr>pool_free := fs\<rparr>)"
    using ok Cons by (auto simp: pool_ok_def)
  ultimately show ?thesis using Cons by (simp add: allocate_def)
next
  case Nil
  have small: "inside_batch n per_page a" if "snd a + n \<le> per_page" for a
    using that \<open>0 < n\<close> by (simp add: inside_batch_def) (metis One_nat_def Suc_leI le_trans mult_le_mono1 nat_mult_1)
  let ?rest = "dropWhile (\<lambda>b. batch_used b = batch_end b) (find_batch (pool_current p) (pool_batches p))"
  show ?thesis
  proof (cases ?rest)
    case (Cons b bs)
    then have b: "b \<in> set (pool_batches p)" "batch_used b \<noteq> batch_end b"
      by (auto dest!: dropWhile_hit simp: find_batch_def dest: set_dropWhileD)
    from pool_ok_use [OF ok Nil b \<open>0 < n\<close>] show ?thesis
      using Cons Nil small by (auto simp: allocate_def)
  next
    case empty: Nil
    let ?k = "length (pool_batches p)"
    let ?p = "p\<lparr>pool_batches := allocate_batch ?k per_page # pool_batches p\<rparr>"
    have "pool_ok n per_page A ?p"
      unfolding pool_ok_def
    proof (intro conjI)
      show "\<forall>a\<in>A \<union> set (pool_free ?p). n dvd snd a
          \<and> (\<exists>b\<in>set (pool_batches ?p). batch_id b = fst a \<and> snd a + n \<le> batch_used b)"
        using ok unfolding pool_ok_def by simp
    qed (use ok assms(3) in \<open>auto simp: pool_ok_def allocate_batch_def less_SucI\<close>)
    from pool_ok_use [OF this, of "allocate_batch ?k per_page"] obtain p' where
        "use_batch n ?k ?p = ((?k, 0), p')" "pool_ok n per_page (insert (?k, 0) A) p'" "(?k, 0) \<notin> A" "n \<le> per_page"
      using Nil assms(2,4) by (auto simp: allocate_batch_def)
    moreover have "allocate n per_page p = use_batch n ?k ?p"
      unfolding allocate_def Nil empty by (simp add: Let_def)
    ultimately show ?thesis using small by simp
  qed
qed

section \<open>The paged array\<close>

text \<open>
  The index of an array is its pages in order; \<open>None\<close> is an entry of the index that points to no page of
  the array. A page has eight places, and \<open>None\<close> is one where no value was constructed. \<open>pageCount_\<close> is the
  length of the index.
\<close>

type_synonym pages = "jvalue option list option list"

record paged =
  paged_index :: pages
  paged_size :: nat

definition new_paged :: paged where
  "new_paged = \<lparr>paged_index = [], paged_size = 0\<rparr>"

definition reallocate_index :: "nat \<Rightarrow> pages \<Rightarrow> pages" where
  "reallocate_index least ps =
     (let n = length ps * 3 div 2 + 1; m = (if least > n then least else n) in
      ps @ replicate (m - length ps) None)"

fun allocate_pages :: "nat \<Rightarrow> nat \<Rightarrow> pages \<Rightarrow> exn + pages" where
  "allocate_pages 0 k ps = Inr ps"
| "allocate_pages (Suc n) k ps =
     (if k < length ps then allocate_pages n (Suc k) (ps[k := Some (replicate 8 None)]) else Inl Abort)"

definition place_at :: "pages \<Rightarrow> nat \<Rightarrow> exn + jvalue" where
  "place_at ps i =
     (if i div 8 < length ps then
        (case ps ! (i div 8) of
           None \<Rightarrow> Inl Abort
         | Some p \<Rightarrow> (case p ! (i mod 8) of None \<Rightarrow> Inl Abort | Some v \<Rightarrow> Inr v))
      else Inl Abort)"

definition construct_place :: "jvalue \<Rightarrow> nat \<Rightarrow> pages \<Rightarrow> exn + pages" where
  "construct_place v i ps =
     (if i div 8 < length ps then
        (case ps ! (i div 8) of
           None \<Rightarrow> Inl Abort
         | Some p \<Rightarrow> Inr (ps[i div 8 := Some (p[i mod 8 := Some v])]))
      else Inl Abort)"

fun construct_nulls :: "nat \<Rightarrow> nat \<Rightarrow> pages \<Rightarrow> exn + pages" where
  "construct_nulls 0 i ps = Inr ps"
| "construct_nulls (Suc n) i ps =
     (case construct_place null_value i ps of Inl e \<Rightarrow> Inl e | Inr ps' \<Rightarrow> construct_nulls n (Suc i) ps')"

text \<open>\<open>makeIndexValid\<close>: the index is enlarged, then pages are made, then values.\<close>

definition next_page :: "nat \<Rightarrow> nat" where
  "next_page n = (if n mod 8 \<noteq> 0 then n - n mod 8 + 8 else n)"

definition enlarged_index :: "nat \<Rightarrow> pages \<Rightarrow> pages" where
  "enlarged_index i ps = (if i \<ge> length ps * 8 then reallocate_index ((i + 1) div 8) ps else ps)"

definition make_index_valid :: "nat \<Rightarrow> paged \<Rightarrow> exn + paged" where
  "make_index_valid i a =
     (let ps = enlarged_index i (paged_index a); next = next_page (paged_size a) in
      case (if next \<le> i then allocate_pages ((i - next) div 8 + 1) (next div 8) ps else Inr ps) of
        Inl e \<Rightarrow> Inl e
      | Inr ps' \<Rightarrow>
          (case construct_nulls (i + 1 - paged_size a) (paged_size a) ps' of
             Inl e \<Rightarrow> Inl e
           | Inr ps'' \<Rightarrow> Inr \<lparr>paged_index = ps'', paged_size = i + 1\<rparr>))"

text \<open>The reference \<open>resolveReference\<close> returns is the place \<open>i\<close> of the array it leaves.\<close>

definition resolve_index :: "nat \<Rightarrow> paged \<Rightarrow> exn + paged" where
  "resolve_index i a = (if i \<ge> paged_size a then make_index_valid i a else Inr a)"

definition paged_find :: "nat \<Rightarrow> paged \<Rightarrow> exn + jvalue option" where
  "paged_find i a =
     (if i \<ge> paged_size a then Inr None
      else case place_at (paged_index a) i of Inl e \<Rightarrow> Inl e | Inr v \<Rightarrow> Inr (Some v))"

text \<open>\<open>a[i] = x\<close>\<close>

definition paged_assign :: "nat \<Rightarrow> jvalue \<Rightarrow> paged \<Rightarrow> exn + paged" where
  "paged_assign i x a =
     (case resolve_index i a of
        Inl e \<Rightarrow> Inl e
      | Inr b \<Rightarrow>
          (case place_at (paged_index b) i of
             Inl e \<Rightarrow> Inl e
           | Inr v \<Rightarrow>
               (case construct_place (assign_value v x) i (paged_index b) of
                  Inl e \<Rightarrow> Inl e
                | Inr ps \<Rightarrow> Inr (b\<lparr>paged_index := ps\<rparr>))))"

text \<open>
  The end of an array, and the part of \<open>resize\<close> that makes one smaller: the values are destroyed, and
  pages are released up to the one before the page in which the size lies.
\<close>

fun destroy_values :: "nat \<Rightarrow> nat \<Rightarrow> pages \<Rightarrow> exn + pages" where
  "destroy_values 0 i ps = Inr ps"
| "destroy_values (Suc n) i ps =
     (case place_at ps i of
        Inl e \<Rightarrow> Inl e
      | Inr v \<Rightarrow> destroy_values n (Suc i) (ps[i div 8 := map_option (\<lambda>p. p[i mod 8 := None]) (ps ! (i div 8))]))"

definition release_pages :: "nat \<Rightarrow> nat \<Rightarrow> pages \<Rightarrow> pages" where
  "release_pages m n ps = map (\<lambda>(k, p). if m \<le> k \<and> k < n then None else p) (zip [0..<length ps] ps)"

definition destruct_paged :: "paged \<Rightarrow> exn + pages" where
  "destruct_paged a =
     (case destroy_values (paged_size a) 0 (paged_index a) of
        Inl e \<Rightarrow> Inl e
      | Inr ps \<Rightarrow> Inr (release_pages 0 (paged_size a div 8) ps))"

definition clear_paged :: "paged \<Rightarrow> exn + paged" where
  "clear_paged a = (case destruct_paged a of Inl e \<Rightarrow> Inl e | Inr _ \<Rightarrow> Inr new_paged)"

definition resize_paged :: "nat \<Rightarrow> paged \<Rightarrow> exn + paged" where
  "resize_paged n a =
     (if n = 0 then clear_paged a
      else if n < paged_size a then
        (case destroy_values (paged_size a - n) n (paged_index a) of
           Inl e \<Rightarrow> Inl e
         | Inr ps \<Rightarrow> Inr \<lparr>paged_index = release_pages ((n + 7) div 8) (paged_size a div 8) ps, paged_size = n\<rparr>)
      else if n > paged_size a then resolve_index n a
      else Inr a)"

text \<open>The copy constructor. The pointer \<open>value\<close> moves only when a page is begun.\<close>

fun copy_values :: "nat \<Rightarrow> nat \<Rightarrow> pages \<Rightarrow> pages \<Rightarrow> exn + pages" where
  "copy_values 0 i src ps = Inr ps"
| "copy_values (Suc n) i src ps =
     (case (if i mod 8 = 0 then allocate_pages 1 (i div 8) ps else Inr ps) of
        Inl e \<Rightarrow> Inl e
      | Inr ps' \<Rightarrow>
          (case place_at src i of
             Inl e \<Rightarrow> Inl e
           | Inr v \<Rightarrow>
               (case construct_place v (i div 8 * 8) ps' of
                  Inl e \<Rightarrow> Inl e
                | Inr ps'' \<Rightarrow> copy_values n (Suc i) src ps'')))"

definition copy_paged :: "paged \<Rightarrow> exn + paged" where
  "copy_paged a =
     (case copy_values (paged_size a) 0 (paged_index a) (reallocate_index (paged_size a div 8) []) of
        Inl e \<Rightarrow> Inl e
      | Inr ps \<Rightarrow> Inr \<lparr>paged_index = ps, paged_size = paged_size a\<rparr>)"

text \<open>\<open>compare\<close>: \<open>Value::compare\<close>, which it asks for each pair of values, is a body that returns 0.\<close>

definition compare_values :: "jvalue \<Rightarrow> jvalue \<Rightarrow> int" where
  "compare_values x y = 0"

fun compare_places :: "nat \<Rightarrow> nat \<Rightarrow> pages \<Rightarrow> pages \<Rightarrow> exn + int" where
  "compare_places 0 i ps qs = Inr 0"
| "compare_places (Suc n) i ps qs =
     (case place_at ps i of
        Inl e \<Rightarrow> Inl e
      | Inr v \<Rightarrow>
          (case place_at qs i of
             Inl e \<Rightarrow> Inl e
           | Inr w \<Rightarrow> if compare_values v w \<noteq> 0 then Inr (compare_values v w) else compare_places n (Suc i) ps qs))"

definition compare_paged :: "paged \<Rightarrow> paged \<Rightarrow> exn + int" where
  "compare_paged a b =
     (if int (paged_size a) - int (paged_size b) \<noteq> 0 then Inr (int (paged_size a) - int (paged_size b))
      else compare_places (paged_size a) 0 (paged_index a) (paged_index b))"

text \<open>Iterators: the page, from the first page on, and the place in it.\<close>

type_synonym paged_iterator = "int \<times> nat"

definition iterator_at :: "nat \<Rightarrow> paged_iterator" where
  "iterator_at i = (int (i div 8), i mod 8)"

fun paged_index_of :: "paged_iterator \<Rightarrow> int" where
  "paged_index_of (k, i) = k * 8 + int i"

fun paged_increment :: "paged \<Rightarrow> paged_iterator \<Rightarrow> exn + paged_iterator" where
  "paged_increment a (k, i) =
     (if paged_index_of (k, i) = int (paged_size a) then Inl Abort
      else if i + 1 = 8 then Inr (k + 1, 0) else Inr (k, i + 1))"

fun paged_decrement :: "paged_iterator \<Rightarrow> exn + paged_iterator" where
  "paged_decrement (k, i) =
     (if \<not> (k = 0 \<and> i = 0) then Inl Abort
      else if i = 0 then Inr (k - 1, 7) else Inr (k, i - 1))"

definition paged_dereference :: "paged \<Rightarrow> paged_iterator \<Rightarrow> exn + jvalue" where
  "paged_dereference a it =
     (if \<not> (paged_index_of it < int (paged_size a)) \<or> paged_index_of it < 0 then Inl Abort
      else place_at (paged_index a) (nat (paged_index_of it)))"

definition paged_distance :: "paged_iterator \<Rightarrow> paged_iterator \<Rightarrow> int" where
  "paged_distance x y = paged_index_of y - paged_index_of x"

section \<open>What the arrays promise\<close>

text \<open>\<open>has_place\<close> says that a place lies in a page; in an array all places below the size hold values.\<close>

definition has_place :: "pages \<Rightarrow> nat \<Rightarrow> bool" where
  "has_place ps i \<longleftrightarrow> i div 8 < length ps \<and> (\<exists>p. ps ! (i div 8) = Some p \<and> length p = 8)"

definition paged_ok :: "paged \<Rightarrow> bool" where
  "paged_ok a \<longleftrightarrow> (\<forall>i<paged_size a. has_place (paged_index a) i \<and> (\<exists>v. place_at (paged_index a) i = Inr v))"

definition value_at :: "pages \<Rightarrow> nat \<Rightarrow> jvalue" where
  "value_at ps i = (case place_at ps i of Inl e \<Rightarrow> null_value | Inr v \<Rightarrow> v)"

definition paged_elements :: "paged \<Rightarrow> jvalue list" where
  "paged_elements a = map (value_at (paged_index a)) [0..<paged_size a]"

lemma paged_elements_length [simp]: "length (paged_elements a) = paged_size a"
  by (simp add: paged_elements_def)

lemma paged_elements_nth: "i < paged_size a \<Longrightarrow> paged_elements a ! i = value_at (paged_index a) i"
  by (simp add: paged_elements_def)

lemma place_value: "paged_ok a \<Longrightarrow> i < paged_size a \<Longrightarrow> place_at (paged_index a) i = Inr (paged_elements a ! i)"
  by (auto simp: paged_ok_def paged_elements_nth value_at_def)

lemma other_place: "i \<noteq> j \<Longrightarrow> i div 8 = j div 8 \<Longrightarrow> i mod 8 \<noteq> j mod (8::nat)"
  by (metis mult_div_mod_eq)

lemma construct_place_outcome:
  assumes "has_place ps i"
  shows "\<exists>qs. construct_place v i ps = Inr qs \<and> length qs = length ps \<and> (\<forall>j. has_place qs j = has_place ps j)
    \<and> (\<forall>j. place_at qs j = (if j = i then Inr v else place_at ps j))"
proof -
  obtain p where p: "i div 8 < length ps" "ps ! (i div 8) = Some p" "length p = 8"
    using assms by (auto simp: has_place_def)
  let ?qs = "ps[i div 8 := Some (p[i mod 8 := Some v])]"
  have "has_place ?qs j = has_place ps j" for j
    using p by (cases "j div 8 = i div 8") (auto simp: has_place_def)
  moreover have "place_at ?qs j = (if j = i then Inr v else place_at ps j)" for j
    using p other_place [of i j] by (cases "j div 8 = i div 8") (auto simp: place_at_def nth_list_update)
  ultimately show ?thesis using p by (simp add: construct_place_def)
qed

lemma construct_nulls_outcome:
  assumes "\<forall>j. i \<le> j \<and> j < i + n \<longrightarrow> has_place ps j"
  shows "\<exists>qs. construct_nulls n i ps = Inr qs \<and> length qs = length ps \<and> (\<forall>j. has_place qs j = has_place ps j)
    \<and> (\<forall>j. place_at qs j = (if i \<le> j \<and> j < i + n then Inr null_value else place_at ps j))"
  using assms
proof (induction n arbitrary: i ps)
  case (Suc n)
  have "has_place ps i" using Suc.prems by simp
  from construct_place_outcome [OF this, of null_value] obtain rs where
    rs: "construct_place null_value i ps = Inr rs" "length rs = length ps" "\<And>j. has_place rs j = has_place ps j"
      "\<And>j. place_at rs j = (if j = i then Inr null_value else place_at ps j)" by blast
  have "\<forall>j. Suc i \<le> j \<and> j < Suc i + n \<longrightarrow> has_place rs j" using Suc.prems rs(3) by simp
  from Suc.IH [OF this] obtain qs where "construct_nulls n (Suc i) rs = Inr qs" "length qs = length rs"
      "\<And>j. has_place qs j = has_place rs j"
      "\<And>j. place_at qs j = (if Suc i \<le> j \<and> j < Suc i + n then Inr null_value else place_at rs j)" by blast
  with rs show ?case by auto
qed auto

lemma allocate_pages_outcome:
  "allocate_pages n k ps =
     (if n = 0 \<or> k + n \<le> length ps
      then Inr (map (\<lambda>j. if k \<le> j \<and> j < k + n then Some (replicate 8 None) else ps ! j) [0..<length ps])
      else Inl Abort)"
proof (induction n arbitrary: k ps)
  case 0
  show ?case by (auto intro!: nth_equalityI)
next
  case (Suc n)
  show ?case by (auto simp: Suc.IH map_nth nth_list_update intro!: nth_equalityI)
qed

lemma next_page_is: "\<exists>m. next_page n = 8 * m \<and> n \<le> 8 * m \<and> 8 * m < n + 8"
proof -
  obtain q r where n: "n = 8 * q + r" "r < 8"
    by (metis mod_less_divisor mult_div_mod_eq zero_less_numeral)
  show ?thesis
  proof (cases "r = 0")
    case True
    then show ?thesis using n by (intro exI [of _ q]) (simp add: next_page_def)
  next
    case False
    then show ?thesis using n by (intro exI [of _ "Suc q"]) (simp add: next_page_def)
  qed
qed

lemma next_page_facts:
  "n \<le> next_page n"
  "next_page n \<le> i \<Longrightarrow> (i - next_page n) div 8 + 1 + next_page n div 8 = i div 8 + 1"
  "n \<le> j \<Longrightarrow> j < next_page n \<Longrightarrow> 0 < n \<and> j div 8 = (n - 1) div 8"
  "j < n \<Longrightarrow> j div 8 < next_page n div 8"
  "next_page n \<le> j \<longleftrightarrow> next_page n div 8 \<le> j div 8"
proof -
  obtain m where m: "next_page n = 8 * m" "n \<le> 8 * m" "8 * m < n + 8" using next_page_is by blast
  show "n \<le> next_page n" using m by simp
  show "(i - next_page n) div 8 + 1 + next_page n div 8 = i div 8 + 1" if "next_page n \<le> i"
  proof -
    have "i = 8 * m + (i - 8 * m)" using that m(1) by simp
    then have "i div 8 = (8 * m + (i - 8 * m)) div 8" by (rule arg_cong)
    then show ?thesis using m(1) by simp
  qed
  show "0 < n \<and> j div 8 = (n - 1) div 8" if "n \<le> j" "j < next_page n"
  proof -
    have "0 < m" using m that by (cases m) simp_all
    then obtain k where k: "m = Suc k" by (cases m) simp_all
    have b: "0 < n" "8 * k \<le> n - 1" "n - 1 < 8 * Suc k" "8 * k \<le> j" "j < 8 * Suc k"
      using m [unfolded k] that by simp_all
    then have "(n - 1) div 8 = k" "j div 8 = k" by (auto intro!: div_nat_eqI)
    with b show ?thesis by simp
  qed
  show "j div 8 < next_page n div 8" if "j < n"
    using that m by (simp add: less_mult_imp_div_less)
  show "next_page n \<le> j \<longleftrightarrow> next_page n div 8 \<le> j div 8"
    using m by (simp add: less_eq_div_iff_mult_less_eq mult.commute)
qed

lemma has_place_same: "i div 8 = j div 8 \<Longrightarrow> has_place ps i = has_place ps j"
  by (simp add: has_place_def)

lemma enlarged_index_keeps:
  "length ps \<le> length (enlarged_index i ps)"
  "has_place ps j \<Longrightarrow> has_place (enlarged_index i ps) j"
  "has_place ps j \<Longrightarrow> place_at (enlarged_index i ps) j = place_at ps j"
  by (auto simp: enlarged_index_def reallocate_index_def Let_def has_place_def place_at_def nth_append)

lemma enlarged_index_grows: "length ps * 8 = i \<Longrightarrow> i div 8 < length (enlarged_index i ps)"
  by (auto simp: enlarged_index_def reallocate_index_def Let_def)

lemma make_index_valid_outcome:
  assumes ok: "paged_ok a" and new: "paged_size a \<le> i"
  defines "ps \<equiv> enlarged_index i (paged_index a)"
  shows "if i div 8 < length ps
    then \<exists>b. make_index_valid i a = Inr b \<and> paged_ok b \<and> length (paged_index b) = length ps
      \<and> paged_elements b = paged_elements a @ replicate (i + 1 - paged_size a) null_value
    else make_index_valid i a = Inl Abort"
proof -
  let ?n = "paged_size a" and ?next = "next_page (paged_size a)"
  let ?made = "map (\<lambda>j. if ?next div 8 \<le> j \<and> j < i div 8 + 1 then Some (replicate 8 None) else ps ! j) [0..<length ps]"
  let ?step = "if ?next \<le> i then allocate_pages ((i - ?next) div 8 + 1) (?next div 8) ps else Inr ps"
  have step: "?step = (if ?next \<le> i \<and> \<not> i div 8 < length ps then Inl Abort else Inr ?made)"
  proof (cases "?next \<le> i")
    case True
    with next_page_facts(2) [of ?n i] show ?thesis by (auto simp: allocate_pages_outcome)
  next
    case False
    then have "\<not> ?next div 8 \<le> i div 8" using next_page_facts(5) [of ?n i] by simp
    then have "?made = ps" by (auto intro!: nth_equalityI)
    with False show ?thesis by simp
  qed
  have old: "has_place ps j \<and> place_at ps j = place_at (paged_index a) j" if "j < ?n" for j
    using ok that enlarged_index_keeps(2,3) unfolding ps_def paged_ok_def by blast
  have made_old: "has_place ?made j \<and> place_at ?made j = place_at (paged_index a) j" if "j < ?n" for j
  proof -
    have "\<not> ?next div 8 \<le> j div 8" using next_page_facts(4) [OF that] by simp
    with old [OF that] show ?thesis by (auto simp: has_place_def place_at_def)
  qed
  have made_new: "has_place ?made j" if "?n \<le> j" "j \<le> i" "i div 8 < length ps" for j
  proof (cases "?next \<le> j")
    case True
    then have "?next div 8 \<le> j div 8" "j div 8 \<le> i div 8"
      using next_page_facts(5) [of ?n j] that by (simp_all add: div_le_mono)
    then show ?thesis using that(3) by (simp add: has_place_def)
  next
    case False
    then have "0 < ?n" "j div 8 = (?n - 1) div 8" using next_page_facts(3) [of ?n j] that(1) by simp_all
    then show ?thesis using made_old [of "?n - 1"] has_place_same [of j "?n - 1" ?made] by simp
  qed
  show ?thesis
  proof (cases "i div 8 < length ps")
    case True
    have "\<forall>j. ?n \<le> j \<and> j < ?n + (i + 1 - ?n) \<longrightarrow> has_place ?made j"
      using made_new True new by (metis (no_types, lifting) le_add_diff_inverse less_Suc_eq_le Suc_eq_plus1 le_SucI)
    from construct_nulls_outcome [OF this] new obtain qs where
      qs: "construct_nulls (i + 1 - ?n) ?n ?made = Inr qs" "length qs = length ?made" "\<And>j. has_place qs j = has_place ?made j"
        "\<And>j. place_at qs j = (if ?n \<le> j \<and> j < i + 1 then Inr null_value else place_at ?made j)" by auto
    let ?b = "\<lparr>paged_index = qs, paged_size = i + 1\<rparr>"
    have "make_index_valid i a = Inr ?b"
      using True qs(1) step unfolding make_index_valid_def ps_def by (simp add: Let_def)
    moreover have "paged_ok ?b"
      using ok qs(3,4) made_old made_new True by (auto simp: paged_ok_def not_le)
    moreover have "paged_elements ?b = paged_elements a @ replicate (i + 1 - ?n) null_value"
    proof (rule nth_equalityI)
      fix j assume "j < length (paged_elements ?b)"
      then show "paged_elements ?b ! j = (paged_elements a @ replicate (i + 1 - ?n) null_value) ! j"
        using new qs(4) [of j] made_old [of j]
        by (cases "j < ?n") (simp_all add: paged_elements_nth nth_append value_at_def del: upt_Suc)
    qed (use new in simp)
    ultimately show ?thesis using True qs(2) by auto
  next
    case False
    have "?next \<le> i"
    proof (rule ccontr)
      assume "\<not> ?next \<le> i"
      then have "0 < ?n" "i div 8 = (?n - 1) div 8" using next_page_facts(3) [OF new] by simp_all
      then show False using old [of "?n - 1"] False by (simp add: has_place_def)
    qed
    with False step show ?thesis unfolding make_index_valid_def ps_def by (simp add: Let_def)
  qed
qed

text \<open>Appending never fails and appends; what lies further away is in memory only by luck.\<close>

lemma paged_ok_new: "paged_ok new_paged" "paged_elements new_paged = []"
  by (simp_all add: paged_ok_def new_paged_def paged_elements_def)

lemma paged_find_is_nth:
  "paged_ok a \<Longrightarrow> paged_find i a = Inr (if i < paged_size a then Some (paged_elements a ! i) else None)"
  by (simp add: paged_find_def place_value)

lemma assign_in_place:
  assumes "paged_ok a" "i < paged_size a"
  shows "\<exists>b. paged_assign i x a = Inr b \<and> paged_ok b \<and> paged_size b = paged_size a
    \<and> paged_elements b = (paged_elements a)[i := assign_value (paged_elements a ! i) x]"
proof -
  let ?v = "assign_value (paged_elements a ! i) x"
  have "has_place (paged_index a) i" using assms by (simp add: paged_ok_def)
  from construct_place_outcome [OF this, of ?v] obtain qs where
    qs: "construct_place ?v i (paged_index a) = Inr qs" "\<And>j. has_place qs j = has_place (paged_index a) j"
      "\<And>j. place_at qs j = (if j = i then Inr ?v else place_at (paged_index a) j)" by blast
  let ?b = "a\<lparr>paged_index := qs\<rparr>"
  have "paged_assign i x a = Inr ?b"
    using assms qs(1) by (simp add: paged_assign_def resolve_index_def place_value)
  moreover have "paged_ok ?b" using assms(1) qs(2,3) by (simp add: paged_ok_def)
  moreover have "paged_elements ?b = (paged_elements a)[i := ?v]"
    using assms(2) qs(3) by (intro nth_equalityI) (simp_all add: paged_elements_nth nth_list_update value_at_def)
  ultimately show ?thesis by auto
qed

lemma append_is_append:
  assumes "paged_ok a"
  shows "\<exists>b. paged_assign (paged_size a) x a = Inr b \<and> paged_ok b \<and> paged_elements b = paged_elements a @ [assign_value null_value x]"
proof -
  let ?n = "paged_size a"
  have "?n div 8 < length (enlarged_index ?n (paged_index a))"
  proof (cases "?n < length (paged_index a) * 8")
    case True
    then show ?thesis using enlarged_index_keeps(1) [of "paged_index a" ?n] by (simp add: less_mult_imp_div_less order_less_le_trans)
  next
    case False
    have "length (paged_index a) * 8 = ?n"
    proof (rule ccontr)
      assume "length (paged_index a) * 8 \<noteq> ?n"
      then have "has_place (paged_index a) (length (paged_index a) * 8)" using assms False by (simp add: paged_ok_def)
      then show False by (simp add: has_place_def)
    qed
    then show ?thesis by (rule enlarged_index_grows)
  qed
  with make_index_valid_outcome [OF assms, of ?n] obtain b where
    b: "make_index_valid ?n a = Inr b" "paged_ok b" "paged_elements b = paged_elements a @ [null_value]" by auto
  then have "paged_size b = Suc ?n" by (metis paged_elements_length length_append_singleton)
  with assign_in_place [OF b(2), of ?n x] obtain c where "paged_assign ?n x b = Inr c" "paged_ok c"
      "paged_elements c = (paged_elements b)[?n := assign_value (paged_elements b ! ?n) x]" by auto
  moreover have "paged_assign ?n x a = paged_assign ?n x b"
    using b(1) \<open>paged_size b = Suc ?n\<close> by (simp add: paged_assign_def resolve_index_def)
  ultimately show ?thesis using b(3) by (simp add: nth_append list_update_append)
qed

fun append_all :: "jvalue list \<Rightarrow> paged \<Rightarrow> exn + paged" where
  "append_all [] a = Inr a"
| "append_all (x # xs) a = (case paged_assign (paged_size a) x a of Inl e \<Rightarrow> Inl e | Inr b \<Rightarrow> append_all xs b)"

lemma paged_array_refines_list:
  "paged_ok a \<Longrightarrow> \<exists>b. append_all xs a = Inr b \<and> paged_ok b \<and> paged_elements b = paged_elements a @ map (assign_value null_value) xs"
proof (induction xs arbitrary: a)
  case (Cons x xs)
  from append_is_append [OF Cons.prems] obtain b where
    "paged_assign (paged_size a) x a = Inr b" "paged_ok b" "paged_elements b = paged_elements a @ [assign_value null_value x]" by blast
  with Cons.IH [of b] show ?case by auto
qed simp

text \<open>
  The number of pages that the index is enlarged to is rounded down: the first value past the pages
  of an empty array is written behind the index.
\<close>

lemma far_index_is_behind_the_index:
  assumes "paged_ok a" "length (paged_index a) * 3 div 2 + 1 \<le> i div 8" "i mod 8 \<noteq> 7" "paged_size a \<le> i"
  shows "paged_assign i x a = Inl Abort"
proof -
  have "(i + 1) div 8 = i div 8"
  proof -
    have step: "(8 * q + r + 1) div 8 = q" if "r + 1 < 8" for q r :: nat
      using that by (intro div_nat_eqI) simp_all
    have "i mod 8 + 1 < 8" using assms(3) mod_less_divisor [of 8 i] by simp
    from step [OF this, of "i div 8"] show ?thesis by simp
  qed
  moreover have "length (paged_index a) * 8 \<le> i"
    using assms(2) by (simp add: less_eq_div_iff_mult_less_eq [symmetric])
  ultimately have "length (enlarged_index i (paged_index a)) \<le> i div 8"
    using assms(2) by (simp add: enlarged_index_def reallocate_index_def Let_def)
  with make_index_valid_outcome [OF assms(1,4)] have "make_index_valid i a = Inl Abort" by auto
  with assms(4) show ?thesis by (simp add: paged_assign_def resolve_index_def)
qed

lemma ninth_value_of_an_empty_array: "paged_assign 8 x new_paged = Inl Abort"
  by (rule far_index_is_behind_the_index) (simp_all add: paged_ok_new new_paged_def paged_ok_def)

text \<open>\<open>resize\<close> to a larger size makes the array one larger than that.\<close>

lemma resize_grows_too_far:
  assumes "paged_ok a" "paged_size a < n" "n div 8 < length (enlarged_index n (paged_index a))"
  shows "\<exists>b. resize_paged n a = Inr b \<and> paged_ok b \<and> paged_size b = n + 1
    \<and> paged_elements b = paged_elements a @ replicate (n + 1 - paged_size a) null_value"
proof -
  from make_index_valid_outcome [OF assms(1), of n] assms(2,3) obtain b where
    b: "make_index_valid n a = Inr b" "paged_ok b" "paged_elements b = paged_elements a @ replicate (n + 1 - paged_size a) null_value"
    by auto
  have "paged_size b = n + 1" using arg_cong [OF b(3), of length] assms(2) by simp
  with b assms(2) show ?thesis by (simp add: resize_paged_def resolve_index_def)
qed

lemma destroy_values_outcome:
  assumes "\<forall>j. i \<le> j \<and> j < i + n \<longrightarrow> (\<exists>v. place_at ps j = Inr v)"
  shows "\<exists>qs. destroy_values n i ps = Inr qs \<and> length qs = length ps \<and> (\<forall>j. has_place qs j = has_place ps j)
    \<and> (\<forall>k<length ps. (qs ! k = None) = (ps ! k = None))
    \<and> (\<forall>j. \<not> (i \<le> j \<and> j < i + n) \<longrightarrow> place_at qs j = place_at ps j)"
  using assms
proof (induction n arbitrary: i ps)
  case (Suc n)
  obtain v where v: "place_at ps i = Inr v" using Suc.prems [rule_format, of i] by auto
  then obtain p where p: "i div 8 < length ps" "ps ! (i div 8) = Some p"
    by (auto simp: place_at_def split: if_splits option.splits)
  let ?rs = "ps[i div 8 := map_option (\<lambda>p. p[i mod 8 := None]) (ps ! (i div 8))]"
  have rs: "place_at ?rs j = place_at ps j" if "j \<noteq> i" for j
    using p other_place [of i j] that by (cases "j div 8 = i div 8") (auto simp: place_at_def nth_list_update)
  have has: "has_place ?rs j = has_place ps j" "k < length ps \<Longrightarrow> (?rs ! k = None) = (ps ! k = None)" for j k
    using p by (auto simp: has_place_def nth_list_update)
  have "\<forall>j. Suc i \<le> j \<and> j < Suc i + n \<longrightarrow> (\<exists>v. place_at ?rs j = Inr v)" using Suc.prems rs by simp
  from Suc.IH [OF this] obtain qs where "destroy_values n (Suc i) ?rs = Inr qs" "length qs = length ps"
      "\<forall>j. has_place qs j = has_place ?rs j" "\<forall>k<length ps. (qs ! k = None) = (?rs ! k = None)"
      "\<forall>j. \<not> (Suc i \<le> j \<and> j < Suc i + n) \<longrightarrow> place_at qs j = place_at ?rs j" by auto
  then show ?case using v has rs by auto
qed simp

lemma release_pages_nth:
  "k < length ps \<Longrightarrow> release_pages m n ps ! k = (if m \<le> k \<and> k < n then None else ps ! k)"
  "length (release_pages m n ps) = length ps"
  by (simp_all add: release_pages_def)

text \<open>To a smaller size, it keeps the first values.\<close>

lemma paged_shrinks:
  assumes "paged_ok a" "0 < n" "n < paged_size a"
  shows "\<exists>b. resize_paged n a = Inr b \<and> paged_ok b \<and> paged_elements b = take n (paged_elements a)"
proof -
  have "\<forall>j. n \<le> j \<and> j < n + (paged_size a - n) \<longrightarrow> (\<exists>v. place_at (paged_index a) j = Inr v)"
    using assms(1,3) by (simp add: paged_ok_def)
  from destroy_values_outcome [OF this] assms(3) obtain qs where
    qs: "destroy_values (paged_size a - n) n (paged_index a) = Inr qs" "\<And>j. has_place qs j = has_place (paged_index a) j"
      "\<And>j. j < n \<Longrightarrow> place_at qs j = place_at (paged_index a) j" by auto
  let ?ps = "release_pages ((n + 7) div 8) (paged_size a div 8) qs"
  have keep: "has_place ?ps j = has_place qs j \<and> place_at ?ps j = place_at qs j" if "j < n" for j
  proof -
    have "j div 8 < (n + 7) div 8"
    proof (rule ccontr)
      assume "\<not> ?thesis"
      then have "(n + 7) div 8 \<le> j div 8" by simp
      moreover have "j div 8 + 1 = (j + 8) div 8" by simp
      moreover have "(j + 8) div 8 \<le> (n + 7) div 8" using that by (intro div_le_mono) simp
      ultimately show False by simp
    qed
    then show ?thesis
      by (cases "j div 8 < length qs") (simp_all add: has_place_def place_at_def release_pages_nth)
  qed
  let ?b = "\<lparr>paged_index = ?ps, paged_size = n\<rparr>"
  have "paged_ok ?b" using assms(1,3) keep qs(2,3) by (simp add: paged_ok_def)
  moreover have "paged_elements ?b = take n (paged_elements a)"
    using assms(3) keep qs(3) by (intro nth_equalityI) (simp_all add: paged_elements_nth value_at_def)
  moreover have "resize_paged n a = Inr ?b" using assms(2,3) qs(1) by (simp add: resize_paged_def)
  ultimately show ?thesis by blast
qed

text \<open>The page in which an array ends is not released with it, unless the array fills it.\<close>

lemma last_page_is_lost:
  assumes "paged_ok a" "paged_size a mod 8 \<noteq> 0"
  shows "\<exists>ps. destruct_paged a = Inr ps \<and> ps ! (paged_size a div 8) \<noteq> None"
proof -
  let ?n = "paged_size a"
  have "\<forall>j. 0 \<le> j \<and> j < 0 + ?n \<longrightarrow> (\<exists>v. place_at (paged_index a) j = Inr v)"
    using assms(1) by (simp add: paged_ok_def)
  from destroy_values_outcome [OF this] obtain qs where
    qs: "destroy_values ?n 0 (paged_index a) = Inr qs" "length qs = length (paged_index a)"
      "\<forall>j. has_place qs j = has_place (paged_index a) j" by auto
  have "8 * (?n div 8) < ?n" using assms(2) by (metis mult_div_mod_eq less_add_same_cancel1 neq0_conv)
  then have "has_place qs (8 * (?n div 8))" using assms(1) qs(3) by (simp add: paged_ok_def)
  then show ?thesis using qs(1,2) by (auto simp: destruct_paged_def has_place_def release_pages_nth)
qed

section \<open>Copies, comparison and iterators\<close>

text \<open>
  A copy has a value in the first place of each page and none in the others, so that it can be read,
  and destroyed, only when the array had at most one value.
\<close>

lemma copy_values_leave_gaps:
  assumes "copy_values n i src ps = Inr qs" "\<forall>j. j mod 8 \<noteq> 0 \<longrightarrow> place_at ps j = Inl Abort" "\<forall>k<length ps. \<forall>p. ps ! k = Some p \<longrightarrow> length p = 8"
  shows "\<forall>j. j mod 8 \<noteq> 0 \<longrightarrow> place_at qs j = Inl Abort"
  using assms
proof (induction n arbitrary: i ps)
  case (Suc n)
  let ?gaps = "\<lambda>ps. (\<forall>j. j mod 8 \<noteq> 0 \<longrightarrow> place_at ps j = Inl Abort) \<and> (\<forall>k<length ps. \<forall>p. ps ! k = Some p \<longrightarrow> length p = 8)"
  from Suc.prems(1) obtain rs v ts where
    step: "(if i mod 8 = 0 then allocate_pages 1 (i div 8) ps else Inr ps) = Inr rs"
      "construct_place v (i div 8 * 8) rs = Inr ts" "copy_values n (Suc i) src ts = Inr qs"
    by (auto split: sum.splits if_splits)
  have "?gaps rs"
    using step(1) Suc.prems(2,3)
    by (auto simp: place_at_def nth_list_update split: if_splits)
  moreover from this obtain p where p: "i div 8 < length rs" "rs ! (i div 8) = Some p" "length p = 8"
      "ts = rs[i div 8 := Some (p[0 := Some v])]"
    using step(2) by (auto simp: construct_place_def split: if_splits option.splits)
  moreover have "has_place rs (i div 8 * 8)" using p by (simp add: has_place_def)
  then have "place_at ts j = place_at rs j" if "j mod 8 \<noteq> 0" for j
    using construct_place_outcome [of rs "i div 8 * 8" v] step(2) that by auto
  ultimately have "?gaps ts"
    by (auto simp: nth_list_update)
  with Suc.IH [OF step(3)] show ?case by blast
qed simp

lemma copy_of_two_has_no_second:
  assumes "copy_paged a = Inr b" "2 \<le> paged_size a"
  shows "paged_find 1 b = Inl Abort" "destruct_paged b = Inl Abort"
proof -
  let ?ps = "reallocate_index (paged_size a div 8) []"
  have "?ps ! k = None" if "k < length ?ps" for k using that by (simp add: reallocate_index_def Let_def)
  then have none: "\<forall>j. j mod 8 \<noteq> 0 \<longrightarrow> place_at ?ps j = Inl Abort" "\<forall>k<length ?ps. \<forall>p. ?ps ! k = Some p \<longrightarrow> length p = 8"
    by (simp_all add: place_at_def)
  from assms(1) have b: "copy_values (paged_size a) 0 (paged_index a) ?ps = Inr (paged_index b)" "paged_size b = paged_size a"
    by (auto simp: copy_paged_def split: sum.splits)
  from copy_values_leave_gaps [OF b(1) none] have one: "place_at (paged_index b) 1 = Inl Abort" by simp
  then show "paged_find 1 b = Inl Abort" using assms(2) b(2) by (simp add: paged_find_def)
  obtain m where m: "paged_size b = Suc (Suc m)" using assms(2) b(2) by (metis add_2_eq_Suc le_Suc_ex)
  let ?qs = "(paged_index b)[0 := map_option (\<lambda>p. p[0 := None]) (paged_index b ! 0)]"
  have "place_at ?qs 1 = Inl Abort"
    using one by (cases "paged_index b") (auto simp: place_at_def split: option.splits)
  then show "destruct_paged b = Inl Abort"
    by (auto simp: destruct_paged_def m split: sum.splits)
       (auto simp: place_at_def split: if_splits option.splits)
qed

text \<open>Two arrays of a length are equal, whatever they hold.\<close>

lemma compare_places_zero:
  "(\<forall>j. i \<le> j \<and> j < i + n \<longrightarrow> (\<exists>v w. place_at ps j = Inr v \<and> place_at qs j = Inr w)) \<Longrightarrow> compare_places n i ps qs = Inr 0"
proof (induction n arbitrary: i)
  case (Suc n)
  obtain v w where "place_at ps i = Inr v" "place_at qs i = Inr w" using Suc.prems [rule_format, of i] by auto
  with Suc show ?case by (simp add: compare_values_def)
qed simp

lemma arrays_compare_by_size:
  assumes "paged_ok a" "paged_ok b"
  shows "compare_paged a b = Inr (int (paged_size a) - int (paged_size b))"
proof (cases "paged_size a = paged_size b")
  case True
  then have "compare_places (paged_size a) 0 (paged_index a) (paged_index b) = Inr 0"
    using assms by (intro compare_places_zero) (auto simp: paged_ok_def)
  with True show ?thesis by (simp add: compare_paged_def)
qed (simp add: compare_paged_def)

text \<open>An iterator visits the values in order, but does not go back.\<close>

lemma iterator_place: "paged_index_of (iterator_at i) = int i"
  by (simp add: iterator_at_def zdiv_int zmod_int)

lemma iterator_steps: "i < paged_size a \<Longrightarrow> paged_increment a (iterator_at i) = Inr (iterator_at (Suc i))"
  using iterator_place [of i] by (auto simp: iterator_at_def mod_Suc div_Suc)

lemma iterator_stops: "paged_increment a (iterator_at (paged_size a)) = Inl Abort"
  using iterator_place [of "paged_size a"] by (simp add: iterator_at_def)

lemma iterator_reads:
  "paged_ok a \<Longrightarrow> i < paged_size a \<Longrightarrow> paged_dereference a (iterator_at i) = Inr (paged_elements a ! i)"
  by (simp add: paged_dereference_def iterator_place place_value)

lemma iterator_distance: "paged_distance (iterator_at i) (iterator_at j) = int j - int i"
  by (simp add: paged_distance_def iterator_place)

lemma iterator_does_not_go_back:
  "0 < i \<Longrightarrow> paged_decrement (iterator_at i) = Inl Abort" "paged_decrement (iterator_at 0) = Inr (- 1, 7)"
  using mult_div_mod_eq [of 8 i] by (auto simp: iterator_at_def)

end
