(* ===== verification/Json_Maps.thy ===== *)
theory Json_Maps
  imports Json_Arrays
begin

text \<open>
  The hash map of \<open>libs/json/json_internalmap.inl\<close>, which takes the place of the ordered map in an
  object when the library is built with \<open>JSON_VALUE_USE_INTERNAL_MAP\<close>. Access outside of allocated
  memory is \<open>Abort\<close>. A bucket is a chain of links with six items each. \<open>reserve\<close> is the only place that
  makes buckets, and it makes one; the model holds the chain of that one, empty when there is none,
  so that \<open>bucketsSize_\<close> is 0 or 1, and \<open>tailLink_\<close> is the end of the chain. Keys are C strings: lists
  without the NUL character.
\<close>

section \<open>Links\<close>

record item =
  item_used :: bool
  item_static :: bool
  item_value :: jvalue
  item_key :: string

record link =
  link_items :: "item list"
  link_previous :: "nat option"

definition free_item :: item where
  "free_item = \<lparr>item_used = False, item_static = False, item_value = null_value, item_key = []\<rparr>"

definition new_link :: link where
  "new_link = \<lparr>link_items = replicate 6 free_item, link_previous = None\<rparr>"

record hash_map =
  map_chain :: "link list"
  map_count :: nat

definition new_map :: hash_map where
  "new_map = \<lparr>map_chain = [], map_count = 0\<rparr>"

definition buckets_size :: "hash_map \<Rightarrow> nat" where
  "buckets_size m = (if map_chain m = [] then 0 else 1)"

text \<open>\<open>hash\<close>: characters are signed, the sum is of 32 bits.\<close>

definition signed_char :: "char \<Rightarrow> int" where
  "signed_char c = (let n = of_char c :: int in if n < 128 then n else n - 256)"

fun map_hash :: "32 word \<Rightarrow> string \<Rightarrow> 32 word" where
  "map_hash h [] = h"
| "map_hash h (c # cs) = map_hash (h + word_of_int (signed_char c * 37)) cs"

definition bucket_of :: "hash_map \<Rightarrow> string \<Rightarrow> nat" where
  "bucket_of m key = unat (map_hash 0 key) mod buckets_size m"

section \<open>Looking up and adding\<close>

text \<open>The walk that \<open>find\<close>, \<open>resolveReference\<close> and \<open>remove\<close> share: link by link and item by item.\<close>

datatype probe = At nat nat | Available nat nat | Exhausted

fun probe_items :: "string \<Rightarrow> nat \<Rightarrow> nat \<Rightarrow> item list \<Rightarrow> probe" where
  "probe_items key l i [] = Exhausted"
| "probe_items key l i (x # xs) =
     (if \<not> item_used x then Available l i
      else if key = item_key x then At l i
      else probe_items key l (Suc i) xs)"

fun probe_chain :: "string \<Rightarrow> nat \<Rightarrow> link list \<Rightarrow> probe" where
  "probe_chain key l [] = Exhausted"
| "probe_chain key l (k # ks) =
     (case probe_items key l 0 (link_items k) of
        Exhausted \<Rightarrow> probe_chain key (Suc l) ks
      | r \<Rightarrow> r)"

definition item_at :: "hash_map \<Rightarrow> nat \<Rightarrow> nat \<Rightarrow> item" where
  "item_at m l i = link_items (map_chain m ! l) ! i"

definition set_item :: "nat \<Rightarrow> nat \<Rightarrow> item \<Rightarrow> hash_map \<Rightarrow> hash_map" where
  "set_item l i x m =
     m\<lparr>map_chain := (map_chain m)[l := (map_chain m ! l)\<lparr>link_items := (link_items (map_chain m ! l))[i := x]\<rparr>]\<rparr>"

definition map_find_value :: "string \<Rightarrow> hash_map \<Rightarrow> jvalue option" where
  "map_find_value key m =
     (if buckets_size m = 0 then None
      else case probe_chain key 0 (map_chain m) of At l i \<Rightarrow> Some (item_value (item_at m l i)) | _ \<Rightarrow> None)"

definition map_reserve :: "nat \<Rightarrow> hash_map \<Rightarrow> hash_map" where
  "map_reserve n m = (if map_chain m = [] \<and> n > 0 then m\<lparr>map_chain := [new_link]\<rparr> else m)"

definition set_new_item :: "string \<Rightarrow> bool \<Rightarrow> nat \<Rightarrow> nat \<Rightarrow> hash_map \<Rightarrow> hash_map" where
  "set_new_item key static l i m =
     set_item l i ((item_at m l i)\<lparr>item_key := key, item_used := True, item_static := static\<rparr>) (m\<lparr>map_count := map_count m + 1\<rparr>)"

text \<open>
  \<open>getLastLinkInBucket\<close>: the chain's last link for the last bucket; for any other number it reads the
  bucket after it, which is outside of an array of one bucket.
\<close>

definition last_link_in_bucket :: "nat \<Rightarrow> hash_map \<Rightarrow> exn + nat" where
  "last_link_in_bucket b m =
     (if int b = int (buckets_size m) - 1 then Inr (length (map_chain m) - 1) else Inl Abort)"

fun first_available :: "nat \<Rightarrow> item list \<Rightarrow> nat" where
  "first_available i [] = i"
| "first_available i (x # xs) = (if \<not> item_used x then i else first_available (Suc i) xs)"

text \<open>The operations that return a reference return the place of the item beside the map.\<close>

definition unsafe_add :: "string \<Rightarrow> bool \<Rightarrow> hash_map \<Rightarrow> exn + (nat \<times> nat) \<times> hash_map" where
  "unsafe_add key static m =
     (if buckets_size m = 0 then Inl Abort
      else case last_link_in_bucket (bucket_of m key) m of
        Inl e \<Rightarrow> Inl e
      | Inr l \<Rightarrow>
          let i = first_available 0 (link_items (map_chain m ! l)) in
          if i = 6 then
            let m' = m\<lparr>map_chain := map_chain m @ [new_link]\<rparr> in
            Inr ((Suc l, 0), set_new_item key static (Suc l) 0 m')
          else Inr ((l, i), set_new_item key static l i m))"

definition resolve_key :: "string \<Rightarrow> bool \<Rightarrow> hash_map \<Rightarrow> exn + (nat \<times> nat) \<times> hash_map" where
  "resolve_key key static m =
     (case (if buckets_size m = 0 then Exhausted else probe_chain key 0 (map_chain m)) of
        At l i \<Rightarrow> Inr ((l, i), m)
      | Available l i \<Rightarrow> Inr ((l, i), set_new_item key static l i m)
      | Exhausted \<Rightarrow> unsafe_add key static (map_reserve (map_count m + 1) m))"

text \<open>\<open>m[key] = x\<close>\<close>

definition map_assign :: "string \<Rightarrow> jvalue \<Rightarrow> hash_map \<Rightarrow> exn + hash_map" where
  "map_assign key x m =
     (case resolve_key key False m of
        Inl e \<Rightarrow> Inl e
      | Inr ((l, i), m') \<Rightarrow>
          Inr (set_item l i ((item_at m' l i)\<lparr>item_value := assign_value (item_value (item_at m' l i)) x\<rparr>) m'))"

section \<open>Removing\<close>

text \<open>
  \<open>doActualRemove\<close>. It passes the place in the link where the number of the bucket is asked for. Values are
  swapped without their comments; keys are not swapped.
\<close>

fun last_used :: "nat \<Rightarrow> item list \<Rightarrow> nat" where
  "last_used i [] = i"
| "last_used i (x # xs) = (if \<not> item_used x then i else last_used (Suc i) xs)"

definition swap_values :: "nat \<times> nat \<Rightarrow> nat \<times> nat \<Rightarrow> hash_map \<Rightarrow> hash_map" where
  "swap_values a b m =
     (let x = item_at m (fst a) (snd a); y = item_at m (fst b) (snd b);
          m' = set_item (fst a) (snd a) (x\<lparr>item_value := assign_value (item_value x) (item_value y)\<rparr>) m in
      set_item (fst b) (snd b) (y\<lparr>item_value := assign_value (item_value y) (item_value x)\<rparr>) m')"

definition do_actual_remove :: "nat \<Rightarrow> nat \<Rightarrow> hash_map \<Rightarrow> exn + hash_map" where
  "do_actual_remove l i m =
     (case last_link_in_bucket i m of
        Inl e \<Rightarrow> Inl e
      | Inr t \<Rightarrow>
          let u = last_used 1 (tl (link_items (map_chain m ! t))) - 1;
              m1 = (if (l, i) \<noteq> (t, u) then swap_values (l, i) (t, u) m else m);
              m2 = (if u = 0 then
                      (case link_previous (map_chain m1 ! t) of
                         None \<Rightarrow> m1
                       | Some p \<Rightarrow> m1\<lparr>map_chain := take (Suc p) (map_chain m1)\<rparr>)
                    else
                      let x = item_at m1 t u in
                      set_item t u (x\<lparr>item_value := assign_value (item_value x) null_value, item_used := False\<rparr>) m1)
          in Inr (m2\<lparr>map_count := map_count m2 - 1\<rparr>))"

definition map_remove :: "string \<Rightarrow> hash_map \<Rightarrow> exn + hash_map" where
  "map_remove key m =
     (if buckets_size m = 0 then Inr m
      else case probe_chain key 0 (map_chain m) of At l i \<Rightarrow> do_actual_remove l i m | _ \<Rightarrow> Inr m)"

section \<open>Iterators\<close>

record map_iterator =
  it_link :: "nat option"
  it_item :: nat
  it_bucket :: nat

definition map_begin :: "hash_map \<Rightarrow> map_iterator" where
  "map_begin m = \<lparr>it_link = (if map_chain m = [] then None else Some 0), it_item = 0, it_bucket = 0\<rparr>"

definition map_end :: "hash_map \<Rightarrow> map_iterator" where
  "map_end m = \<lparr>it_link = None, it_item = 0, it_bucket = buckets_size m\<rparr>"

definition increment_bucket :: "hash_map \<Rightarrow> map_iterator \<Rightarrow> exn + map_iterator" where
  "increment_bucket m it =
     (let b = it_bucket it + 1 in
      if \<not> b \<le> buckets_size m then Inl Abort
      else if b = buckets_size m then Inr \<lparr>it_link = None, it_item = 0, it_bucket = b\<rparr>
      else Inr \<lparr>it_link = Some 0, it_item = 0, it_bucket = b\<rparr>)"

definition map_increment :: "hash_map \<Rightarrow> map_iterator \<Rightarrow> exn + map_iterator" where
  "map_increment m it =
     (case it_link it of
        None \<Rightarrow> Inl Abort
      | Some l \<Rightarrow>
          let i = it_item it + 1 in
          if i > 6 then Inl Abort
          else if i = 6 then
            if Suc l = length (map_chain m) then increment_bucket m (it\<lparr>it_item := i, it_link := None\<rparr>)
            else Inr (it\<lparr>it_item := i, it_link := Some (Suc l)\<rparr>)
          else if \<not> item_used (item_at m l i) then increment_bucket m (it\<lparr>it_item := i\<rparr>)
          else Inr (it\<lparr>it_item := i\<rparr>))"

definition map_key :: "hash_map \<Rightarrow> map_iterator \<Rightarrow> exn + string" where
  "map_key m it = (case it_link it of None \<Rightarrow> Inl Abort | Some l \<Rightarrow>
     if it_item it < 6 then Inr (item_key (item_at m l (it_item it))) else Inl Abort)"

text \<open>
  \<open>compare\<close>: first all keys, then all values, each in a walk over the first map. What the iterator reads
  outside of a link is \<open>Abort\<close>; \<open>None\<close> is that the fuel ran out.
\<close>

definition map_value :: "hash_map \<Rightarrow> map_iterator \<Rightarrow> exn + jvalue" where
  "map_value m it = (case it_link it of None \<Rightarrow> Inl Abort | Some l \<Rightarrow>
     if it_item it < 6 then Inr (item_value (item_at m l (it_item it))) else Inl Abort)"

fun compare_keys :: "nat \<Rightarrow> hash_map \<Rightarrow> map_iterator \<Rightarrow> hash_map \<Rightarrow> (exn + int) option" where
  "compare_keys 0 m it other = None"
| "compare_keys (Suc n) m it other =
     (if it = map_end m then Some (Inr 0)
      else case map_key m it of
        Inl e \<Rightarrow> Some (Inl e)
      | Inr key \<Rightarrow>
          if map_find_value key other = None then Some (Inr 1)
          else (case map_increment m it of Inl e \<Rightarrow> Some (Inl e) | Inr it' \<Rightarrow> compare_keys n m it' other))"

fun compare_map_values :: "nat \<Rightarrow> hash_map \<Rightarrow> map_iterator \<Rightarrow> hash_map \<Rightarrow> (exn + int) option" where
  "compare_map_values 0 m it other = None"
| "compare_map_values (Suc n) m it other =
     (if it = map_end m then Some (Inr 0)
      else case map_key m it of
        Inl e \<Rightarrow> Some (Inl e)
      | Inr key \<Rightarrow>
          (case (map_value m it, map_find_value key other) of
             (Inr v, Some w) \<Rightarrow>
               if compare_values v w \<noteq> 0 then Some (Inr (compare_values v w))
               else (case map_increment m it of Inl e \<Rightarrow> Some (Inl e) | Inr it' \<Rightarrow> compare_map_values n m it' other)
           | _ \<Rightarrow> Some (Inl Abort)))"

definition compare_map :: "nat \<Rightarrow> hash_map \<Rightarrow> hash_map \<Rightarrow> (exn + int) option" where
  "compare_map n m other =
     (if int (map_count m) - int (map_count other) \<noteq> 0 then Some (Inr (int (map_count m) - int (map_count other)))
      else case compare_keys n m (map_begin m) other of
        Some (Inr d) \<Rightarrow> if d \<noteq> 0 then Some (Inr d) else compare_map_values n m (map_begin m) other
      | r \<Rightarrow> r)"

text \<open>The keys an iterator visits, in order; \<open>None\<close> when the fuel runs out.\<close>

fun map_walk :: "nat \<Rightarrow> hash_map \<Rightarrow> map_iterator \<Rightarrow> (exn + string list) option" where
  "map_walk 0 m it = None"
| "map_walk (Suc n) m it =
     (if it = map_end m then Some (Inr [])
      else case map_key m it of
        Inl e \<Rightarrow> Some (Inl e)
      | Inr key \<Rightarrow>
          (case map_increment m it of
             Inl e \<Rightarrow> Some (Inl e)
           | Inr it' \<Rightarrow>
               (case map_walk n m it' of Some (Inr ks) \<Rightarrow> Some (Inr (key # ks)) | r \<Rightarrow> r)))"

section \<open>What the maps promise\<close>

text \<open>The entries of a map stand in its chain in order, six in each link.\<close>

definition chain_item :: "link list \<Rightarrow> nat \<Rightarrow> item" where
  "chain_item ks j = link_items (ks ! (j div 6)) ! (j mod 6)"

definition item_holds :: "item \<Rightarrow> string \<times> jvalue \<Rightarrow> bool" where
  "item_holds x e \<longleftrightarrow> item_used x \<and> item_key x = fst e \<and> item_value x = snd e"

definition chain_holds :: "link list \<Rightarrow> (string \<times> jvalue) list \<Rightarrow> bool" where
  "chain_holds ks es \<longleftrightarrow>
     length es \<le> 6 * length ks \<and> 6 * length ks < length es + 6 + (if length ks = 1 then 1 else 0)
     \<and> (\<forall>k\<in>set ks. length (link_items k) = 6 \<and> link_previous k = None)
     \<and> (\<forall>j<length es. item_holds (chain_item ks j) (es ! j))
     \<and> (\<forall>j. length es \<le> j \<and> j < 6 * length ks \<longrightarrow>
          \<not> item_used (chain_item ks j) \<and> held (item_value (chain_item ks j)) = HNull)"

definition map_holds :: "hash_map \<Rightarrow> (string \<times> jvalue) list \<Rightarrow> bool" where
  "map_holds m es \<longleftrightarrow> chain_holds (map_chain m) es \<and> map_count m = length es \<and> distinct (map fst es)"

definition entry_place :: "string \<Rightarrow> (string \<times> jvalue) list \<Rightarrow> nat" where
  "entry_place key es = length (takeWhile (\<lambda>e. fst e \<noteq> key) es)"

lemma entry_place_cases:
  "entry_place key es \<le> length es"
  "entry_place key es < length es \<Longrightarrow> fst (es ! entry_place key es) = key"
  "j < entry_place key es \<Longrightarrow> fst (es ! j) \<noteq> key"
  "entry_place key es < length es \<longleftrightarrow> key \<in> fst ` set es"
proof -
  show le: "entry_place key es \<le> length es" by (simp add: entry_place_def length_takeWhile_le)
  show hit: "entry_place key es < length es \<Longrightarrow> fst (es ! entry_place key es) = key"
    using nth_length_takeWhile [of "\<lambda>e. fst e \<noteq> key" es] by (simp add: entry_place_def)
  show miss: "j < entry_place key es \<Longrightarrow> fst (es ! j) \<noteq> key" for j
    using nth_mem [of j "takeWhile (\<lambda>e. fst e \<noteq> key) es"] takeWhile_nth [of j "\<lambda>e. fst e \<noteq> key" es]
    by (auto simp: entry_place_def dest: set_takeWhileD)
  show "entry_place key es < length es \<longleftrightarrow> key \<in> fst ` set es"
  proof
    assume "entry_place key es < length es"
    from hit [OF this] nth_mem [OF this] show "key \<in> fst ` set es" by (metis imageI)
  next
    assume "key \<in> fst ` set es"
    then obtain i where "i < length es" "fst (es ! i) = key" by (auto simp: in_set_conv_nth)
    with miss [of i] show "entry_place key es < length es" by (meson linorder_not_le order_less_le_trans)
  qed
qed

lemma takeWhile_length:
  assumes "\<And>i. i < n \<Longrightarrow> P (xs ! i)" "n < length xs \<Longrightarrow> \<not> P (xs ! n)" "n \<le> length xs"
  shows "length (takeWhile P xs) = n"
proof -
  have "takeWhile P xs = take n xs" using assms(1,2) by (rule takeWhile_eq_take_P_nth)
  with assms(3) show ?thesis by simp
qed

text \<open>An iterator of a map\<close>

lemma concat_links:
  assumes "\<forall>k\<in>set ks. length (link_items k) = 6"
  shows "length (concat (map link_items ks)) = 6 * length ks"
    "j < 6 * length ks \<Longrightarrow> concat (map link_items ks) ! j = chain_item ks j"
proof -
  show "length (concat (map link_items ks)) = 6 * length ks" using assms by (induction ks) auto
  show "j < 6 * length ks \<Longrightarrow> concat (map link_items ks) ! j = chain_item ks j"
    using assms
  proof (induction ks arbitrary: j)
    case (Cons k ks)
    show ?case
    proof (cases "j < 6")
      case True
      then show ?thesis using Cons.prems by (simp add: chain_item_def nth_append)
    next
      case False
      then have "j div 6 = Suc ((j - 6) div 6)" "j mod 6 = (j - 6) mod 6"
        by (simp_all add: le_div_geq le_mod_geq)
      then show ?thesis using Cons False by (simp add: chain_item_def nth_append)
    qed
  qed simp
qed

abbreviation passed :: "string \<Rightarrow> item \<Rightarrow> bool" where
  "passed key x \<equiv> item_used x \<and> item_key x \<noteq> key"

lemma probe_items_place:
  "probe_items key l i xs =
     (let j = length (takeWhile (passed key) xs) in
      if j = length xs then Exhausted
      else if \<not> item_used (xs ! j) then Available l (i + j) else At l (i + j))"
  by (induction xs arbitrary: i) (auto simp: Let_def)

lemma probe_chain_place:
  assumes "\<forall>k\<in>set ks. length (link_items k) = 6"
  shows "probe_chain key l ks =
     (let j = length (takeWhile (passed key) (concat (map link_items ks))) in
      if j = 6 * length ks then Exhausted
      else if \<not> item_used (chain_item ks j) then Available (l + j div 6) (j mod 6) else At (l + j div 6) (j mod 6))"
  using assms
proof (induction ks arbitrary: l)
  case (Cons k ks)
  let ?t = "takeWhile (passed key)"
  have six: "length (link_items k) = 6" using Cons.prems by simp
  show ?case
  proof (cases "length (?t (link_items k)) = 6")
    case True
    then have "?t (link_items k) = link_items k"
      using six by (metis takeWhile_eq_take take_all order_refl)
    then have all: "\<forall>x\<in>set (link_items k). passed key x" by (simp add: takeWhile_eq_all_conv)
    have step: "chain_item (k # ks) (6 + j) = chain_item ks j" "(6 + j) div 6 = Suc (j div 6)" "(6 + j) mod 6 = j mod 6" for j
      by (simp_all add: chain_item_def)
    have "probe_chain key l (k # ks) = probe_chain key (Suc l) ks"
      using True six by (simp add: probe_items_place Let_def)
    moreover have "length (?t (concat (map link_items (k # ks)))) = 6 + length (?t (concat (map link_items ks)))"
      using all six by (simp add: takeWhile_append2)
    ultimately show ?thesis using Cons.IH [of "Suc l"] Cons.prems step by (simp add: Let_def)
  next
    case False
    then have less: "length (?t (link_items k)) < 6" using six length_takeWhile_le [of "passed key" "link_items k"] by linarith
    obtain y where y: "y \<in> set (link_items k)" "\<not> passed key y"
    proof (rule ccontr)
      assume "\<not> thesis"
      with that have "?t (link_items k) = link_items k" by (auto simp: takeWhile_eq_all_conv)
      with less six show False by simp
    qed
    have "?t (link_items k @ concat (map link_items ks)) = ?t (link_items k)"
      by (rule takeWhile_append1 [where P = "passed key", OF y])
    moreover have "length (?t (link_items k)) \<noteq> 6 * length (k # ks)" using less by simp
    moreover have "length (?t (link_items k)) div 6 = 0" "length (?t (link_items k)) mod 6 = length (?t (link_items k))"
      using less by simp_all
    ultimately show ?thesis using six False by (simp add: probe_items_place Let_def chain_item_def)
  qed
qed simp

lemma probe_is_entry_place:
  assumes "chain_holds ks es"
  shows "probe_chain key l ks =
    (let j = entry_place key es in
     if j < length es then At (l + j div 6) (j mod 6)
     else if length es = 6 * length ks then Exhausted
     else Available (l + j div 6) (j mod 6))"
proof -
  let ?j = "entry_place key es"
  have six: "\<forall>k\<in>set ks. length (link_items k) = 6" using assms by (simp add: chain_holds_def)
  have le: "?j \<le> length es" "length es \<le> 6 * length ks"
    using assms entry_place_cases(1) by (simp_all add: chain_holds_def)
  have held: "item_holds (chain_item ks j) (es ! j)" if "j < length es" for j
    using assms that by (simp add: chain_holds_def)
  have free: "\<not> item_used (chain_item ks j)" if "length es \<le> j" "j < 6 * length ks" for j
    using assms that by (simp add: chain_holds_def)
  have "length (takeWhile (passed key) (concat (map link_items ks))) = ?j"
  proof (rule takeWhile_length)
    fix i assume "i < ?j"
    then show "passed key (concat (map link_items ks) ! i)"
      using le held [of i] entry_place_cases(3) [of i key es] concat_links(2) [OF six, of i] by (simp add: item_holds_def)
  next
    assume "?j < length (concat (map link_items ks))"
    then show "\<not> passed key (concat (map link_items ks) ! ?j)"
      using held [of ?j] free [of ?j] le entry_place_cases(2) [of key es] concat_links [OF six]
      by (cases "?j < length es") (simp_all add: item_holds_def)
  next
    show "?j \<le> length (concat (map link_items ks))" using le concat_links(1) [OF six] by simp
  qed
  with probe_chain_place [OF six, of key l] le held [of ?j] free [of ?j]
  show ?thesis by (auto simp: Let_def item_holds_def)
qed

text \<open>Looking up is looking up in the list of the entries.\<close>

lemma holds_item: "map_holds m es \<Longrightarrow> j < length es \<Longrightarrow> item_holds (item_at m (j div 6) (j mod 6)) (es ! j)"
  by (simp add: map_holds_def chain_holds_def item_at_def chain_item_def)

lemma map_of_entry_place:
  "map_of es key = (let j = entry_place key es in if j < length es then Some (snd (es ! j)) else None)"
  by (induction es) (auto simp: entry_place_def Let_def)

lemma hash_map_finds:
  assumes "map_holds m es"
  shows "map_find_value key m = map_of es key"
proof -
  let ?j = "entry_place key es"
  have chain: "chain_holds (map_chain m) es" using assms by (simp add: map_holds_def)
  have none: "length es = 0" if "map_chain m = []" using chain that by (simp add: chain_holds_def)
  show ?thesis
    using none holds_item [OF assms, of ?j]
    by (auto simp: map_find_value_def buckets_size_def probe_is_entry_place [OF chain] map_of_entry_place Let_def item_holds_def)
qed

text \<open>Changing one item\<close>

definition chain_set :: "nat \<Rightarrow> item \<Rightarrow> link list \<Rightarrow> link list" where
  "chain_set j x ks =
     ks[j div 6 := (ks ! (j div 6))\<lparr>link_items := (link_items (ks ! (j div 6)))[j mod 6 := x]\<rparr>]"

lemma set_item_chain: "map_chain (set_item (j div 6) (j mod 6) x m) = chain_set j x (map_chain m)"
  "map_count (set_item l i x m) = map_count m"
  by (simp_all add: set_item_def chain_set_def)

lemma item_at_chain: "item_at m (j div 6) (j mod 6) = chain_item (map_chain m) j"
  by (simp add: item_at_def chain_item_def)

lemma other_item: "i \<noteq> j \<Longrightarrow> i div 6 = j div 6 \<Longrightarrow> i mod 6 \<noteq> j mod (6::nat)"
  by (metis mult_div_mod_eq)

lemma chain_set_outcome:
  assumes "\<forall>k\<in>set ks. length (link_items k) = 6 \<and> link_previous k = None" "j < 6 * length ks"
  shows "length (chain_set j x ks) = length ks"
    "\<forall>k\<in>set (chain_set j x ks). length (link_items k) = 6 \<and> link_previous k = None"
    "i < 6 * length ks \<Longrightarrow> chain_item (chain_set j x ks) i = (if i = j then x else chain_item ks i)"
proof -
  have j: "j div 6 < length ks" using assms(2) by (simp add: less_mult_imp_div_less)
  then have six: "length (link_items (ks ! (j div 6))) = 6" "link_previous (ks ! (j div 6)) = None" using assms(1) by simp_all
  show "length (chain_set j x ks) = length ks" by (simp add: chain_set_def)
  show "\<forall>k\<in>set (chain_set j x ks). length (link_items k) = 6 \<and> link_previous k = None"
    using assms(1) six by (auto simp: chain_set_def dest!: set_update_subset_insert [THEN subsetD])
  show "chain_item (chain_set j x ks) i = (if i = j then x else chain_item ks i)" if "i < 6 * length ks"
    using j six other_item [of i j]
    by (cases "i div 6 = j div 6") (auto simp: chain_set_def chain_item_def nth_list_update)
qed

lemma chain_holds_update:
  assumes "chain_holds ks es" "j < length es" "item_holds x e"
  shows "chain_holds (chain_set j x ks) (es[j := e])"
proof -
  have links: "\<forall>k\<in>set ks. length (link_items k) = 6 \<and> link_previous k = None" "j < 6 * length ks"
    using assms by (auto simp: chain_holds_def)
  from chain_set_outcome [OF links] assms show ?thesis
    by (simp add: chain_holds_def nth_list_update)
qed

lemma chain_holds_add:
  assumes "chain_holds ks es" "length es < 6 * length ks" "item_holds x e"
  shows "chain_holds (chain_set (length es) x ks) (es @ [e])"
proof -
  have links: "\<forall>k\<in>set ks. length (link_items k) = 6 \<and> link_previous k = None"
    using assms by (auto simp: chain_holds_def)
  from chain_set_outcome [OF links assms(2)] assms show ?thesis
    by (simp add: chain_holds_def nth_append less_Suc_eq)
qed

lemma chain_holds_new_link:
  assumes "chain_holds ks es" "length es = 6 * length ks" "item_holds x e"
  shows "chain_holds (chain_set (length es) x (ks @ [new_link])) (es @ [e])"
proof -
  have new: "chain_item (ks @ [new_link]) i = (if i < 6 * length ks then chain_item ks i else free_item)"
    if "i < 6 * length (ks @ [new_link])" for i
  proof (cases "i < 6 * length ks")
    case False
    with that have "i div 6 = length ks" by (intro div_nat_eqI) simp_all
    then show ?thesis using False by (simp add: chain_item_def new_link_def nth_append)
  qed (simp add: chain_item_def nth_append less_mult_imp_div_less)
  have links: "\<forall>k\<in>set (ks @ [new_link]). length (link_items k) = 6 \<and> link_previous k = None"
    using assms(1) by (auto simp: chain_holds_def new_link_def)
  have "length es < 6 * length (ks @ [new_link])" using assms(2) by simp
  from chain_set_outcome [OF links this] new assms show ?thesis
    by (simp add: chain_holds_def nth_append less_Suc_eq free_item_def null_value_def new_value_def)
qed

text \<open>Adding puts the entry behind the others.\<close>

lemma set_new_item_chain:
  "map_chain (set_new_item key static (j div 6) (j mod 6) m) =
     chain_set j ((chain_item (map_chain m) j)\<lparr>item_key := key, item_used := True, item_static := static\<rparr>) (map_chain m)"
  "map_count (set_new_item key static l i m) = map_count m + 1"
  by (simp_all add: set_new_item_def set_item_def chain_set_def item_at_def chain_item_def)

lemma first_available_place: "first_available i xs = i + length (takeWhile item_used xs)"
  by (induction xs arbitrary: i) auto

lemma full_link_end:
  assumes "chain_holds ks es" "length es = 6 * length ks" "ks \<noteq> []"
  shows "first_available 0 (link_items (ks ! (length ks - 1))) = 6"
proof -
  let ?k = "ks ! (length ks - 1)"
  have six: "length (link_items ?k) = 6" using assms(1,3) by (simp add: chain_holds_def)
  have "item_used (link_items ?k ! i)" if "i < 6" for i
  proof -
    let ?j = "6 * (length ks - 1) + i"
    have "?j < length es" using assms(2,3) that by (cases ks) simp_all
    then have "item_used (chain_item ks ?j)" using assms(1) by (simp add: chain_holds_def item_holds_def)
    then show ?thesis using that by (simp add: chain_item_def)
  qed
  then have "takeWhile item_used (link_items ?k) = link_items ?k"
    using six by (auto simp: takeWhile_eq_all_conv in_set_conv_nth)
  then have "length (takeWhile item_used (link_items ?k)) = 6" using six by metis
  then show ?thesis by (simp add: first_available_place)
qed

lemma bucket_of_one: "buckets_size m = 1 \<Longrightarrow> bucket_of m key = 0"
  by (simp add: bucket_of_def)

lemma held_null: "held null_value = HNull"
  by (simp add: null_value_def new_value_def)

lemma resolve_key_outcome:
  fixes key :: string
  assumes holds: "map_holds m es"
  defines "j \<equiv> entry_place key es"
  shows "\<exists>m'. resolve_key key static m = Inr ((j div 6, j mod 6), m')
    \<and> (if j < length es then m' = m else \<exists>v. held v = HNull \<and> map_holds m' (es @ [(key, v)]))"
proof -
  let ?ks = "map_chain m"
  have chain: "chain_holds ?ks es" and count: "map_count m = length es" and dist: "distinct (map fst es)"
    using holds by (simp_all add: map_holds_def)
  have j: "j \<le> length es" "j < length es \<longleftrightarrow> key \<in> fst ` set es" by (simp_all add: j_def entry_place_cases)
  have added: "map_holds (set_new_item key static (j div 6) (j mod 6) m1) (es @ [(key, v)])"
    if "j = length es" "map_count m1 = map_count m" "v = item_value (chain_item (map_chain m1) j)"
      "\<And>x. item_holds x (key, v) \<Longrightarrow> chain_holds (chain_set j x (map_chain m1)) (es @ [(key, v)])" for m1 v
    using that count dist j unfolding map_holds_def by (simp add: set_new_item_chain item_holds_def)
  note probe = probe_is_entry_place [OF chain, of key 0, folded j_def]
  consider "?ks = []" | "?ks \<noteq> []" "j < length es" | "?ks \<noteq> []" "j = length es" "length es = 6 * length ?ks"
    | "?ks \<noteq> []" "j = length es" "length es < 6 * length ?ks"
  proof -
    have "length es \<le> 6 * length ?ks" using chain by (simp add: chain_holds_def)
    with j(1) that show thesis by linarith
  qed
  then show ?thesis
  proof cases
    case 1
    then have es: "es = []" "j = 0" using chain j(1) by (auto simp: chain_holds_def)
    let ?m = "m\<lparr>map_chain := [new_link]\<rparr>"
    have "resolve_key key static m = Inr ((0, 0), set_new_item key static 0 0 ?m)"
      using 1 by (simp add: resolve_key_def buckets_size_def unsafe_add_def map_reserve_def last_link_in_bucket_def
          bucket_of_def new_link_def free_item_def eval_nat_numeral Let_def)
    moreover have "chain_holds [new_link] []"
      by (auto simp: chain_holds_def new_link_def chain_item_def free_item_def null_value_def new_value_def)
    from chain_holds_add [OF this] have "map_holds (set_new_item key static 0 0 ?m) [(key, null_value)]"
      using added [of ?m null_value] es by (simp add: chain_item_def new_link_def free_item_def)
    ultimately show ?thesis using es held_null by auto
  next
    case 2
    then show ?thesis using probe by (simp add: resolve_key_def buckets_size_def Let_def)
  next
    case 3
    let ?m = "m\<lparr>map_chain := ?ks @ [new_link]\<rparr>"
    let ?n = "length ?ks"
    have n: "j div 6 = ?n" "j mod 6 = 0" using 3(2,3) by simp_all
    have "resolve_key key static m = Inr ((?n, 0), set_new_item key static ?n 0 ?m)"
      using 3 probe full_link_end [OF chain 3(3,1)]
      by (simp add: resolve_key_def buckets_size_def unsafe_add_def map_reserve_def last_link_in_bucket_def
          bucket_of_def Let_def)
    moreover have "chain_item (?ks @ [new_link]) j = free_item"
      using n by (simp add: chain_item_def new_link_def)
    with chain_holds_new_link [OF chain 3(3)] added [of ?m null_value] 3(2)
    have "map_holds (set_new_item key static ?n 0 ?m) (es @ [(key, null_value)])"
      using n by (simp add: free_item_def)
    ultimately show ?thesis using 3(2) n held_null by auto
  next
    case 4
    have "held (item_value (chain_item ?ks j)) = HNull" using chain 4 by (simp add: chain_holds_def)
    moreover have "map_holds (set_new_item key static (j div 6) (j mod 6) m) (es @ [(key, item_value (chain_item ?ks j))])"
      using added [of m] chain_holds_add [OF chain 4(3)] 4(2) by simp
    moreover have "resolve_key key static m = Inr ((j div 6, j mod 6), set_new_item key static (j div 6) (j mod 6) m)"
      using 4 probe by (simp add: resolve_key_def buckets_size_def Let_def)
    ultimately show ?thesis using 4(2) by auto
  qed
qed

lemma hash_map_assigns:
  assumes "map_holds m es"
  shows "\<exists>m' v. map_assign key x m = Inr m' \<and> held v = held x
    \<and> map_holds m' (if key \<in> fst ` set es then es[entry_place key es := (key, v)] else es @ [(key, v)])"
proof -
  let ?j = "entry_place key es"
  have put: "map_holds (set_item (?j div 6) (?j mod 6) ((item_at n (?j div 6) (?j mod 6))
      \<lparr>item_value := assign_value (item_value (item_at n (?j div 6) (?j mod 6))) x\<rparr>) n)
      (fs[?j := (key, assign_value (snd (fs ! ?j)) x)])"
    if "map_holds n fs" "?j < length fs" "fst (fs ! ?j) = key" for n fs
  proof -
    have "item_holds (item_at n (?j div 6) (?j mod 6)) (fs ! ?j)" by (rule holds_item [OF that(1,2)])
    moreover have "map fst (fs[?j := (key, assign_value (snd (fs ! ?j)) x)]) = map fst fs"
      using that(3) by (metis fst_conv list_update_id map_update)
    ultimately show ?thesis
      using that chain_holds_update [of "map_chain n" fs ?j]
      by (simp add: map_holds_def set_item_chain item_holds_def)
  qed
  from resolve_key_outcome [OF assms, of key False] obtain n where
    n: "resolve_key key False m = Inr ((?j div 6, ?j mod 6), n)"
      "if ?j < length es then n = m else \<exists>v. held v = HNull \<and> map_holds n (es @ [(key, v)])" by blast
  show ?thesis
  proof (cases "?j < length es")
    case True
    from n put [OF assms True entry_place_cases(2) [OF True]] True show ?thesis
      by (auto simp: map_assign_def entry_place_cases(4) assign_value_def
          intro!: exI [of _ "assign_value (snd (es ! ?j)) x"])
  next
    case False
    then have j: "?j = length es" using entry_place_cases(1) [of key es] by simp
    from n(2) False obtain v where v: "map_holds n (es @ [(key, v)])" by auto
    from put [OF v] j have "map_holds (set_item (?j div 6) (?j mod 6) ((item_at n (?j div 6) (?j mod 6))
      \<lparr>item_value := assign_value (item_value (item_at n (?j div 6) (?j mod 6))) x\<rparr>) n) (es @ [(key, assign_value v x)])"
      by simp
    with n(1) False show ?thesis
      by (auto simp: map_assign_def entry_place_cases(4) [symmetric] assign_value_def
          intro!: exI [of _ "assign_value v x"])
  qed
qed

section \<open>What removing does\<close>

text \<open>Only an entry that is the first of its link is removed at all: for any other one memory behind the bucket is read.\<close>

lemma remove_probe:
  assumes "map_holds m es" "key \<in> fst ` set es"
  defines "j \<equiv> entry_place key es"
  shows "map_remove key m = do_actual_remove (j div 6) (j mod 6) m" "buckets_size m = 1" "j < length es"
proof -
  have chain: "chain_holds (map_chain m) es" using assms(1) by (simp add: map_holds_def)
  show j: "j < length es" using assms(2) by (simp add: j_def entry_place_cases(4))
  then have "map_chain m \<noteq> []" using chain by (auto simp: chain_holds_def)
  then show "buckets_size m = 1" by (simp add: buckets_size_def)
  then show "map_remove key m = do_actual_remove (j div 6) (j mod 6) m"
    using probe_is_entry_place [OF chain, of key 0, folded j_def] j by (simp add: map_remove_def Let_def)
qed

lemma remove_reads_behind_the_bucket:
  assumes "map_holds m es" "key \<in> fst ` set es" "entry_place key es mod 6 \<noteq> 0"
  shows "map_remove key m = Inl Abort"
  using remove_probe [OF assms(1,2)] assms(3) by (simp add: do_actual_remove_def last_link_in_bucket_def)

lemma last_used_place: "last_used i xs = i + length (takeWhile item_used xs)"
  by (induction xs arbitrary: i) auto

lemma last_link:
  assumes "chain_holds ks es" "es \<noteq> []"
  shows "length ks - 1 = (length es - 1) div 6"
    "last_used 1 (tl (link_items (ks ! (length ks - 1)))) - 1 = (length es - 1) mod 6"
proof -
  let ?n = "length es" and ?t = "length ks - 1"
  have le: "?n \<le> 6 * length ks" "6 * length ks < ?n + 6 + (if length ks = 1 then 1 else 0)"
    using assms(1) unfolding chain_holds_def by blast+
  have n: "0 < ?n" "0 < length ks" using assms(2) le(1) by (cases ks; simp)+
  have six: "length (link_items (ks ! ?t)) = 6" using assms(1) n(2) by (simp add: chain_holds_def)
  obtain t where ks: "length ks = Suc t" using n(2) by (cases "length ks") simp_all
  have b: "6 * ?t < ?n" "?n \<le> 6 * ?t + 6" using n(1) le ks by (cases "t = 0"; simp)+
  then show t: "?t = (?n - 1) div 6" by (intro div_nat_eqI [symmetric]) simp_all
  let ?u = "(?n - 1) mod 6"
  have u: "?n - 1 = 6 * ?t + ?u" "?u < 6" using t by simp_all
  have item: "link_items (ks ! ?t) ! i = chain_item ks (6 * ?t + i)" if "i < 6" for i
    using that by (simp add: chain_item_def)
  have "length (takeWhile item_used (tl (link_items (ks ! ?t)))) = ?u"
  proof (rule takeWhile_length)
    fix i assume "i < ?u"
    then have "6 * ?t + Suc i < ?n" "Suc i < 6" using u b(1) by linarith+
    then show "item_used (tl (link_items (ks ! ?t)) ! i)"
      using assms(1) six item [of "Suc i"] by (simp add: nth_tl chain_holds_def item_holds_def)
  next
    assume "?u < length (tl (link_items (ks ! ?t)))"
    then have s: "Suc ?u < 6" using six by simp
    moreover have "6 * ?t + Suc ?u = ?n" using u(1) n(1) by linarith
    moreover from this s have "?n < 6 * length ks" using ks by simp
    ultimately show "\<not> item_used (tl (link_items (ks ! ?t)) ! ?u)"
      using assms(1) six item [of "Suc ?u"] by (simp add: nth_tl chain_holds_def)
  qed (use u six in simp)
  then show "last_used 1 (tl (link_items (ks ! ?t))) - 1 = ?u" by (simp add: last_used_place)
qed

lemma chain_holds_drop:
  assumes "chain_holds ks es" "es \<noteq> []" "length es mod 6 \<noteq> 1" "\<not> item_used x" "held (item_value x) = HNull"
  shows "chain_holds (chain_set (length es - 1) x ks) (butlast es)"
proof -
  have links: "\<forall>k\<in>set ks. length (link_items k) = 6 \<and> link_previous k = None"
    and le: "length es \<le> 6 * length ks" "6 * length ks < length es + 6 + (if length ks = 1 then 1 else 0)"
    using assms(1) unfolding chain_holds_def by blast+
  have last: "length es - 1 < 6 * length ks" using assms(2) le(1) by (cases es) simp_all
  have "6 * length ks \<noteq> length es + 5"
  proof
    assume "6 * length ks = length es + 5"
    then have "(length es + 5) mod 6 = 0" by (metis mod_mult_self1_is_0)
    with assms(3) show False by presburger
  qed
  moreover have "length es \<noteq> 1" using assms(3) by auto
  ultimately have "6 * length ks < length (butlast es) + 6 + (if length ks = 1 then 1 else 0)"
    using le by (cases "length ks = 1") simp_all
  with chain_set_outcome [OF links last] assms le(1) show ?thesis
    by (auto simp: chain_holds_def nth_butlast)
qed

text \<open>
  The others lose an entry, but another one: the key that was to be removed stays, with the value of
  the last entry, and the last entry's key is gone.
\<close>

lemma remove_removes_the_last_key:
  assumes holds: "map_holds m es" and key: "key \<in> fst ` set es"
    and first: "entry_place key es mod 6 = 0" and other: "length es mod 6 \<noteq> 1"
  defines "j \<equiv> entry_place key es"
  shows "\<exists>m'. map_remove key m = Inr m'
    \<and> map_holds m' (butlast (es[j := (key, assign_value (snd (es ! j)) (snd (last es)))]))"
proof -
  let ?n = "length es - 1" and ?ks = "map_chain m"
  let ?v = "assign_value (snd (es ! j)) (snd (last es))"
  note probe = remove_probe [OF holds key, folded j_def]
  have chain: "chain_holds ?ks es" and count: "map_count m = length es" and dist: "distinct (map fst es)"
    using holds by (simp_all add: map_holds_def)
  have links: "\<forall>k\<in>set ?ks. length (link_items k) = 6 \<and> link_previous k = None" "length es \<le> 6 * length ?ks"
    using chain unfolding chain_holds_def by blast+
  have "es \<noteq> []" using probe(3) by (cases es) simp_all
  then have es: "es \<noteq> []" "last es = es ! ?n" "?n < length es" by (simp_all add: last_conv_nth)
  have u: "?n mod 6 \<noteq> 0"
  proof
    assume "?n mod 6 = 0"
    then have "Suc ?n mod 6 = 1" by (simp add: mod_Suc)
    moreover have "Suc ?n = length es" using es(3) by simp
    ultimately show False using other by simp
  qed
  then have neq: "j \<noteq> ?n" using first by (auto simp: j_def)
  have holds_j: "item_holds (chain_item ?ks j) (es ! j)" and holds_n: "item_holds (chain_item ?ks ?n) (es ! ?n)"
    using chain probe(3) es(3) by (simp_all add: chain_holds_def)
  have key_j: "fst (es ! j) = key" using entry_place_cases(2) [of key es] probe(3) by (simp add: j_def)
  define x where "x = (chain_item ?ks j)\<lparr>item_value := ?v\<rparr>"
  define y where "y = (chain_item ?ks ?n)\<lparr>item_value := assign_value (snd (es ! ?n)) (snd (es ! j))\<rparr>"
  define z where "z = y\<lparr>item_value := assign_value (item_value y) null_value, item_used := False\<rparr>"
  let ?k1 = "chain_set j x ?ks" and ?e1 = "es[j := (key, ?v)]"
  let ?k2 = "chain_set ?n y ?k1" and ?e2 = "?e1[?n := (fst (es ! ?n), item_value y)]"
  have "item_holds x (key, ?v)" using holds_j key_j by (simp add: x_def item_holds_def)
  then have c1: "chain_holds ?k1 ?e1" using chain_holds_update [OF chain probe(3)] by simp
  have "item_holds y (fst (es ! ?n), item_value y)" using holds_n by (simp add: y_def item_holds_def)
  then have c2: "chain_holds ?k2 ?e2" using chain_holds_update [OF c1] es(3) by simp
  have c3: "chain_holds (chain_set ?n z ?k2) (butlast ?e2)"
    using chain_holds_drop [OF c2, of z] es other by (simp add: z_def assign_value_def held_null)
  have e2: "butlast ?e2 = butlast ?e1" using es by (simp add: butlast_list_update)
  have keys: "map fst ?e1 = map fst es"
    using key_j by (metis fst_conv list_update_id map_update)
  have bounds: "j < 6 * length ?ks" "?n < 6 * length ?ks" using probe(3) links(2) es(3) by linarith+
  have y_item: "chain_item ?k1 ?n = chain_item ?ks ?n"
    using chain_set_outcome(3) [OF links(1) bounds(1) bounds(2), of x] neq by simp
  have last: "last_link_in_bucket 0 m = Inr (?n div 6)"
    using last_link(1) [OF chain es(1)] probe(2) by (simp add: last_link_in_bucket_def)
  have used: "last_used 1 (tl (link_items (?ks ! (?n div 6)))) - 1 = ?n mod 6"
    using last_link [OF chain es(1)] by simp
  let ?m1 = "swap_values (j div 6, j mod 6) (?n div 6, ?n mod 6) m"
  have m1: "map_chain ?m1 = ?k2" "map_count ?m1 = map_count m"
    using holds_j holds_n es
    by (simp_all add: swap_values_def Let_def set_item_chain item_at_chain item_holds_def x_def y_def)
  have "\<forall>k\<in>set ?k1. length (link_items k) = 6 \<and> link_previous k = None" "?n < 6 * length ?k1"
    using chain_set_outcome(1,2) [OF links(1) bounds(1), of x] bounds(2) by simp_all
  then have "chain_item ?k2 ?n = y" using chain_set_outcome(3) [of ?k1 ?n ?n y] by simp
  then have z: "item_at ?m1 (?n div 6) (?n mod 6) = y" by (simp only: item_at_chain m1)
  have "(j div 6, j mod 6) \<noteq> (?n div 6, ?n mod 6)" using neq by (metis mult_div_mod_eq prod.inject)
  then have "\<exists>m'. do_actual_remove (j div 6) (j mod 6) m = Inr m' \<and> map_chain m' = chain_set ?n z ?k2 \<and> map_count m' = length es - 1"
    using first u last used m1 count z
    by (simp add: do_actual_remove_def j_def [symmetric] Let_def set_item_chain z_def)
  with c3 e2 keys dist probe(1) show ?thesis
    by (auto simp: map_holds_def map_butlast distinct_butlast)
qed

text \<open>The only entry of a link is counted out, and stays.\<close>

lemma only_entry_stays:
  assumes "map_holds m (fs @ [(key, v)])" "length fs mod 6 = 0"
  shows "\<exists>m'. map_remove key m = Inr m' \<and> map_find_value key m' = Some v \<and> map_count m' = length fs"
proof -
  let ?es = "fs @ [(key, v)]"
  have key: "key \<in> fst ` set ?es" by simp
  have "key \<notin> fst ` set fs" using assms(1) by (simp add: map_holds_def)
  then have "\<forall>e\<in>set fs. fst e \<noteq> key" by force
  then have j: "entry_place key ?es = length fs"
    by (simp add: entry_place_def takeWhile_append2)
  note probe = remove_probe [OF assms(1) key, unfolded j]
  have chain: "chain_holds (map_chain m) ?es" and count: "map_count m = Suc (length fs)"
    using assms(1) by (simp_all add: map_holds_def)
  have "link_previous (map_chain m ! (length fs div 6)) = None"
  proof -
    have "length (map_chain m) - 1 = length fs div 6" using last_link(1) [OF chain] by simp
    moreover have "0 < length (map_chain m)" using probe(2) by (simp add: buckets_size_def split: if_splits)
    ultimately have "map_chain m ! (length fs div 6) \<in> set (map_chain m)" by (intro nth_mem) linarith
    with chain show ?thesis by (simp add: chain_holds_def)
  qed
  then have "do_actual_remove (length fs div 6) (length fs mod 6) m = Inr (m\<lparr>map_count := map_count m - 1\<rparr>)"
    using last_link [OF chain] probe(2) assms(2) by (simp add: do_actual_remove_def last_link_in_bucket_def Let_def)
  moreover have "map_find_value key (m\<lparr>map_count := c\<rparr>) = map_find_value key m" for c
    by (simp add: map_find_value_def buckets_size_def item_at_def split: probe.splits)
  moreover have "map_find_value key m = Some v"
    unfolding hash_map_finds [OF assms(1)] map_of_entry_place j by simp
  ultimately show ?thesis using probe(1) count by simp
qed

section \<open>What an iterator visits\<close>

text \<open>
  The place in the link is not set back when a link ends: the items of a map with at most six are
  visited in order, and with more the iterator leaves the first link at a seventh item.
\<close>

definition it_at :: "nat \<Rightarrow> map_iterator" where
  "it_at j = \<lparr>it_link = Some 0, it_item = j, it_bucket = 0\<rparr>"

lemma first_items:
  assumes "map_holds m es" "j < length es" "j < 6"
  shows "map_key m (it_at j) = Inr (fst (es ! j))" "it_at j \<noteq> map_end m"
    "Suc j < 6 \<Longrightarrow> Suc j < length es \<Longrightarrow> map_increment m (it_at j) = Inr (it_at (Suc j))"
    "Suc j = length es \<Longrightarrow> map_increment m (it_at j) = Inr (map_end m)"
    "j = 5 \<Longrightarrow> 6 < length es \<Longrightarrow> map_increment m (it_at j) = Inr \<lparr>it_link = Some 1, it_item = 6, it_bucket = 0\<rparr>"
proof -
  have chain: "chain_holds (map_chain m) es" using assms(1) by (simp add: map_holds_def)
  have le: "length es \<le> 6 * length (map_chain m)" "6 * length (map_chain m) < length es + 6 + (if length (map_chain m) = 1 then 1 else 0)"
    using chain unfolding chain_holds_def by blast+
  have ne: "map_chain m \<noteq> []" using le(1) assms(2) by auto
  have item: "item_at m 0 i = chain_item (map_chain m) i" if "i < 6" for i
    using that by (simp add: item_at_def chain_item_def)
  have used: "item_used (item_at m 0 i) \<longleftrightarrow> i < length es" if "i < 6" for i
  proof (cases "i < length es")
    case False
    moreover have "i < 6 * length (map_chain m)" using that ne by (cases "map_chain m") simp_all
    ultimately show ?thesis using chain item [OF that] by (simp add: chain_holds_def)
  qed (use chain item [OF that] in \<open>simp add: chain_holds_def item_holds_def\<close>)
  show "map_key m (it_at j) = Inr (fst (es ! j))"
    using chain assms(2,3) item [OF assms(3)] by (simp add: map_key_def it_at_def chain_holds_def item_holds_def)
  show "it_at j \<noteq> map_end m" by (simp add: it_at_def map_end_def)
  show "Suc j < 6 \<Longrightarrow> Suc j < length es \<Longrightarrow> map_increment m (it_at j) = Inr (it_at (Suc j))"
    using used [of "Suc j"] by (simp add: map_increment_def it_at_def Let_def)
  show "map_increment m (it_at j) = Inr \<lparr>it_link = Some 1, it_item = 6, it_bucket = 0\<rparr>" if "j = 5" "6 < length es"
    using that le(1) by (auto simp: map_increment_def it_at_def Let_def)
  show "map_increment m (it_at j) = Inr (map_end m)" if "Suc j = length es"
  proof (cases "j = 5")
    case True
    then have "length (map_chain m) = 1" using that le ne by (cases "map_chain m") (auto split: if_splits)
    then show ?thesis using True ne by (simp add: map_increment_def it_at_def Let_def increment_bucket_def map_end_def buckets_size_def)
  next
    case False
    then have "Suc j < 6" using assms(3) by simp
    then show ?thesis using used [of "Suc j"] that ne False
      by (simp add: map_increment_def it_at_def Let_def increment_bucket_def map_end_def buckets_size_def)
  qed
qed

lemma map_begin_at: "map_holds m es \<Longrightarrow> es \<noteq> [] \<Longrightarrow> map_begin m = it_at 0"
  by (auto simp: map_holds_def chain_holds_def map_begin_def it_at_def)

lemma small_walk:
  assumes "map_holds m es" "length es \<le> 6" "j < length es"
  shows "map_walk (Suc (length es - j)) m (it_at j) = Some (Inr (map fst (drop j es)))"
  using assms(3)
proof (induction "length es - j" arbitrary: j)
  case (Suc n)
  note first = first_items [OF assms(1) Suc.prems]
  have six: "j < 6" using Suc.prems assms(2) by simp
  have drop: "drop j es = es ! j # drop (Suc j) es" using Suc.prems by (simp add: Cons_nth_drop_Suc)
  show ?case
  proof (cases "Suc j = length es")
    case True
    moreover from True have "length es - j = Suc 0" by simp
    ultimately show ?thesis using first [OF six] drop by simp
  next
    case False
    then have "Suc j < length es" using Suc.prems by simp
    with Suc.hyps(1) [of "Suc j"] Suc.hyps(2) have
      "map_walk (Suc (length es - Suc j)) m (it_at (Suc j)) = Some (Inr (map fst (drop (Suc j) es)))" by simp
    moreover have "length es - j = Suc (length es - Suc j)" using Suc.prems by simp
    ultimately show ?thesis using first [OF six] \<open>Suc j < length es\<close> assms(2) drop by simp
  qed
qed simp

lemma iterator_visits_entries:
  "map_holds m es \<Longrightarrow> es \<noteq> [] \<Longrightarrow> length es \<le> 6 \<Longrightarrow>
     map_walk (Suc (length es)) m (map_begin m) = Some (Inr (map fst es))"
  using small_walk [of m es 0] by (simp add: map_begin_at)

lemma iterator_leaves_the_link:
  assumes "map_holds m es" "6 < length es"
  shows "map_walk (7 + n) m (map_begin m) = Some (Inl Abort)"
proof -
  have ne: "es \<noteq> []" using assms(2) by auto
  have step: "map_walk (Suc k) m (it_at j) = Some (Inl Abort)"
    if "map_walk k m (it_at (Suc j)) = Some (Inl Abort)" "Suc j < 6" for k j
    using first_items [OF assms(1), of j] that assms(2) by simp
  have "map_key m \<lparr>it_link = Some 1, it_item = 6, it_bucket = 0\<rparr> = Inl Abort"
    "\<lparr>it_link = Some 1, it_item = 6, it_bucket = 0\<rparr> \<noteq> map_end m"
    by (simp_all add: map_key_def map_end_def)
  then have at_5: "map_walk (Suc (Suc n)) m (it_at 5) = Some (Inl Abort)"
    using first_items [OF assms(1), of 5] assms(2) by simp
  have "map_walk (Suc (Suc n) + k) m (it_at (5 - k)) = Some (Inl Abort)" if "k \<le> 5" for k
    using that
  proof (induction k)
    case (Suc k)
    then have "Suc (5 - Suc k) = 5 - k" by simp
    with Suc step [of "Suc (Suc n) + k" "5 - Suc k"] show ?case by (simp del: map_walk.simps)
  qed (use at_5 in \<open>simp del: map_walk.simps\<close>)
  moreover have "7 + n = Suc (Suc n) + 5" by simp
  ultimately show ?thesis by (metis map_begin_at [OF assms(1) ne] diff_self_eq_0 order_refl)
qed

text \<open>Two small objects with the same names are equal, whatever their values.\<close>

lemma values_are_not_compared:
  assumes "map_holds m es" "map_holds m' fs" "length es \<le> 6" "length es = length fs" "es \<noteq> []"
    "fst ` set es \<subseteq> fst ` set fs"
  shows "compare_map (Suc (length es)) m m' = Some (Inr 0)"
proof -
  have found: "map_find_value (fst (es ! j)) m' \<noteq> None" if "j < length es" for j
    using hash_map_finds [OF assms(2), of "fst (es ! j)"] assms(6) that by (auto simp: map_of_eq_None_iff)
  have walk: "compare_keys (Suc (length es - j)) m (it_at j) m' = Some (Inr 0)
    \<and> compare_map_values (Suc (length es - j)) m (it_at j) m' = Some (Inr 0)" if "j < length es" for j
    using that
  proof (induction "length es - j" arbitrary: j)
    case (Suc n)
    have six: "j < 6" using Suc.prems assms(3) by simp
    note first = first_items [OF assms(1) Suc.prems six]
    have step: "length es - j = Suc n" using Suc.hyps(2) by simp
    have got: "\<exists>v. map_value m (it_at j) = Inr v" using six by (simp add: map_value_def it_at_def)
    show ?case
    proof (cases "Suc j = length es")
      case True
      then have "n = 0" using step by simp
      then show ?thesis using first(1,2,4) True got found [OF Suc.prems] step
        by (auto simp: compare_values_def)
    next
      case False
      then have "Suc j < length es" "length es - Suc j = n" using Suc.prems step by simp_all
      with Suc.hyps(1) [of "Suc j"] show ?thesis
        using first(1,2,3) got found [OF Suc.prems] step assms(3) by (auto simp: compare_values_def)
    qed
  qed simp
  have "compare_keys (Suc (length es)) m (map_begin m) m' = Some (Inr 0)"
    "compare_map_values (Suc (length es)) m (map_begin m) m' = Some (Inr 0)"
    using walk [of 0] assms(5)
    by (simp_all add: map_begin_at [OF assms(1,5)] del: compare_keys.simps compare_map_values.simps)
  moreover have "map_count m = map_count m'" using assms(1,2,4) by (simp add: map_holds_def)
  ultimately show ?thesis by (simp add: compare_map_def)
qed

lemma new_map_holds: "map_holds new_map []"
  by (simp add: map_holds_def chain_holds_def new_map_def)

end
