(* ===== verification/Cursor.thy ===== *)
theory Cursor
  imports Complex_Main Store Tables
begin

text \<open>
  How the rows of a statement are read (\<open>libs/sqlite/reader.cpp\<close>, \<open>command.cpp\<close> and the classes
  \<open>reader\<close>, \<open>command\<close> and \<open>result_set\<close> of \<open>sqlite.hpp\<close>). The other theories take the result of a
  \<open>load_stored\<close> as a list of objects; here the loops over it are the program's own, and the list is
  what they visit.

  The engine is a parameter: what \<open>sqlite3_step\<close>, \<open>sqlite3_reset\<close>, \<open>sqlite3_bind_*\<close> and the column
  functions do to a compiled statement, and the object \<open>initialize_from_db\<close> makes of the current row.
  What it promises is the locale \<open>statement_engine\<close>.
\<close>

section \<open>Commands and readers\<close>

datatype step_result = Step_row | Step_done | Step_error

datatype bound =
    Bind_null
  | Bind_blob string
  | Bind_text string
  | Bind_int int
  | Bind_real real

record ('s, 'r) engine =
  eng_step :: "'s \<Rightarrow> step_result \<times> 's"
  eng_reset :: "'s \<Rightarrow> bool \<times> 's"
  eng_bind :: "int \<Rightarrow> bound \<Rightarrow> 's \<Rightarrow> bool \<times> 's"
  eng_columns :: "'s \<Rightarrow> int"
  eng_text :: "'s \<Rightarrow> int \<Rightarrow> string"
  eng_name :: "'s \<Rightarrow> int \<Rightarrow> string"
  eng_object :: "'s \<Rightarrow> exn + 'r"

text \<open>
  A command is its statement; \<open>close\<close> ends the statement and takes the command from its reader, and
  both are gone then.
\<close>

type_synonym 's command = "'s option"

definition reader_closed :: exn where
  "reader_closed = Database_error ''reader is closed''"

definition reader_read :: "('s, 'r) engine \<Rightarrow> ('s command, bool) eff" where
  "reader_read e c =
     (case c of
        None \<Rightarrow> (Inl reader_closed, c)
      | Some s \<Rightarrow>
          (case eng_step e s of
             (Step_row, s') \<Rightarrow> (Inr True, Some s')
           | (Step_done, s') \<Rightarrow> (Inr False, Some s')
           | (Step_error, s') \<Rightarrow> (Inl (Database_error ''step''), Some s')))"

definition reader_reset :: "('s, 'r) engine \<Rightarrow> ('s command, unit) eff" where
  "reader_reset e c =
     (case c of
        None \<Rightarrow> (Inl reader_closed, c)
      | Some s \<Rightarrow> (case eng_reset e s of (ok, s') \<Rightarrow> (if ok then Inr () else Inl (Database_error ''reset''), Some s')))"

definition reader_validate :: "('s, 'r) engine \<Rightarrow> int \<Rightarrow> ('s command, unit) eff" where
  "reader_validate e i c =
     (case c of
        None \<Rightarrow> (Inl reader_closed, c)
      | Some s \<Rightarrow>
          if i > eng_columns e s - 1 then
            (Inl (Out_of_range (''have '' @ show_int (eng_columns e s - 1) @ '' columns, but '' @ show_int i @ '' was requested'')), c)
          else (Inr (), c))"

definition reader_get :: "('s, 'r) engine \<Rightarrow> int \<Rightarrow> ('s command, string) eff" where
  "reader_get e i =
     bindE (reader_validate e i) (\<lambda>_. getS (\<lambda>c. case c of None \<Rightarrow> [] | Some s \<Rightarrow> eng_text e s i))"

definition reader_is :: "('s, 'r) engine \<Rightarrow> string \<Rightarrow> ('s command, bool) eff" where
  "reader_is e x = bindE (reader_get e 0) (\<lambda>y. ret (y = x))"

definition reader_colname :: "('s, 'r) engine \<Rightarrow> int \<Rightarrow> ('s command, string) eff" where
  "reader_colname e i c =
     (case c of
        None \<Rightarrow> (Inl reader_closed, c)
      | Some s \<Rightarrow> (if i > eng_columns e s - 1 then Inl (Out_of_range ''index out of range'') else Inr (eng_name e s i), c))"

text \<open>\<open>reader::num_columns\<close> is the only operation of a reader that does not ask whether it is closed.\<close>

definition command_num_columns :: "('s, 'r) engine \<Rightarrow> 's command \<Rightarrow> int" where
  "command_num_columns e c = (case c of None \<Rightarrow> 0 | Some s \<Rightarrow> eng_columns e s)"

definition reader_num_columns :: "('s, 'r) engine \<Rightarrow> ('s command, int) eff" where
  "reader_num_columns e c = (if c = None then Inl Abort else Inr (command_num_columns e c), c)"

text \<open>\<open>command::exec\<close> reads one row and does not ask whether there was one.\<close>

definition command_exec :: "('s, 'r) engine \<Rightarrow> ('s command, string) eff" where
  "command_exec e = bindE (reader_read e) (\<lambda>_. reader_get e 0)"

definition command_exec_none :: "('s, 'r) engine \<Rightarrow> ('s command, unit) eff" where
  "command_exec_none e = bindE (reader_read e) (\<lambda>_. ret ())"

definition command_close :: "('s command, unit) eff" where
  "command_close c = (Inr (), None)"

text \<open>
  \<open>bind\<close>: a value is bound after a reset, but not so bytes; a text that is given as a pointer is bound
  as bytes, up to 1024 of them, and null when it is empty.
\<close>

definition bind_raw :: "('s, 'r) engine \<Rightarrow> int \<Rightarrow> bound \<Rightarrow> ('s command, unit) eff" where
  "bind_raw e i b c =
     (case c of
        None \<Rightarrow> (Inl (Database_error ''bind''), c)
      | Some s \<Rightarrow> (case eng_bind e i b s of (ok, s') \<Rightarrow> (if ok then Inr () else Inl (Database_error ''bind''), Some s')))"

definition bind_bytes :: "('s, 'r) engine \<Rightarrow> int \<Rightarrow> string \<Rightarrow> ('s command, unit) eff" where
  "bind_bytes e i d = bind_raw e i (if d = [] then Bind_null else Bind_blob d)"

definition bind_pointer :: "('s, 'r) engine \<Rightarrow> int \<Rightarrow> string \<Rightarrow> ('s command, unit) eff" where
  "bind_pointer e i t = bind_bytes e i (takeWhile (\<lambda>c. c \<noteq> CHR 0x00) (take 1024 t))"

definition bind_value :: "('s, 'r) engine \<Rightarrow> int \<Rightarrow> bound \<Rightarrow> ('s command, unit) eff" where
  "bind_value e i b = bindE (reader_reset e) (\<lambda>_. bind_raw e i b)"

section \<open>Iterators and result sets\<close>

text \<open>
  \<open>command::iterator\<close>: the reader while there is a row, and the object made of the row, which stays when
  the rows are over.
\<close>

record 'r row_iterator =
  at_row :: bool
  row_object :: "'r option"

definition end_rows :: "'r row_iterator" where
  "end_rows = \<lparr>at_row = False, row_object = None\<rparr>"

definition reader_object :: "('s, 'r) engine \<Rightarrow> ('s command, 'r) eff" where
  "reader_object e c = (case c of None \<Rightarrow> (Inl Abort, c) | Some s \<Rightarrow> (eng_object e s, c))"

definition begin_rows :: "('s, 'r) engine \<Rightarrow> ('s command, 'r row_iterator) eff" where
  "begin_rows e =
     bindE (reader_reset e) (\<lambda>_.
     bindE (reader_read e) (\<lambda>row.
     if row then bindE (reader_object e) (\<lambda>x. ret \<lparr>at_row = True, row_object = Some x\<rparr>) else ret end_rows))"

definition next_row :: "('s, 'r) engine \<Rightarrow> 'r row_iterator \<Rightarrow> ('s command, 'r row_iterator) eff" where
  "next_row e i =
     (if \<not> at_row i then throw Abort
      else bindE (reader_read e) (\<lambda>row.
        if row then bindE (reader_object e) (\<lambda>x. ret \<lparr>at_row = True, row_object = Some x\<rparr>)
        else ret (i\<lparr>at_row := False\<rparr>)))"

text \<open>
  The loop \<open>for ( iterator i=begin(); i!=end(); ++i )\<close>, which visits the objects; nothing when it never
  ends.
\<close>

partial_function (option) row_loop ::
  "('s, 'r) engine \<Rightarrow> 'r row_iterator \<Rightarrow> 'r list \<Rightarrow> 's command \<Rightarrow> ((exn + 'r list) \<times> 's command) option" where
  "row_loop e i seen c =
     (if \<not> at_row i then Some (Inr seen, c)
      else case row_object i of
          None \<Rightarrow> Some (Inl Abort, c)
        | Some x \<Rightarrow>
            (case next_row e i c of
               (Inl f, c') \<Rightarrow> Some (Inl f, c')
             | (Inr j, c') \<Rightarrow> row_loop e j (seen @ [x]) c'))"

lemma row_loop_end: "\<not> at_row i \<Longrightarrow> row_loop e i seen c = Some (Inr seen, c)"
  by (subst row_loop.simps) simp

definition visit_rows :: "('s, 'r) engine \<Rightarrow> 's command \<Rightarrow> ((exn + 'r list) \<times> 's command) option" where
  "visit_rows e c =
     (case begin_rows e c of
        (Inl f, c') \<Rightarrow> Some (Inl f, c')
      | (Inr i, c') \<Rightarrow> row_loop e i [] c')"

text \<open>\<open>result_set::size\<close> and \<open>copy_to\<close>, which inserts from the beginning of the container on.\<close>

definition result_size :: "('s, 'r) engine \<Rightarrow> 's command \<Rightarrow> ((exn + nat) \<times> 's command) option" where
  "result_size e c = map_option (map_prod (map_sum id length) id) (visit_rows e c)"

definition copy_to :: "('s, 'r) engine \<Rightarrow> 'r list \<Rightarrow> 's command \<Rightarrow> ((exn + 'r list) \<times> 's command) option" where
  "copy_to e cont c = map_option (map_prod (map_sum id (\<lambda>xs. xs @ cont)) id) (visit_rows e c)"

text \<open>\<open>connection::load_one\<close>: the object of the first row, or the null pointer of the end.\<close>

definition load_first :: "('s, 'r) engine \<Rightarrow> ('s command, 'r) eff" where
  "load_first e =
     bindE (begin_rows e) (\<lambda>i.
     case row_object i of None \<Rightarrow> throw (Sqlite_not_found '' failed'') | Some x \<Rightarrow> ret x)"

section \<open>The rows are visited\<close>

text \<open>
  What the program relies on: a valid statement has a list of objects, of which some are still ahead;
  a step goes to the next one, and a reset to the beginning.
\<close>

locale statement_engine =
  fixes e :: "('s, 'r) engine"
    and valid :: "'s \<Rightarrow> bool"
    and ahead :: "'s \<Rightarrow> 'r list"
    and answer :: "'s \<Rightarrow> 'r list"
  assumes step_row: "valid s \<Longrightarrow> ahead s = x # xs \<Longrightarrow>
      \<exists>s'. eng_step e s = (Step_row, s') \<and> valid s' \<and> ahead s' = xs \<and> answer s' = answer s \<and> eng_object e s' = Inr x"
    and step_done: "valid s \<Longrightarrow> ahead s = [] \<Longrightarrow> \<exists>s'. eng_step e s = (Step_done, s') \<and> valid s' \<and> answer s' = answer s"
    and reset: "valid s \<Longrightarrow> \<exists>s'. eng_reset e s = (True, s') \<and> valid s' \<and> ahead s' = answer s \<and> answer s' = answer s"
begin

definition left :: "'r list \<Rightarrow> 'r list \<Rightarrow> 's command \<Rightarrow> bool" where
  "left all xs c = (\<exists>s. c = Some s \<and> valid s \<and> ahead s = xs \<and> answer s = all)"

lemma read_left:
  "left all (x # xs) c \<Longrightarrow> \<exists>c'. reader_read e c = (Inr True, c') \<and> left all xs c' \<and> reader_object e c' = (Inr x, c')"
  "left all [] c \<Longrightarrow> \<exists>c' ys. reader_read e c = (Inr False, c') \<and> left all ys c'"
  using step_row step_done by (fastforce simp: left_def reader_read_def reader_object_def)+

lemma begin_left:
  assumes "left all ys c"
  shows "\<exists>c' i zs. begin_rows e c = (Inr i, c') \<and> left all zs c' \<and>
    (case all of [] \<Rightarrow> i = end_rows | x # xs \<Rightarrow> i = \<lparr>at_row = True, row_object = Some x\<rparr> \<and> zs = xs)"
proof -
  from assms reset obtain u where u: "reader_reset e c = (Inr (), u)" "left all all u"
    by (fastforce simp: left_def reader_reset_def)
  show ?thesis
  proof (cases all)
    case Nil
    with u(2) read_left(2) obtain w ys where "reader_read e u = (Inr False, w)" "left all ys w" by blast
    with u(1) Nil show ?thesis by (auto simp: begin_rows_def bindE_def ret_def)
  next
    case (Cons x xs)
    with u(2) read_left(1) obtain w where "reader_read e u = (Inr True, w)" "left all xs w" "reader_object e w = (Inr x, w)"
      by blast
    with u(1) Cons show ?thesis by (simp add: begin_rows_def)
  qed
qed

lemma loop_left:
  "left all xs c \<Longrightarrow> \<exists>c' ys. row_loop e \<lparr>at_row = True, row_object = Some x\<rparr> seen c = Some (Inr (seen @ x # xs), c') \<and> left all ys c'"
proof (induction xs arbitrary: x seen c)
  case Nil
  with read_left(2) obtain c' ys where "reader_read e c = (Inr False, c')" "left all ys c'" by blast
  then show ?case by (subst row_loop.simps) (auto simp: next_row_def row_loop_end bindE_def ret_def)
next
  case (Cons y ys)
  with read_left(1) obtain c' where c': "reader_read e c = (Inr True, c')" "left all ys c'" "reader_object e c' = (Inr y, c')"
    by blast
  from Cons.IH [OF c'(2), of y "seen @ [x]"] c'(1,3) show ?case
    by (subst row_loop.simps) (simp add: next_row_def)
qed

lemma visit_left: "left all ys c \<Longrightarrow> \<exists>c' zs. visit_rows e c = Some (Inr all, c') \<and> left all zs c'"
proof -
  assume c: "left all ys c"
  from begin_left [OF c] obtain c' i zs where b: "begin_rows e c = (Inr i, c')" "left all zs c'"
    "case all of [] \<Rightarrow> i = end_rows | x # xs \<Rightarrow> i = \<lparr>at_row = True, row_object = Some x\<rparr> \<and> zs = xs" by blast
  show ?thesis
  proof (cases all)
    case Nil
    with b show ?thesis by (auto simp: visit_rows_def row_loop.simps end_rows_def)
  next
    case (Cons x xs)
    with b loop_left [of all xs c' x "[]"] show ?thesis by (simp add: visit_rows_def)
  qed
qed

lemma sizes_left:
  assumes "left all ys c"
  shows "\<exists>c' zs. result_size e c = Some (Inr (length all), c') \<and> left all zs c'"
    and "\<exists>c' zs. copy_to e cont c = Some (Inr (all @ cont), c') \<and> left all zs c'"
  using visit_left [OF assms] by (auto simp: result_size_def copy_to_def)

lemma first_left:
  "left all ys c \<Longrightarrow> fst (load_first e c) = (case all of [] \<Rightarrow> Inl (Sqlite_not_found '' failed'') | x # xs \<Rightarrow> Inr x)"
  using begin_left [of all ys c] by (auto simp: load_first_def end_rows_def split: list.splits)

lemma left_valid: "left all ys c \<longleftrightarrow> (\<exists>s. c = Some s \<and> valid s \<and> ahead s = ys \<and> answer s = all)"
  by (simp add: left_def)

end

section \<open>The rows of a table\<close>

lemma row_find_filter: "row_find p rs = (case filter p rs of [] \<Rightarrow> None | x # xs \<Rightarrow> Some x)"
  by (induction rs) (auto simp: row_find_def)


text \<open>
  A statement on the tables of the model: the rows it found, those ahead, and the one it is at. A value is
  bound before the first row is read, or after a reset.
\<close>

record 'r cursor =
  found :: "'r list"
  rest :: "'r list"
  current :: "'r option"

definition open_cursor :: "'r list \<Rightarrow> 'r cursor" where
  "open_cursor rs = \<lparr>found = rs, rest = rs, current = None\<rparr>"

definition table_engine :: "string list \<Rightarrow> ('r \<Rightarrow> string list) \<Rightarrow> ('r cursor, 'r) engine" where
  "table_engine names texts =
     \<lparr>eng_step = (\<lambda>s. case rest s of [] \<Rightarrow> (Step_done, s\<lparr>current := None\<rparr>)
                              | x # xs \<Rightarrow> (Step_row, s\<lparr>rest := xs, current := Some x\<rparr>)),
      eng_reset = (\<lambda>s. (True, open_cursor (found s))),
      eng_bind = (\<lambda>i b s. (current s = None, s)),
      eng_columns = (\<lambda>s. int (length names)),
      eng_text = (\<lambda>s i. case current s of None \<Rightarrow> [] | Some x \<Rightarrow> if i < 0 then [] else texts x ! nat i),
      eng_name = (\<lambda>s i. names ! nat i),
      eng_object = (\<lambda>s. case current s of None \<Rightarrow> Inl Abort | Some x \<Rightarrow> Inr x)\<rparr>"

interpretation te: statement_engine "table_engine names texts" "\<lambda>_. True" rest found
  by unfold_locales (auto simp: table_engine_def open_cursor_def split: list.splits)

text \<open>
  C20: The rows of a statement, at whatever row its reader stands: a loop over the result set visits every row
  found once and in order, and ends; so does the next loop; \<open>size\<close> is the number of rows, \<open>copy_to\<close>
  puts them before what the container held, and \<open>load_one\<close> answers the first row, or that nothing was
  found. This is the list the other theories take for the result, and their \<open>load_one\<close>.
\<close>

theorem result_set_lists_rows:
  assumes "found s = filter p rs"
  shows "(\<exists>t. visit_rows (table_engine names texts) (Some s) = Some (Inr (filter p rs), Some t) \<and>
              map_option fst (visit_rows (table_engine names texts) (Some t)) = Some (Inr (filter p rs))) \<and>
         map_option fst (result_size (table_engine names texts) (Some s)) = Some (Inr (length (filter p rs))) \<and>
         map_option fst (copy_to (table_engine names texts) cont (Some s)) = Some (Inr (filter p rs @ cont)) \<and>
         fst (load_first (table_engine names texts) (Some s)) = load_one p rs"
proof -
  let ?e = "table_engine names texts"
  have l: "te.left (filter p rs) (rest s) (Some s)" using assms by (simp add: te.left_valid)
  from te.visit_left [OF l, of names texts] obtain t zs where
    t: "visit_rows ?e (Some s) = Some (Inr (filter p rs), Some t)" "te.left (filter p rs) zs (Some t)"
    by (auto simp: te.left_valid)
  moreover have "map_option fst (visit_rows ?e (Some t)) = Some (Inr (filter p rs))"
    using te.visit_left [OF t(2), of names texts] by auto
  moreover have "fst (load_first ?e (Some s)) = load_one p rs"
    using te.first_left [OF l, of names texts] by (simp add: load_one_def row_find_filter split: list.splits)
  ultimately show ?thesis
    using te.sizes_left [OF l, of names texts] by fastforce
qed

theorem result_set_lists_rows_witness:
  "map_option fst (copy_to (table_engine [''rowid''] (\<lambda>_. [[]])) []
     (Some \<lparr>found = [\<lparr>db_id = 2\<rparr>], rest = [], current = None\<rparr>)) =
   Some (Inr [\<lparr>db_id = 2\<rparr>])"
  using result_set_lists_rows [of "\<lparr>found = [\<lparr>db_id = 2\<rparr>], rest = [], current = None\<rparr>" "\<lambda>r. db_id r = 2"
      "[\<lparr>db_id = 1\<rparr>, \<lparr>db_id = 2\<rparr>]" "[''rowid'']" "\<lambda>_. [[]]" "[]"]
  by simp

text \<open>
  A command that was closed answers every use of its reader with an error, except the number of columns,
  which follows the null pointer.
\<close>

lemma closed_reader:
  assumes "c = snd (command_close d)"
  shows "visit_rows e c = Some (Inl reader_closed, c)" "fst (command_exec e c) = Inl reader_closed"
    "fst (reader_get e i c) = Inl reader_closed" "fst (reader_colname e i c) = Inl reader_closed"
    "fst (bind_value e i b c) = Inl reader_closed" "fst (reader_num_columns e c) = Inl Abort"
  using assms
  by (simp_all add: command_close_def visit_rows_def begin_rows_def command_exec_def reader_get_def reader_validate_def
      reader_colname_def bind_value_def reader_num_columns_def reader_reset_def reader_read_def bindE_def)

text \<open>\<open>exec\<close> of a statement that finds no row answers the empty text, not an error.\<close>

lemma exec_without_row:
  "0 < length names \<Longrightarrow> fst (command_exec (table_engine names texts) (Some (open_cursor []))) = Inr []"
  by (simp add: command_exec_def reader_read_def reader_get_def reader_validate_def getS_def bindE_def table_engine_def
      open_cursor_def)

text \<open>
  Bytes, and so a text given as a pointer, cannot be bound while a row is being read, where any other
  value can; and of a longer text the first 1024 bytes are bound.
\<close>

lemma bytes_are_not_rebound:
  "current s = Some x \<Longrightarrow> fst (bind_bytes (table_engine names texts) i d (Some s)) = Inl (Database_error ''bind'')"
  "fst (bind_value (table_engine names texts) i b (Some s)) = Inr ()"
  by (simp_all add: bind_bytes_def bind_value_def bind_raw_def reader_reset_def bindE_def table_engine_def open_cursor_def)

lemma pointer_is_cut: "1024 \<le> length t \<Longrightarrow> bind_pointer e i (t @ u) = bind_pointer e i t"
  by (simp add: bind_pointer_def)

end
