(* ===== verification/Transaction.thy ===== *)
theory Transaction
  imports World Store
begin

text \<open>
  Transactions (\<open>libs/sqlite/transaction.cpp\<close>): an object that begins one when it is made, and rolls it back
  when it goes away before a \<open>commit\<close>. What the engine does to the data for the three statements is a
  parameter, with its promises as the locale \<open>transactional\<close>; the tables of \<open>World\<close> with a copy taken at
  \<open>begin\<close> keep them.
\<close>

record 'd transaction =
  tx_con :: sqlite_connection
  tx_data :: 'd
  intrans :: bool

type_synonym 'd runner = "string \<Rightarrow> ('d, unit) eff"

text \<open>\<open>con.exec\<none>( sql )\<close>, without the compiler's part of it.\<close>

definition tx_exec :: "'d runner \<Rightarrow> string \<Rightarrow> ('d transaction, unit) eff" where
  "tx_exec run sql t =
     (case validate_db (tx_con t) of
        (Inl f, c) \<Rightarrow> (Inl f, t)
      | (Inr _, c) \<Rightarrow> (case run sql (tx_data t) of (r, d) \<Rightarrow> (r, t\<lparr>tx_data := d\<rparr>)))"

definition tx_begin :: "'d runner \<Rightarrow> ('d transaction, unit) eff" where
  "tx_begin run = bindE (tx_exec run ''begin;'') (\<lambda>_. modS (intrans_update (\<lambda>_. True)))"

definition tx_commit :: "'d runner \<Rightarrow> ('d transaction, unit) eff" where
  "tx_commit run = bindE (tx_exec run ''commit;'') (\<lambda>_. modS (intrans_update (\<lambda>_. False)))"

definition tx_rollback :: "'d runner \<Rightarrow> ('d transaction, unit) eff" where
  "tx_rollback run = bindE (tx_exec run ''rollback;'') (\<lambda>_. modS (intrans_update (\<lambda>_. False)))"

definition tx_construct :: "'d runner \<Rightarrow> bool \<Rightarrow> ('d transaction, unit) eff" where
  "tx_construct run start = bindE (modS (intrans_update (\<lambda>_. False))) (\<lambda>_. if start then tx_begin run else ret ())"

text \<open>The destructor swallows what a failed \<open>rollback\<close> throws.\<close>

definition tx_destruct :: "'d runner \<Rightarrow> 'd transaction \<Rightarrow> 'd transaction" where
  "tx_destruct run t = (if intrans t then snd (tx_rollback run t) else t)"

text \<open>
  A block with a transaction in it. One whose constructor throws was never made, so its destructor does not
  run; the body's exception goes on after the destructor.
\<close>

definition tx_scope :: "'d runner \<Rightarrow> bool \<Rightarrow> ('d transaction, 'a) eff \<Rightarrow> ('d transaction, 'a) eff" where
  "tx_scope run start body t =
     (case tx_construct run start t of
        (Inl f, t1) \<Rightarrow> (Inl f, t1)
      | (Inr _, t1) \<Rightarrow> (case body t1 of (r, t2) \<Rightarrow> (r, tx_destruct run t2)))"

text \<open>Statements on the data inside the block, and the block that commits them at its end.\<close>

definition tx_do :: "('d, 'a) eff \<Rightarrow> ('d transaction, 'a) eff" where
  "tx_do work t = (case work (tx_data t) of (r, d) \<Rightarrow> (r, t\<lparr>tx_data := d\<rparr>))"

definition tx_block :: "'d runner \<Rightarrow> ('d, 'a) eff \<Rightarrow> ('d transaction, 'a) eff" where
  "tx_block run work = tx_scope run True (bindE (tx_do work) (\<lambda>x. bindE (tx_commit run) (\<lambda>_. ret x)))"

section \<open>All or nothing\<close>

locale transactional =
  fixes run :: "'d runner"
    and idle :: "'d \<Rightarrow> bool"
    and kept :: "'d \<Rightarrow> 'v"
    and seen :: "'d \<Rightarrow> 'v"
  assumes begins: "idle d \<Longrightarrow> run ''begin;'' d = (Inr (), d') \<Longrightarrow> \<not> idle d' \<and> kept d' = kept d \<and> seen d' = seen d"
    and begin_fails: "idle d \<Longrightarrow> run ''begin;'' d = (Inl f, d') \<Longrightarrow> d' = d"
    and commits: "\<not> idle d \<Longrightarrow> run ''commit;'' d = (Inr (), d') \<Longrightarrow> idle d' \<and> kept d' = seen d"
    and commit_fails: "\<not> idle d \<Longrightarrow> run ''commit;'' d = (Inl f, d') \<Longrightarrow> d' = d"
    and rolls_back: "\<not> idle d \<Longrightarrow> \<exists>d'. run ''rollback;'' d = (Inr (), d') \<and> idle d' \<and> kept d' = kept d"
    and idle_seen: "idle d \<Longrightarrow> seen d = kept d"
begin

text \<open>Work of the block leaves the transaction open and what is kept alone.\<close>

definition inside :: "('d, 'a) eff \<Rightarrow> bool" where
  "inside work = (\<forall>d r d'. \<not> idle d \<longrightarrow> work d = (r, d') \<longrightarrow> \<not> idle d' \<and> kept d' = kept d)"

lemma destruct_restores:
  assumes "db_open (tx_con t)" "intrans t" "\<not> idle (tx_data t)"
  shows "idle (tx_data (tx_destruct run t)) \<and> kept (tx_data (tx_destruct run t)) = kept (tx_data t)"
  using assms rolls_back [of "tx_data t"]
  by (auto simp: tx_destruct_def tx_rollback_def tx_exec_def validate_db_def bindE_def modS_def)

lemma block_all_or_nothing:
  assumes "db_open (tx_con t)" "idle (tx_data t)" "inside work" "tx_block run work t = (r, t')"
  shows "idle (tx_data t') \<and>
    (case r of
       Inl f \<Rightarrow> kept (tx_data t') = kept (tx_data t)
     | Inr x \<Rightarrow> \<exists>d d'. run ''begin;'' (tx_data t) = (Inr (), d) \<and> work d = (Inr x, d') \<and> kept (tx_data t') = seen d')"
proof (cases "run ''begin;'' (tx_data t)")
  case (Pair b d)
  show ?thesis
  proof (cases b)
    case (Inl f)
    with Pair assms begin_fails [of "tx_data t" f d] show ?thesis
      by (auto simp: tx_block_def tx_scope_def tx_construct_def tx_begin_def tx_exec_def validate_db_def bindE_def modS_def)
  next
    case (Inr u)
    then have d: "run ''begin;'' (tx_data t) = (Inr (), d)" using Pair by simp
    note open_ = begins [OF assms(2) d]
    obtain w d' where w: "work d = (w, d')" by (cases "work d")
    with open_ assms(3) have i: "\<not> idle d'" "kept d' = kept d" by (auto simp: inside_def)
    note unf = tx_block_def tx_scope_def tx_construct_def tx_begin_def tx_exec_def validate_db_def bindE_def modS_def
      tx_do_def tx_commit_def ret_def
    show ?thesis
    proof (cases w)
      case (Inl f)
      with assms d w have "t' = tx_destruct run (t\<lparr>intrans := True, tx_data := d'\<rparr>)" "r = Inl f" by (auto simp: unf)
      with destruct_restores [of "t\<lparr>intrans := True, tx_data := d'\<rparr>"] assms(1) i open_ show ?thesis by simp
    next
      case (Inr x)
      obtain c d'' where c: "run ''commit;'' d' = (c, d'')" by (cases "run ''commit;'' d'")
      show ?thesis
      proof (cases c)
        case (Inl f)
        with c i commit_fails have "d'' = d'" by blast
        with assms d w c Inl Inr have "t' = tx_destruct run (t\<lparr>intrans := True, tx_data := d'\<rparr>)" "r = Inl f" by (auto simp: unf)
        with destruct_restores [of "t\<lparr>intrans := True, tx_data := d'\<rparr>"] assms(1) i open_ show ?thesis by simp
      next
        case (Inr y)
        with c i commits have k: "idle d''" "kept d'' = seen d'" by auto
        from assms d w c Inr \<open>w = Inr x\<close> have "t' = t\<lparr>intrans := False, tx_data := d''\<rparr>" "r = Inr x"
          by (auto simp: unf tx_destruct_def)
        with k d w \<open>w = Inr x\<close> show ?thesis by auto
      qed
    qed
  qed
qed

end

section \<open>The tables of the program\<close>

text \<open>
  The tables with the copy that was taken when the transaction began; a lock of another connection makes
  \<open>commit\<close> fail, and the transaction stays open then.
\<close>

record stored_world =
  tables_now :: world
  tables_before :: "world option"
  locked_out :: bool

definition run_tx :: "stored_world runner" where
  "run_tx sql d =
     (case tables_before d of
        None \<Rightarrow> if sql = ''begin;'' then (Inr (), d\<lparr>tables_before := Some (tables_now d)\<rparr>)
                else (Inl (Database_error ''no transaction is active''), d)
      | Some w \<Rightarrow>
          if sql = ''commit;'' then
            (if locked_out d then (Inl (Database_error ''database is locked''), d) else (Inr (), d\<lparr>tables_before := None\<rparr>))
          else if sql = ''rollback;'' then (Inr (), d\<lparr>tables_before := None, tables_now := w\<rparr>)
          else (Inl (Database_error ''cannot start a transaction within a transaction''), d))"

definition run_tables :: "(world, 'a) eff \<Rightarrow> (stored_world, 'a) eff" where
  "run_tables work d = (case work (tables_now d) of (r, w) \<Rightarrow> (r, d\<lparr>tables_now := w\<rparr>))"

definition kept_tables :: "stored_world \<Rightarrow> world" where
  "kept_tables d = (case tables_before d of None \<Rightarrow> tables_now d | Some w \<Rightarrow> w)"

interpretation tx: transactional run_tx "\<lambda>d. tables_before d = None" kept_tables tables_now
  by unfold_locales (auto simp: run_tx_def kept_tables_def split: option.splits if_splits)

lemma tables_inside: "tx.inside (run_tables work)"
  by (auto simp: tx.inside_def run_tables_def kept_tables_def split: prod.splits)



text \<open>A second transaction on the connection cannot begin; its constructor throws, and the first stays open.\<close>

lemma transactions_do_not_nest:
  assumes "db_open (tx_con t)" "tables_before (tx_data t) = Some w"
  shows "\<exists>f. tx_block run_tx work t = (Inl f, t\<lparr>intrans := False\<rparr>)"
  using assms
  by (auto simp: tx_block_def tx_scope_def tx_construct_def tx_begin_def tx_exec_def validate_db_def run_tx_def bindE_def modS_def)

end
