(* ===== verification/Spec2Isabelle.thy ===== *)
theory Spec2Isabelle
  imports Request_Decode Searches Invariants Sync Json_Path Json_Styled Json_Reader_Correct Json_Places Json_Maps Cursor Transaction
begin

text \<open>
  Verification of spinny, a music player that is used through its own web server.

  The program. \<open>libs/ews\<close> is the web server: it accepts connections, reads requests with a
  character automaton and asks a chain of handlers for the reply. \<open>libs/handlers\<close> holds the nine
  handlers of the application. \<open>libs/spinny\<close> holds what they work on: users, settings, songs,
  artists, albums, directories and playlists, and the scan of the music directories. All of it is
  stored through \<open>libs/sqlite\<close>, a layer of C++ templates over SQLite. \<open>libs/json\<close> reads what
  the administration page posts.

  The theories, from the bottom up (a definition has the name of the function it models, where
  Isabelle leaves it free; the header of a theory names the source files):

  \<^item> \<open>Prelude\<close>, \<open>Lexical\<close>: results and exceptions (\<open>exn\<close>), effects on a state (\<open>eff\<close>, \<open>bindE\<close>),
    strings, ordered maps, decimal texts and \<open>boost::lexical_cast\<close>.
  \<^item> \<open>Url\<close>: percent decoding, the regular expression of the form parser, path elements.
  \<^item> \<open>Sql_Text\<close>: quoting, the comma helper, table descriptions and the statements made of them.
  \<^item> \<open>Store\<close>: the command buffer of a connection. \<open>Tables\<close>: rows, \<open>save\<close>, \<open>load\<close>, \<open>destroy\<close>.
    \<open>World\<close>: the record \<open>world\<close> of everything the program shares, and settings. \<open>Cursor\<close>: commands,
    readers and the loops over result sets. \<open>Transaction\<close>: transactions and their blocks.
  \<^item> \<open>User\<close>: accounts, roles, tickets. \<open>Playlist\<close>: playlists and the list of all songs.
    \<open>Library\<close>: songs, artists, albums, directories, the scan, and SQLite's \<open>LIKE\<close>.
  \<^item> \<open>Request\<close>: the request and its automaton (one definition for each case of the switch);
    \<open>Reply\<close>: replies, templates, buffers; \<open>Dispatch\<close>: the handler chain; \<open>Connections\<close>: the
    connections, their manager and the server as a step relation over completion handlers.
  \<^item> \<open>Json\<close>: values, reader and \<open>FastWriter\<close>. \<open>Json_Value\<close>: the values with their comments and the
    holes of their arrays, comparison, changes, iterators. \<open>Json_Path\<close>: paths into a value.
    \<open>Json_Styled\<close>: \<open>StyledWriter\<close>. \<open>Json_Reader\<close>: the reader with its stack of pointers, its comments
    and its errors. \<open>Json_Arrays\<close>, \<open>Json_Maps\<close>: the containers and the pool that the library has for a
    build with \<open>JSON_VALUE_USE_INTERNAL_MAP\<close>, which this one is not. \<open>Handlers\<close>, \<open>Pages\<close>: the handlers
    and \<open>link_up\<close>.
    \<open>Startup\<close>: the check of the tables and the start of the program.

  How the state corresponds to the code. A row class is a record that extends \<open>table_obj\<close> (the
  member \<open>_id\<close>), a table is the list of its objects by rowid, and \<open>world\<close> is the database, the
  static objects, the clock and the disk. An operation is a function of type \<open>(world, 'a) eff\<close>: it
  returns or throws, and what it did before it threw stays done. A handler works on a reply and a
  world. A null pointer that is dereferenced, a failed assertion and an endless recursion are the
  result \<open>Abort\<close>, which no handler catches. Integers of 32 bits are words, or integers with the
  conversion written out where they only pass through; rowids are integers.

  What the groups of lemmas show.

  \<^item> Requests (\<open>Request_Correct\<close>, \<open>Request_Decode\<close>): the bytes of a request are read back, however
    they are cut; accepted requests are well-formed; variables, path and cookies are decoded.
  \<^item> Replies and dispatch (\<open>Reply\<close>, \<open>Dispatch\<close>): framing, exceptions to statuses, phases, cookies.
  \<^item> The server (\<open>Connections\<close>): an invariant of all reachable states (one reply for each
    connection, none forgotten), and what ends the server.
  \<^item> Data (\<open>Sql_Text\<close>, \<open>Tables\<close>, \<open>User\<close>, \<open>Playlist\<close>, \<open>Directories\<close>, \<open>Searches\<close>, \<open>Scan\<close>): quoting is
    injection safe; a playlist refines a list of songs; destroying a directory removes its
    subtree; searches find substrings; a scan of a new library records nothing.
  \<^item> JSON (\<open>Json_Correct\<close>): the reader ends, stays within its integers, and reads every text that
    spells a value (the relation \<open>spells\<close>, with any white space); what either writer writes is such a
    text (\<open>Json_Styled\<close>). An array that is only changed through its operations is a list, equal
    values are not less, and what a path has assigned it resolves (\<open>Json_Value\<close>, \<open>Json_Path\<close>).
    The reader that is written with pointers refines the one that is a function, and follows none that
    dangles (\<open>Json_Reader_Correct\<close>); the places of its errors are lines and columns (\<open>Json_Places\<close>).
    The internal array refines a list and the internal map an association list as long as one appends,
    assigns and looks up; what copies, removals and iterators do instead is proved (\<open>Json_Arrays\<close>,
    \<open>Json_Maps\<close>).
  \<^item> Result sets and transactions (\<open>Cursor\<close>, \<open>Transaction\<close>): a loop over a result set visits the rows
    found and ends; a block with a transaction does all of its work or none.
  \<^item> The whole application (\<open>Site\<close>, \<open>Startup\<close>): which requests need which user, that files and
    downloads are confined, that posted users are saved, and what the first start leaves.
  \<^item> Sessions (\<open>Session\<close>): what a client that connects and sends bytes reads back, through the
    parser, the connection, the dispatcher, the handlers and the bytes of the reply: files, and a
    login whose ticket opens the downloads.
  \<^item> The stored data (\<open>Invariants\<close>): what the start and every step of the server keep, whatever the
    clients send: the rows stay valid, and the library is the one the server was started with.
  \<^item> The scan (\<open>Sync\<close>): a scanned directory mirrors the disk, and only rows below it change. The
    proof follows the recursion with a frame for each call.

  Interfaces. The locale \<open>header_store\<close> (\<open>Prelude\<close>) is what requests and replies need of their
  maps, \<open>row_store\<close> (\<open>Tables\<close>) what the objects need of a table, \<open>song_lists\<close> (\<open>Playlist\<close>) what a
  list of songs needs of the entries, \<open>scan_invariant\<close> (\<open>Scan\<close>) what a scan keeps,
  \<open>request_invariant\<close> (\<open>Invariants\<close>) what the elementary changes of the handlers keep, and
  \<open>scans_child\<close> (\<open>Sync\<close>) what one level of the scan needs of the level below it,
  \<open>statement_engine\<close> (\<open>Cursor\<close>) what a compiled statement promises its reader, and
  \<open>transactional\<close> (\<open>Transaction\<close>) what the engine promises for begin, commit and rollback; each is
  interpreted on the definitions of the model in the theory that provides them. The rules for
  properties that an effect keeps (\<open>keeps\<close>, the collection \<open>keeps_intros\<close>) are in \<open>Prelude\<close>.

  Parameters: the engine's affinity for texts (\<open>store_text\<close>), its comparison and sorting
  (\<open>text_le\<close>, \<open>order_songs\<close>, \<open>order_entries\<close>, \<open>order_all\<close>), the clock, the random device (\<open>dice\<close>),
  the files, the music disk with the tags TagLib reads (\<open>filesystem\<close>), the path concatenation and
  template engine of a \<open>site\<close>, the reading and printing of doubles. What a property needs of them
  is a named hypothesis (\<open>keeps_words\<close>, \<open>sorts_by_present\<close>, \<open>fair_dice\<close>, \<open>orders_texts\<close>), and its
  witness has an instance.

  Fuel. A walk over directories gets one step more than there are directories: in a well-formed
  tree that is enough (\<open>path_of_directory\<close>, \<open>destroy_removes_subtree\<close>), and a longer walk of the
  program never ends. The JSON reader gets \<open>2 * length + 1\<close> calls, proved to be enough for every
  document. The scan stops at 255 levels, as the code does.

  Not modelled. Sockets, threads and signals (asio, \<open>posix_main.cpp\<close>, \<open>win_main.cpp\<close>), the options
  of the command line, multipart forms (declared and never called), the plug-in samples, the applet
  and the scripts of the pages, and the vendored libraries. A result of \<open>load_stored\<close> is taken as the rows there were when the statement was run,
  which \<open>Cursor\<close> shows of the loops over it; the program never changes the table it is reading from.
  No part of the program opens a transaction: \<open>Transaction\<close> stands beside the other theories.
\<close>

end
